(* ===== verification/Prelude.thy ===== *)
theory Prelude
  imports Main "HOL-Library.Word"
begin

text \<open>
  The prelude of the SniTun development: the types every component shares (bytes, Python strings,
  the exception values, results), the standard-library routines the sources call on them
  (\<^verbatim>\<open>int.to_bytes\<close>, \<^verbatim>\<open>int.from_bytes\<close>, \<^verbatim>\<open>os.urandom\<close>, \<^verbatim>\<open>startswith\<close>), the asyncio
  stream reader, and the generic lemmas the component proofs rest on.

  A byte is an \<open>8 word\<close>; a Python \<open>int\<close> read from bytes is never negative in these sources and is
  a \<open>nat\<close>. A Python \<open>str\<close> is the list of its code points.
\<close>

named_theorems wire_simps \<open>lengths and round trips of encoded units\<close>
named_theorems inv_intros \<open>invariant preservation, one rule per operation\<close>

type_synonym byte = "8 word"
type_synonym bytes = "byte list"
type_synonym pystr = "nat list"

section \<open>Exceptions and results\<close>

text \<open>The exceptions of \<^verbatim>\<open>snitun/exceptions.py\<close> and the built-in ones the sources raise or catch.\<close>

datatype exn =
    SniTunError
  | SniTunChallengeError
  | SniTunInvalidPeer
  | ParseSNIError
  | ParseSNIIncompleteError
  | ParseProxyProtocolError
  | ParseProxyProtocolIncompleteError
  | MultiplexerTransportError
  | MultiplexerTransportClose
  | MultiplexerTransportDecrypt
  | SniTunConnectionError
  | IndexError
  | KeyError
  | ValueError
  | UnicodeDecodeError
  | OverflowError
  | StructError
  | RuntimeError
  | AssertionError
  | TimeoutError
  | OSError
  | IncompleteReadError
  | QueueFull
  | QueueEmpty
  | CancelledError
  | InvalidTag
  | InvalidToken
  | StopIteration
  | JSONDecodeError

text \<open>
  \<open>catches c e\<close>: an \<open>except c\<close> clause catches the exception \<open>e\<close>, that is, \<open>e\<close> is \<open>c\<close> or a
  subclass of it. Every SniTun exception derives from \<open>SniTunError\<close>; the two \<open>Incomplete\<close>
  exceptions derive from their parse errors; \<open>TimeoutError\<close> is an \<open>OSError\<close> and
  \<open>UnicodeDecodeError\<close> and \<open>JSONDecodeError\<close> are \<open>ValueError\<close>s in Python 3.
\<close>

fun parent_exn :: "exn \<Rightarrow> exn option" where
  "parent_exn SniTunChallengeError = Some SniTunError"
| "parent_exn SniTunInvalidPeer = Some SniTunError"
| "parent_exn ParseSNIError = Some SniTunError"
| "parent_exn ParseSNIIncompleteError = Some ParseSNIError"
| "parent_exn ParseProxyProtocolError = Some SniTunError"
| "parent_exn ParseProxyProtocolIncompleteError = Some ParseProxyProtocolError"
| "parent_exn MultiplexerTransportError = Some SniTunError"
| "parent_exn MultiplexerTransportClose = Some SniTunError"
| "parent_exn MultiplexerTransportDecrypt = Some SniTunError"
| "parent_exn SniTunConnectionError = Some SniTunError"
| "parent_exn TimeoutError = Some OSError"
| "parent_exn UnicodeDecodeError = Some ValueError"
| "parent_exn JSONDecodeError = Some ValueError"
| "parent_exn _ = None"

definition catches :: "exn \<Rightarrow> exn \<Rightarrow> bool" where
  "catches c e \<longleftrightarrow>
     e = c \<or> parent_exn e = Some c \<or>
     (case parent_exn e of None \<Rightarrow> False | Some p \<Rightarrow> parent_exn p = Some c)"

text \<open>A computation that may raise: \<open>Inl\<close> the exception, \<open>Inr\<close> the value.\<close>

type_synonym 'a res = "exn + 'a"

definition rbind :: "'a res \<Rightarrow> ('a \<Rightarrow> 'b res) \<Rightarrow> 'b res" where
  "rbind m f = (case m of Inl e \<Rightarrow> Inl e | Inr x \<Rightarrow> f x)"

lemma rbind_Inl [simp]: "rbind (Inl e) f = Inl e"
  by (simp add: rbind_def)

lemma rbind_Inr [simp]: "rbind (Inr x) f = f x"
  by (simp add: rbind_def)

lemma rbind_cong [fundef_cong]:
  "m = m' \<Longrightarrow> (\<And>x. m' = Inr x \<Longrightarrow> f x = g x) \<Longrightarrow> rbind m f = rbind m' g"
  by (cases m') auto

lemma rbind_eq_Inr: "rbind m f = Inr y \<longleftrightarrow> (\<exists>x. m = Inr x \<and> f x = Inr y)"
  by (cases m) auto

lemma rbind_eq_Inl: "rbind m f = Inl e \<longleftrightarrow> m = Inl e \<or> (\<exists>x. m = Inr x \<and> f x = Inl e)"
  by (cases m) auto

text \<open>Indexing a bytes object: \<open>data[i]\<close> is the byte's value, and an \<open>IndexError\<close> out of range.\<close>

definition byte_at :: "bytes \<Rightarrow> nat \<Rightarrow> nat res" where
  "byte_at d i = (if i < length d then Inr (unat (d ! i)) else Inl IndexError)"

lemma byte_at_ok [simp]: "i < length d \<Longrightarrow> byte_at d i = Inr (unat (d ! i))"
  by (simp add: byte_at_def)

lemma byte_at_out [simp]: "\<not> i < length d \<Longrightarrow> byte_at d i = Inl IndexError"
  by (simp add: byte_at_def)

text \<open>A big-endian 16-bit number read as \<^verbatim>\<open>(data[i] << 8) + data[i + 1]\<close>.\<close>

definition be16_at :: "bytes \<Rightarrow> nat \<Rightarrow> nat res" where
  "be16_at d i = rbind (byte_at d i) (\<lambda>h. rbind (byte_at d (i + 1)) (\<lambda>l. Inr (h * 256 + l)))"

lemma be16_at_ok [simp]:
  "i + 1 < length d \<Longrightarrow> be16_at d i = Inr (unat (d ! i) * 256 + unat (d ! (i + 1)))"
  by (simp add: be16_at_def)

lemma be16_at_out [simp]: "\<not> i + 1 < length d \<Longrightarrow> be16_at d i = Inl IndexError"
  by (cases "i < length d") (simp_all add: be16_at_def)

text \<open>\<^verbatim>\<open>try: m except IndexError: raise e\<close>.\<close>

definition on_index_error :: "exn \<Rightarrow> 'a res \<Rightarrow> 'a res" where
  "on_index_error e m = (if m = Inl IndexError then Inl e else m)"

lemma on_index_error_simps [simp]:
  "on_index_error e (Inl IndexError) = Inl e"
  "on_index_error e (Inr x) = Inr x"
  by (simp_all add: on_index_error_def)

text \<open>Slicing \<open>data[a:b]\<close>: out-of-range bounds are clipped and never raise.\<close>

definition slice :: "nat \<Rightarrow> nat \<Rightarrow> 'a list \<Rightarrow> 'a list" where
  "slice a b xs = take (b - a) (drop a xs)"

lemma length_slice [simp]: "length (slice a b xs) = min (b - a) (length xs - a)"
  by (simp add: slice_def)

lemma slice_append_exact [simp]:
  "length xs = a \<Longrightarrow> length ys = b - a \<Longrightarrow> slice a b (xs @ ys @ zs) = ys"
  by (simp add: slice_def)

lemma slice_join: "a \<le> b \<Longrightarrow> b \<le> c \<Longrightarrow> slice a b xs @ slice b c xs = slice a c xs"
  using take_add [of "b - a" "c - b" "drop a xs"] by (simp add: slice_def)

lemma slice_all: "length xs \<le> b \<Longrightarrow> slice 0 b xs = xs"
  by (simp add: slice_def)

definition startswith :: "'a list \<Rightarrow> 'a list \<Rightarrow> bool" where
  "startswith d p \<longleftrightarrow> take (length p) d = p"

lemma startswith_append [simp]: "startswith (p @ d) p"
  by (simp add: startswith_def)

lemma startswith_iff: "startswith d p \<longleftrightarrow> (\<exists>r. d = p @ r)"
  unfolding startswith_def by (metis append_take_drop_id append_eq_conv_conj)

lemma startswith_extend: "startswith d p \<Longrightarrow> startswith (d @ e) p"
  by (auto simp: startswith_iff)

text \<open>Two ways to cut one string: the longer beginning extends the shorter.\<close>

lemma prefix_longer:
  "xs @ ys = zs @ ws \<Longrightarrow> length zs \<le> length xs \<Longrightarrow> \<exists>r. xs = zs @ r \<and> ws = r @ ys"
  by (auto simp: append_eq_append_conv2)

section \<open>Big-endian integers\<close>

text \<open>\<open>to_bytes_be n v\<close> is \<^verbatim>\<open>v.to_bytes(n, "big")\<close> for a \<open>v\<close> that fits.\<close>

fun to_bytes_be :: "nat \<Rightarrow> nat \<Rightarrow> bytes" where
  "to_bytes_be 0 v = []"
| "to_bytes_be (Suc n) v = to_bytes_be n (v div 256) @ [word_of_nat v]"

definition int_to_bytes :: "nat \<Rightarrow> nat \<Rightarrow> bytes res" where
  "int_to_bytes n v = (if v < 256 ^ n then Inr (to_bytes_be n v) else Inl OverflowError)"

definition from_bytes_be :: "bytes \<Rightarrow> nat" where
  "from_bytes_be bs = foldl (\<lambda>a b. 256 * a + unat b) 0 bs"

lemma length_to_bytes_be [simp, wire_simps]: "length (to_bytes_be n v) = n"
  by (induction n arbitrary: v) auto

lemma to_bytes_be_2: "to_bytes_be 2 n = [word_of_nat (n div 256), word_of_nat n]"
  by (simp add: numeral_2_eq_2)

lemma to_bytes_be_4:
  "to_bytes_be 4 n = [word_of_nat (n div 16777216), word_of_nat (n div 65536), word_of_nat (n div 256), word_of_nat n]"
proof -
  have "(4 :: nat) = Suc (Suc (Suc (Suc 0)))" by simp
  then show ?thesis by (simp only: to_bytes_be.simps append_Nil append_Cons) (simp add: div_mult2_eq [symmetric])
qed

lemma to_bytes_be_8: "to_bytes_be 8 n = to_bytes_be 4 (n div 4294967296) @ to_bytes_be 4 n"
proof -
  have "(8 :: nat) = Suc (Suc (Suc (Suc 4)))" by simp
  then have "to_bytes_be 8 n = to_bytes_be 4 (n div 256 div 256 div 256 div 256) @
      [word_of_nat (n div 256 div 256 div 256), word_of_nat (n div 256 div 256), word_of_nat (n div 256), word_of_nat n]"
    by (simp only: to_bytes_be.simps append_assoc append_Cons append_Nil)
  then show ?thesis by (simp add: to_bytes_be_4 div_mult2_eq [symmetric])
qed

lemma from_bytes_be_snoc [simp]: "from_bytes_be (bs @ [b]) = 256 * from_bytes_be bs + unat b"
  by (simp add: from_bytes_be_def)

lemma from_bytes_be_Nil [simp]: "from_bytes_be [] = 0"
  by (simp add: from_bytes_be_def)

lemma unat_byte_of_nat [simp]: "unat (word_of_nat v :: byte) = v mod 256"
  by (simp add: unat_of_nat)

lemma from_to_bytes_be [simp, wire_simps]: "v < 256 ^ n \<Longrightarrow> from_bytes_be (to_bytes_be n v) = v"
proof (induction n arbitrary: v)
  case (Suc n)
  then have "v div 256 < 256 ^ n" by (simp add: less_mult_imp_div_less mult.commute)
  with Suc.IH show ?case by simp
qed simp

lemma byte_bound: "unat (b :: byte) < 256"
  using unsigned_less [where 'a = nat and 'b = 8, of b] by simp

lemma from_bytes_be_bound: "from_bytes_be bs < 256 ^ length bs"
proof (induction bs rule: rev_induct)
  case (snoc b bs)
  have "unat b < 256" by (rule byte_bound)
  moreover from snoc have "from_bytes_be bs + 1 \<le> 256 ^ length bs" by simp
  then have "256 * from_bytes_be bs + 256 \<le> 256 * 256 ^ length bs"
    by (metis distrib_left mult.right_neutral mult_le_mono2)
  ultimately show ?case by simp
qed simp

lemma to_from_bytes_be [simp, wire_simps]: "length bs = n \<Longrightarrow> to_bytes_be n (from_bytes_be bs) = bs"
proof (induction bs arbitrary: n rule: rev_induct)
  case (snoc b bs)
  have "(256 * from_bytes_be bs + unat b) div 256 = from_bytes_be bs"
    using byte_bound [of b] by (simp add: div_mult_self4)
  moreover have "word_of_nat (256 * from_bytes_be bs + unat b) = b"
    by (rule word_unat_eq_iff [THEN iffD2], subst unat_byte_of_nat) (simp add: byte_bound)
  ultimately show ?case using snoc by (auto simp del: of_nat_add of_nat_mult)
qed simp

lemma to_bytes_be_inj: "a < 256 ^ n \<Longrightarrow> b < 256 ^ n \<Longrightarrow> to_bytes_be n a = to_bytes_be n b \<longleftrightarrow> a = b"
  by (metis from_to_bytes_be)

section \<open>Randomness and text literals\<close>

text \<open>
  The operating system's randomness is an unbounded sequence of bytes; \<open>urandom n\<close> takes the next
  \<open>n\<close> of them and leaves the rest.
\<close>

type_synonym entropy = "nat \<Rightarrow> byte"

definition urandom :: "nat \<Rightarrow> entropy \<Rightarrow> bytes \<times> entropy" where
  "urandom n e = (map e [0..<n], \<lambda>i. e (n + i))"

lemma length_urandom [simp, wire_simps]: "length (fst (urandom n e)) = n"
  by (simp add: urandom_def)

lemma urandom_length: "urandom n e = (bs, e') \<Longrightarrow> length bs = n"
  by (auto simp: urandom_def)

text \<open>A bytes literal \<^verbatim>\<open>b"..."\<close> of ASCII characters.\<close>

definition lit :: "string \<Rightarrow> bytes" where
  "lit s = map of_char s"

lemma length_lit [simp]: "length (lit s) = length s"
  by (simp add: lit_def)

section \<open>asyncio stream readers\<close>

text \<open>
  A \<open>StreamReader\<close> is the chunks that will still arrive (none of them empty) and what happens after
  the last one: the peer closes (\<open>read\<close> returns \<open>b""\<close>), the connection breaks (\<open>OSError\<close>), or
  nothing more comes until the enclosing \<^verbatim>\<open>asyncio.timeout\<close> fires (\<open>TimeoutError\<close>).
\<close>

datatype stream_end = Eof | Reset | Stall

record reader =
  chunks :: "bytes list"
  ending :: stream_end

definition reader_ok :: "reader \<Rightarrow> bool" where
  "reader_ok r \<longleftrightarrow> [] \<notin> set (chunks r)"

fun end_result :: "stream_end \<Rightarrow> bytes res" where
  "end_result Eof = Inr []"
| "end_result Reset = Inl OSError"
| "end_result Stall = Inl TimeoutError"

text \<open>\<open>read n r\<close>: at most \<open>n\<close> bytes of the next chunk; the rest of it stays buffered.\<close>

definition read :: "nat \<Rightarrow> reader \<Rightarrow> bytes res \<times> reader" where
  "read n r = (case chunks r of
       [] \<Rightarrow> (end_result (ending r), r)
     | c # cs \<Rightarrow> (Inr (take n c),
                 r\<lparr>chunks := (if length c \<le> n then cs else drop n c # cs)\<rparr>))"

text \<open>What the reader still holds, as one byte string.\<close>

definition pending :: "reader \<Rightarrow> bytes" where
  "pending r = concat (chunks r)"

lemma read_pending:
  "read n r = (Inr d, r') \<Longrightarrow> pending r = d @ pending r' \<and> ending r' = ending r"
  by (cases "ending r") (auto simp: read_def pending_def split: list.splits if_splits)

lemma read_ok: "read n r = (x, r') \<Longrightarrow> reader_ok r \<Longrightarrow> reader_ok r'"
  by (cases "ending r") (auto simp: read_def reader_ok_def split: list.splits if_splits)

lemma read_empty_chunk:
  "read n r = (Inr [], r') \<Longrightarrow> reader_ok r \<Longrightarrow> 0 < n \<Longrightarrow> chunks r = [] \<and> ending r = Eof"
  by (cases "ending r") (auto simp: read_def reader_ok_def split: list.splits if_splits)

lemma read_length: "read n r = (Inr d, r') \<Longrightarrow> length d \<le> n"
  by (cases "ending r") (auto simp: read_def split: list.splits)

lemma read_error_end: "read n r = (Inl e, r') \<Longrightarrow> chunks r = [] \<and> (e = OSError \<or> e = TimeoutError)"
  by (cases "ending r") (auto simp: read_def split: list.splits)

lemma read_shrinks:
  "read n r = (Inr d, r') \<Longrightarrow> d \<noteq> [] \<Longrightarrow> length (pending r') < length (pending r)"
  using read_pending by fastforce

text \<open>
  \<open>readexactly n r\<close>: the next \<open>n\<close> bytes however they are chunked; \<open>IncompleteReadError\<close> when the
  peer closes first.
\<close>

definition readexactly :: "nat \<Rightarrow> reader \<Rightarrow> bytes res \<times> reader" where
  "readexactly n r =
     (if n \<le> length (pending r)
      then (Inr (take n (pending r)),
            r\<lparr>chunks := (if n = length (pending r) then [] else [drop n (pending r)])\<rparr>)
      else (case ending r of
              Eof \<Rightarrow> (Inl IncompleteReadError, r\<lparr>chunks := []\<rparr>)
            | Reset \<Rightarrow> (Inl OSError, r\<lparr>chunks := []\<rparr>)
            | Stall \<Rightarrow> (Inl TimeoutError, r)))"

lemma readexactly_append:
  assumes "pending r = d @ rest" and "length d = n"
  shows "\<exists>r'. readexactly n r = (Inr d, r') \<and> pending r' = rest \<and> ending r' = ending r"
  using assms by (auto simp: readexactly_def pending_def)

lemma readexactly_short:
  "length (pending r) < n \<Longrightarrow> \<exists>e. fst (readexactly n r) = Inl e"
  by (auto simp: readexactly_def split: stream_end.splits)

end
