(* ===== verification/Message.thy ===== *)
theory Message
  imports Prelude
begin

text \<open>
  Multiplexer messages: \<^verbatim>\<open>snitun/multiplexer/message.py\<close>. The 32-byte header is packed by
  \<^verbatim>\<open>struct.Struct(">16sBI11s")\<close>: a 16-byte channel id, one byte of flow type, a 32-bit big-endian
  payload size and 11 bytes of extra data.
\<close>

section \<open>Flow types\<close>

definition MIN_PROTOCOL_VERSION_FOR_PAUSE_RESUME :: nat where
  "MIN_PROTOCOL_VERSION_FOR_PAUSE_RESUME = 1"
definition MIN_PROTOCOL_VERSION_FOR_ENCRYPTED_NEW :: nat where
  "MIN_PROTOCOL_VERSION_FOR_ENCRYPTED_NEW = 2"

datatype FlowType = NEW | DATA | CLOSE | PING | PAUSE | RESUME

fun flow_value :: "FlowType \<Rightarrow> nat" where
  "flow_value NEW = 0x01"
| "flow_value DATA = 0x02"
| "flow_value CLOSE = 0x04"
| "flow_value PING = 0x08"
| "flow_value PAUSE = 0x16"
| "flow_value RESUME = 0x32"

definition CHANNEL_FLOW_NEW :: nat where "CHANNEL_FLOW_NEW = flow_value NEW"
definition CHANNEL_FLOW_DATA :: nat where "CHANNEL_FLOW_DATA = flow_value DATA"
definition CHANNEL_FLOW_CLOSE :: nat where "CHANNEL_FLOW_CLOSE = flow_value CLOSE"
definition CHANNEL_FLOW_PING :: nat where "CHANNEL_FLOW_PING = flow_value PING"
definition CHANNEL_FLOW_PAUSE :: nat where "CHANNEL_FLOW_PAUSE = flow_value PAUSE"
definition CHANNEL_FLOW_RESUME :: nat where "CHANNEL_FLOW_RESUME = flow_value RESUME"

lemmas flow_consts = CHANNEL_FLOW_NEW_def CHANNEL_FLOW_DATA_def CHANNEL_FLOW_CLOSE_def
  CHANNEL_FLOW_PING_def CHANNEL_FLOW_PAUSE_def CHANNEL_FLOW_RESUME_def

text \<open>\<^verbatim>\<open>FlowType(n)\<close>, or \<open>n\<close> itself when it is no flow type (\<open>Inl\<close> here).\<close>

definition try_parse_flow_type :: "nat \<Rightarrow> nat + FlowType" where
  "try_parse_flow_type n =
     (case List.find (\<lambda>f. flow_value f = n) [NEW, DATA, CLOSE, PING, PAUSE, RESUME] of
        Some f \<Rightarrow> Inr f
      | None \<Rightarrow> Inl n)"

lemma try_parse_flow_value [simp]: "try_parse_flow_type (flow_value f) = Inr f"
  by (cases f) (simp_all add: try_parse_flow_type_def)

lemma flow_value_byte: "0 < flow_value f \<and> flow_value f < 256"
  by (cases f) simp_all

section \<open>Messages and headers\<close>

type_synonym channel_id = bytes

record message =
  mid :: channel_id
  flow_type :: nat
  mdata :: bytes
  extra :: bytes

abbreviation make_message :: "channel_id \<Rightarrow> nat \<Rightarrow> bytes \<Rightarrow> bytes \<Rightarrow> message" where
  "make_message i f d x \<equiv> \<lparr>mid = i, flow_type = f, mdata = d, extra = x\<rparr>"

definition HEADER_SIZE :: nat where "HEADER_SIZE = 32"

text \<open>A format \<^verbatim>\<open>ns\<close> of \<^verbatim>\<open>struct\<close>: cut or padded with zero bytes to \<open>n\<close> bytes.\<close>

definition pack_s :: "nat \<Rightarrow> bytes \<Rightarrow> bytes" where
  "pack_s n bs = take n bs @ replicate (n - length bs) 0"

lemma length_pack_s [simp]: "length (pack_s n bs) = n"
  by (simp add: pack_s_def)

lemma pack_s_exact [simp]: "length bs = n \<Longrightarrow> pack_s n bs = bs"
  by (simp add: pack_s_def)

text \<open>\<open>HEADER_STRUCT.pack\<close>: values that do not fit their field are a \<^verbatim>\<open>struct.error\<close>.\<close>

definition header_pack :: "bytes \<Rightarrow> nat \<Rightarrow> nat \<Rightarrow> bytes \<Rightarrow> bytes res" where
  "header_pack i f n x =
     (if f < 256 \<and> n < 2 ^ 32
      then Inr (pack_s 16 i @ to_bytes_be 1 f @ to_bytes_be 4 n @ pack_s 11 x)
      else Inl StructError)"

definition header_unpack :: "bytes \<Rightarrow> (bytes \<times> nat \<times> nat \<times> bytes) res" where
  "header_unpack b =
     (if length b = HEADER_SIZE
      then Inr (slice 0 16 b, from_bytes_be (slice 16 17 b), from_bytes_be (slice 17 21 b), slice 21 32 b)
      else Inl StructError)"

lemma header_pack_length [wire_simps]: "header_pack i f n x = Inr h \<Longrightarrow> length h = HEADER_SIZE"
  by (auto simp: header_pack_def HEADER_SIZE_def split: if_splits)

lemma header_unpack_pack:
  assumes "header_pack i f n x = Inr h"
  shows "header_unpack h = Inr (pack_s 16 i, f, n, pack_s 11 x)"
proof -
  from assms have fit: "f < 256 ^ 1" "n < 256 ^ 4"
    and h: "h = pack_s 16 i @ to_bytes_be 1 f @ to_bytes_be 4 n @ pack_s 11 x"
    by (auto simp: header_pack_def split: if_splits)
  have "slice 0 16 h = pack_s 16 i" "slice 16 17 h = to_bytes_be 1 f"
       "slice 17 21 h = to_bytes_be 4 n" "slice 21 32 h = pack_s 11 x"
    by (simp_all add: h slice_def)
  with from_to_bytes_be [OF fit(1)] from_to_bytes_be [OF fit(2)] h show ?thesis
    by (simp add: header_unpack_def HEADER_SIZE_def)
qed

lemma header_pack_unpack:
  assumes "header_unpack h = Inr (i, f, n, x)"
  shows "header_pack i f n x = Inr h \<and> length i = 16 \<and> f < 256 \<and> n < 2 ^ 32 \<and> length x = 11"
proof -
  have len: "length h = 32" using assms by (simp add: header_unpack_def HEADER_SIZE_def split: if_splits)
  have parts: "i = slice 0 16 h" "f = from_bytes_be (slice 16 17 h)" "n = from_bytes_be (slice 17 21 h)"
      "x = slice 21 32 h" using assms by (simp_all add: header_unpack_def HEADER_SIZE_def split: if_splits)
  have l: "length (slice 0 16 h) = 16" "length (slice 16 17 h) = 1" "length (slice 17 21 h) = 4"
      "length (slice 21 32 h) = 11" using len by simp_all
  have "slice 0 16 h @ slice 16 17 h @ slice 17 21 h @ slice 21 32 h = h"
    using len by (simp add: slice_join slice_all)
  with from_bytes_be_bound [of "slice 16 17 h"] from_bytes_be_bound [of "slice 17 21 h"] l parts
    to_from_bytes_be [OF l(2)]
  show ?thesis by (simp add: header_pack_def del: to_bytes_be.simps One_nat_def)
qed

section \<open>Properties\<close>

text \<open>
  The header codec is exact in both directions: a packed header is 32 bytes and unpacks to the id
  (cut or zero-padded to 16 bytes), the flow type, the size and the extra field (likewise 11 bytes);
  packing fails exactly when the flow type does not fit one byte or the size does not fit 32 bits.
\<close>

theorem header_codec:
  "case header_pack i f n x of
     Inr h \<Rightarrow> f < 256 \<and> n < 2 ^ 32 \<and> length h = 32 \<and> header_unpack h = Inr (pack_s 16 i, f, n, pack_s 11 x)
   | Inl e \<Rightarrow> e = StructError \<and> (256 \<le> f \<or> 2 ^ 32 \<le> n)"
proof (cases "header_pack i f n x")
  case (Inl e)
  then show ?thesis by (auto simp: header_pack_def split: if_splits)
next
  case (Inr h)
  with header_unpack_pack [OF Inr] header_pack_length [OF Inr] show ?thesis
    by (auto simp: header_pack_def HEADER_SIZE_def split: if_splits)
qed

end
