(* ===== verification/Queue.thy ===== *)
theory Queue
  imports Message
begin

text \<open>
  The message queues of \<^verbatim>\<open>snitun/multiplexer/queue.py\<close>. Byte counts are Python integers
  (\<open>int\<close>), so that a subtraction below zero would show. Callbacks are recorded in the order they are
  made. The multi channel queue keeps its \<open>_ChannelQueue\<close> objects in a heap of references, because a
  suspended \<open>put\<close> holds on to the object while the dictionary of channels may change under it.
\<close>

section \<open>Sizes and water marks\<close>

definition effective_size :: "message option \<Rightarrow> int" where
  "effective_size m = (case m of None \<Rightarrow> 0 | Some msg \<Rightarrow> int HEADER_SIZE + int (length (mdata msg)))"

definition total_size :: "message option list \<Rightarrow> int" where
  "total_size ms = sum_list (map effective_size ms)"

lemma effective_size_nonneg: "0 \<le> effective_size m"
  by (simp add: effective_size_def split: option.split)

lemma total_size_nonneg: "0 \<le> total_size ms"
  by (induction ms) (auto simp: total_size_def effective_size_nonneg)

lemma total_size_simps [simp]:
  "total_size [] = 0"
  "total_size (m # ms) = effective_size m + total_size ms"
  "total_size (ms @ ns) = total_size ms + total_size ns"
  by (simp_all add: total_size_def)

text \<open>Calls that alternate, the first one being the change away from \<open>b\<close>.\<close>

fun alternates :: "bool \<Rightarrow> bool list \<Rightarrow> bool" where
  "alternates b [] = True"
| "alternates b (x # xs) = (x = (\<not> b) \<and> alternates x xs)"

lemma alternates_append:
  "alternates b (xs @ ys) \<longleftrightarrow> alternates b xs \<and> alternates (if xs = [] then b else last xs) ys"
  by (induction b xs rule: alternates.induct) auto

text \<open>
  The contract both queues keep with their \<open>under_water_callback\<close>: the flag goes up when the level
  reaches the high mark, down when it falls to the low mark, and the callback is made exactly at these
  changes, with the new value.
\<close>

locale hysteresis =
  fixes level :: "'s \<Rightarrow> int" and flag :: "'s \<Rightarrow> bool" and fired :: "'s \<Rightarrow> bool list"
    and push :: "'m \<Rightarrow> 's \<Rightarrow> 's" and pop :: "'s \<Rightarrow> 's" and low :: "'s \<Rightarrow> int" and high :: "'s \<Rightarrow> int"
  assumes push_flag: "flag (push m s) \<longleftrightarrow> flag s \<or> high s \<le> level (push m s)"
    and push_fired: "fired (push m s) = fired s @ (if \<not> flag s \<and> high s \<le> level (push m s) then [True] else [])"
    and pop_flag: "flag (pop s) \<longleftrightarrow> flag s \<and> low s < level (pop s)"
    and pop_fired: "fired (pop s) = fired s @ (if flag s \<and> level (pop s) \<le> low s then [False] else [])"
    and push_level: "level s \<le> level (push m s)"
    and pop_level: "level (pop s) \<le> level s"
    and marks: "low (push m s) = low s" "high (push m s) = high s" "low (pop s) = low s" "high (pop s) = high s"
begin

fun drive :: "'m option list \<Rightarrow> 's \<Rightarrow> 's" where
  "drive [] s = s"
| "drive (Some m # xs) s = drive xs (push m s)"
| "drive (None # xs) s = drive xs (pop s)"

text \<open>Callbacks strictly alternate, and the last one tells the current state.\<close>

lemma drive_alternates:
  "\<exists>calls. fired (drive xs s) = fired s @ calls \<and> alternates (flag s) calls \<and>
     flag (drive xs s) = (if calls = [] then flag s else last calls)"
proof (induction xs s rule: drive.induct)
  case (2 m xs s)
  then obtain calls where c: "fired (drive xs (push m s)) = fired (push m s) @ calls"
    "alternates (flag (push m s)) calls"
    "flag (drive xs (push m s)) = (if calls = [] then flag (push m s) else last calls)" by blast
  let ?new = "if \<not> flag s \<and> high s \<le> level (push m s) then [True] else []"
  have "fired (drive (Some m # xs) s) = fired s @ (?new @ calls)" using c push_fired by simp
  moreover have "alternates (flag s) (?new @ calls)" using c push_flag [of m s] by auto
  ultimately show ?case using c push_flag [of m s]
    by (intro exI [of _ "?new @ calls"]) auto
next
  case (3 xs s)
  then obtain calls where c: "fired (drive xs (pop s)) = fired (pop s) @ calls"
    "alternates (flag (pop s)) calls"
    "flag (drive xs (pop s)) = (if calls = [] then flag (pop s) else last calls)" by blast
  let ?new = "if flag s \<and> level (pop s) \<le> low s then [False] else []"
  have "fired (drive (None # xs) s) = fired s @ (?new @ calls)" using c pop_fired by simp
  moreover have "alternates (flag s) (?new @ calls)" using c pop_flag [of s] by auto
  ultimately show ?case using c pop_flag [of s]
    by (intro exI [of _ "?new @ calls"]) auto
qed simp

text \<open>The calls made so far alternate, starting with \<open>True\<close>, and the last one is the current state.\<close>

definition told :: "'s \<Rightarrow> bool" where
  "told s \<longleftrightarrow> alternates False (fired s) \<and> flag s = (fired s \<noteq> [] \<and> last (fired s))"

lemma told_push: "told s \<Longrightarrow> told (push m s)"
  using push_flag [of m s] push_fired [of m s] by (auto simp: told_def alternates_append)

lemma told_pop: "told s \<Longrightarrow> told (pop s)"
  using pop_flag [of s] pop_fired [of s] by (auto simp: told_def alternates_append)

text \<open>The flag is up above the high mark and down at or below the low mark.\<close>

definition settled :: "'s \<Rightarrow> bool" where
  "settled s \<longleftrightarrow> (if flag s then low s < level s else level s < high s)"

lemma settled_push: "low s < high s \<Longrightarrow> settled s \<Longrightarrow> settled (push m s)"
  using push_flag [of m s] push_level [of s m] marks by (auto simp: settled_def)

lemma settled_pop: "low s < high s \<Longrightarrow> settled s \<Longrightarrow> settled (pop s)"
  using pop_flag [of s] pop_level [of s] marks by (auto simp: settled_def split: if_splits)

lemma settled_drive: "low s < high s \<Longrightarrow> settled s \<Longrightarrow> settled (drive xs s)"
  by (induction xs s rule: drive.induct) (auto intro: settled_push settled_pop simp: marks)

end

section \<open>The single channel queue\<close>

text \<open>
  \<open>MultiplexerSingleChannelQueue\<close>: an \<^verbatim>\<open>asyncio.Queue\<close> whose \<open>qsize\<close> counts bytes; \<open>sfired\<close>
  records the calls of \<open>under_water_callback\<close>.
\<close>

record scq =
  maxsize :: int
  slow :: int
  shigh :: int
  stotal :: int
  sunder :: bool
  sitems :: "message option list"
  sfired :: "bool list"

definition new_scq :: "int \<Rightarrow> int \<Rightarrow> int \<Rightarrow> scq" where
  "new_scq m l h = \<lparr>maxsize = m, slow = l, shigh = h, stotal = 0, sunder = False, sitems = [], sfired = []\<rparr>"

definition scq_put :: "message option \<Rightarrow> scq \<Rightarrow> scq" where
  "scq_put m s =
     (let s = s\<lparr>stotal := stotal s + effective_size m, sitems := sitems s @ [m]\<rparr> in
      if \<not> sunder s \<and> shigh s \<le> stotal s then s\<lparr>sunder := True, sfired := sfired s @ [True]\<rparr> else s)"

definition scq_get :: "scq \<Rightarrow> message option \<times> scq" where
  "scq_get s =
     (let m = hd (sitems s);
          s = s\<lparr>sitems := tl (sitems s), stotal := stotal s - effective_size m\<rparr> in
      (m, if sunder s \<and> stotal s \<le> slow s then s\<lparr>sunder := False, sfired := sfired s @ [False]\<rparr> else s))"

definition qsize :: "scq \<Rightarrow> int" where "qsize s = stotal s"

text \<open>Inherited from \<^verbatim>\<open>asyncio.Queue\<close>: \<open>full\<close>, \<open>empty\<close>, \<open>put_nowait\<close> and \<open>get_nowait\<close>.\<close>

definition scq_full :: "scq \<Rightarrow> bool" where
  "scq_full s \<longleftrightarrow> \<not> maxsize s \<le> 0 \<and> maxsize s \<le> qsize s"

definition scq_empty :: "scq \<Rightarrow> bool" where "scq_empty s \<longleftrightarrow> sitems s = []"

definition scq_put_nowait :: "message option \<Rightarrow> scq \<Rightarrow> scq res" where
  "scq_put_nowait m s = (if scq_full s then Inl QueueFull else Inr (scq_put m s))"

definition scq_get_nowait :: "scq \<Rightarrow> (message option \<times> scq) res" where
  "scq_get_nowait s = (if scq_empty s then Inl QueueEmpty else Inr (scq_get s))"

definition scq_inv :: "scq \<Rightarrow> bool" where
  "scq_inv s \<longleftrightarrow> stotal s = total_size (sitems s) \<and>
     (if sunder s then slow s < stotal s else stotal s < shigh s)"

lemma scq_put_fields [simp]:
  "sitems (scq_put m s) = sitems s @ [m]"
  "stotal (scq_put m s) = stotal s + effective_size m"
  "maxsize (scq_put m s) = maxsize s" "slow (scq_put m s) = slow s" "shigh (scq_put m s) = shigh s"
  "sunder (scq_put m s) \<longleftrightarrow> sunder s \<or> shigh s \<le> stotal s + effective_size m"
  "sfired (scq_put m s) =
     sfired s @ (if \<not> sunder s \<and> shigh s \<le> stotal s + effective_size m then [True] else [])"
  by (auto simp: scq_put_def Let_def)

lemma scq_get_fields [simp]:
  "fst (scq_get s) = hd (sitems s)"
  "sitems (snd (scq_get s)) = tl (sitems s)"
  "stotal (snd (scq_get s)) = stotal s - effective_size (hd (sitems s))"
  "maxsize (snd (scq_get s)) = maxsize s" "slow (snd (scq_get s)) = slow s"
  "shigh (snd (scq_get s)) = shigh s"
  "sunder (snd (scq_get s)) \<longleftrightarrow> sunder s \<and> slow s < stotal s - effective_size (hd (sitems s))"
  "sfired (snd (scq_get s)) =
     sfired s @ (if sunder s \<and> stotal s - effective_size (hd (sitems s)) \<le> slow s then [False] else [])"
  by (auto simp: scq_get_def Let_def)

lemma scq_inv_new [inv_intros]: "0 < h \<Longrightarrow> scq_inv (new_scq m l h)"
  by (simp add: scq_inv_def new_scq_def)

lemma scq_inv_put [inv_intros]: "scq_inv s \<Longrightarrow> slow s < shigh s \<Longrightarrow> scq_inv (scq_put m s)"
  using effective_size_nonneg [of m] by (auto simp: scq_inv_def split: if_splits)

lemma scq_inv_get [inv_intros]:
  "scq_inv s \<Longrightarrow> slow s < shigh s \<Longrightarrow> sitems s \<noteq> [] \<Longrightarrow> scq_inv (snd (scq_get s))"
  using effective_size_nonneg [of "hd (sitems s)"]
  by (cases "sitems s") (auto simp: scq_inv_def split: if_splits)

interpretation sq: hysteresis stotal sunder sfired scq_put "\<lambda>s. snd (scq_get s)" slow shigh
  by unfold_locales (auto simp: effective_size_nonneg)

end
