(* ===== verification/MultiQueue.thy ===== *)
theory MultiQueue
  imports Queue
begin

text \<open>
  \<open>MultiplexerMultiChannelQueue\<close> of \<^verbatim>\<open>snitun/multiplexer/queue.py\<close>: one byte-limited FIFO per
  channel, served round robin. \<open>heap\<close> holds the \<open>_ChannelQueue\<close> objects, \<open>channels\<close> the dictionary
  from channel id to object, \<open>order\<close> the keys of the \<open>OrderedDict\<close>, \<open>futs\<close> the states of the
  futures that suspended \<open>put\<close> and \<open>get\<close> calls wait for. A call that suspends returns the future it
  awaits; its continuation is a separate operation (\<open>put_resume\<close>, \<open>get_resume\<close>, and
  \<open>put_cancel\<close>, \<open>get_cancel\<close> for the \<^verbatim>\<open>except\<close> branch).
\<close>

section \<open>One channel\<close>

record channel_queue =
  total_bytes :: int
  under_water :: bool
  pending_close :: bool
  items :: "message option list"
  putters :: "nat list"
  fired :: "bool list"

definition new_channel_queue :: channel_queue where
  "new_channel_queue = \<lparr>total_bytes = 0, under_water = False, pending_close = False, items = [],
     putters = [], fired = []\<rparr>"

text \<open>The part of \<open>_put\<close> and of \<open>get_nowait\<close> that works on the channel object.\<close>

definition cq_push :: "int \<Rightarrow> message option \<Rightarrow> channel_queue \<Rightarrow> channel_queue" where
  "cq_push high m c =
     (let c = c\<lparr>items := items c @ [m], total_bytes := total_bytes c + effective_size m\<rparr> in
      if \<not> under_water c \<and> high \<le> total_bytes c
      then c\<lparr>under_water := True, fired := fired c @ [True]\<rparr> else c)"

definition cq_pop :: "int \<Rightarrow> channel_queue \<Rightarrow> channel_queue" where
  "cq_pop low c =
     (let c = c\<lparr>items := tl (items c), total_bytes := total_bytes c - effective_size (hd (items c))\<rparr> in
      if under_water c \<and> total_bytes c \<le> low
      then c\<lparr>under_water := False, fired := fired c @ [False]\<rparr> else c)"

lemma cq_push_fields [simp]:
  "items (cq_push h m c) = items c @ [m]"
  "total_bytes (cq_push h m c) = total_bytes c + effective_size m"
  "pending_close (cq_push h m c) = pending_close c" "putters (cq_push h m c) = putters c"
  "under_water (cq_push h m c) \<longleftrightarrow> under_water c \<or> h \<le> total_bytes c + effective_size m"
  "fired (cq_push h m c) =
     fired c @ (if \<not> under_water c \<and> h \<le> total_bytes c + effective_size m then [True] else [])"
  by (auto simp: cq_push_def Let_def)

lemma cq_pop_fields [simp]:
  "items (cq_pop l c) = tl (items c)"
  "total_bytes (cq_pop l c) = total_bytes c - effective_size (hd (items c))"
  "pending_close (cq_pop l c) = pending_close c" "putters (cq_pop l c) = putters c"
  "under_water (cq_pop l c) \<longleftrightarrow> under_water c \<and> l < total_bytes c - effective_size (hd (items c))"
  "fired (cq_pop l c) =
     fired c @ (if under_water c \<and> total_bytes c - effective_size (hd (items c)) \<le> l then [False] else [])"
  by (auto simp: cq_pop_def Let_def)

interpretation cq: hysteresis total_bytes under_water fired "cq_push h" "cq_pop l" "\<lambda>_. l" "\<lambda>_. h"
  for l h
  by unfold_locales (auto simp: effective_size_nonneg)

section \<open>The queue\<close>

datatype fut = FPending | FDone | FCancelled

record mcq =
  channel_size_limit :: int
  channel_low_water_mark :: int
  channel_high_water_mark :: int
  heap :: "nat \<Rightarrow> channel_queue"
  next_ref :: nat
  channels :: "channel_id \<rightharpoonup> nat"
  order :: "channel_id list"
  getters :: "nat list"
  futs :: "nat \<Rightarrow> fut"
  next_fut :: nat

definition new_mcq :: "int \<Rightarrow> int \<Rightarrow> int \<Rightarrow> mcq" where
  "new_mcq limit low high =
     \<lparr>channel_size_limit = limit, channel_low_water_mark = low, channel_high_water_mark = high,
      heap = (\<lambda>_. new_channel_queue), next_ref = 0, channels = Map.empty, order = [], getters = [],
      futs = (\<lambda>_. FPending), next_fut = 0\<rparr>"

definition create_channel :: "mcq \<Rightarrow> channel_id \<Rightarrow> mcq res" where
  "create_channel q cid =
     (if channels q cid \<noteq> None then Inl RuntimeError
      else Inr (q\<lparr>heap := (heap q)(next_ref q := new_channel_queue),
                  channels := (channels q)(cid \<mapsto> next_ref q), next_ref := next_ref q + 1\<rparr>))"

definition delete_channel :: "mcq \<Rightarrow> channel_id \<Rightarrow> mcq" where
  "delete_channel q cid =
     (case channels q cid of
        None \<Rightarrow> q
      | Some r \<Rightarrow>
          (if items (heap q r) \<noteq> []
           then q\<lparr>heap := (heap q)(r := (heap q r)\<lparr>pending_close := True\<rparr>)\<rparr>
           else q\<lparr>channels := (channels q)(cid := None)\<rparr>))"

text \<open>Waiters that are already done or cancelled are dropped; the first pending one is woken.\<close>

fun wakeup_next :: "nat list \<Rightarrow> (nat \<Rightarrow> fut) \<Rightarrow> nat list \<times> (nat \<Rightarrow> fut)" where
  "wakeup_next [] fs = ([], fs)"
| "wakeup_next (w # ws) fs =
     (if fs w = FPending then (ws, fs(w := FDone)) else wakeup_next ws fs)"

definition wake_getter :: "mcq \<Rightarrow> mcq" where
  "wake_getter q = (case wakeup_next (getters q) (futs q) of (ws, fs) \<Rightarrow> q\<lparr>getters := ws, futs := fs\<rparr>)"

definition wake_putter :: "nat \<Rightarrow> mcq \<Rightarrow> mcq" where
  "wake_putter r q =
     (case wakeup_next (putters (heap q r)) (futs q) of (ws, fs) \<Rightarrow>
        q\<lparr>heap := (heap q)(r := (heap q r)\<lparr>putters := ws\<rparr>), futs := fs\<rparr>)"

text \<open>\<^verbatim>\<open>self._order[channel_id] = None\<close>: a key already present keeps its place.\<close>

definition order_add :: "channel_id \<Rightarrow> channel_id list \<Rightarrow> channel_id list" where
  "order_add cid os = (if cid \<in> set os then os else os @ [cid])"

definition q_put :: "mcq \<Rightarrow> channel_id \<Rightarrow> nat \<Rightarrow> message option \<Rightarrow> mcq" where
  "q_put q cid r m =
     wake_getter (q\<lparr>heap := (heap q)(r := cq_push (channel_high_water_mark q) m (heap q r)),
                    order := order_add cid (order q)\<rparr>)"

definition over_limit :: "mcq \<Rightarrow> nat \<Rightarrow> message option \<Rightarrow> bool" where
  "over_limit q r m \<longleftrightarrow> channel_size_limit q < total_bytes (heap q r) + effective_size m"

definition put_nowait :: "mcq \<Rightarrow> channel_id \<Rightarrow> message option \<Rightarrow> mcq res" where
  "put_nowait q cid m =
     (case channels q cid of
        None \<Rightarrow> Inl RuntimeError
      | Some r \<Rightarrow> (if over_limit q r m then Inl QueueFull else Inr (q_put q cid r m)))"

definition put_nowait_force :: "mcq \<Rightarrow> channel_id \<Rightarrow> message option \<Rightarrow> mcq res" where
  "put_nowait_force q cid m =
     (case channels q cid of None \<Rightarrow> Inl RuntimeError | Some r \<Rightarrow> Inr (q_put q cid r m))"

definition mcq_empty :: "mcq \<Rightarrow> channel_id \<Rightarrow> bool" where
  "mcq_empty q cid = (case channels q cid of None \<Rightarrow> True | Some r \<Rightarrow> total_bytes (heap q r) = 0)"

definition mcq_size :: "mcq \<Rightarrow> channel_id \<Rightarrow> int" where
  "mcq_size q cid = (case channels q cid of None \<Rightarrow> 0 | Some r \<Rightarrow> total_bytes (heap q r))"

definition mcq_full :: "mcq \<Rightarrow> channel_id \<Rightarrow> bool" where
  "mcq_full q cid =
     (case channels q cid of None \<Rightarrow> False | Some r \<Rightarrow> channel_size_limit q \<le> total_bytes (heap q r))"

text \<open>
  The body of \<open>get_nowait\<close> once \<open>popitem\<close> has taken the first key. A key without a channel is a
  \<open>KeyError\<close>, a channel without a message an \<open>IndexError\<close> of \<open>popleft\<close>; both leave the key popped.
\<close>

definition get_nowait :: "mcq \<Rightarrow> message option res \<times> mcq" where
  "get_nowait q =
     (case order q of
        [] \<Rightarrow> (Inl QueueEmpty, q)
      | cid # os \<Rightarrow>
          (let q = q\<lparr>order := os\<rparr> in
           case channels q cid of
             None \<Rightarrow> (Inl KeyError, q)
           | Some r \<Rightarrow>
               (if items (heap q r) = [] then (Inl IndexError, q)
                else
                  let m = hd (items (heap q r));
                      rest = tl (items (heap q r));
                      q = (if rest \<noteq> [] then q\<lparr>order := order_add cid os\<rparr>
                           else if pending_close (heap q r) then q\<lparr>channels := (channels q)(cid := None)\<rparr>
                           else q);
                      q = q\<lparr>heap := (heap q)(r := cq_pop (channel_low_water_mark q) (heap q r))\<rparr>
                  in (Inr m, wake_putter r q))))"

section \<open>Suspending calls\<close>

text \<open>
  \<open>put\<close>: the result is either the finished state, an exception, or the future awaited together with
  the channel object the coroutine holds.
\<close>

datatype put_outcome = PutDone | PutWaits nat nat

definition put_loop :: "mcq \<Rightarrow> channel_id \<Rightarrow> nat \<Rightarrow> message option \<Rightarrow> put_outcome \<times> mcq" where
  "put_loop q cid r m =
     (if over_limit q r m
      then (PutWaits (next_fut q) r,
            q\<lparr>futs := (futs q)(next_fut q := FPending), next_fut := next_fut q + 1,
              heap := (heap q)(r := (heap q r)\<lparr>putters := putters (heap q r) @ [next_fut q]\<rparr>)\<rparr>)
      else (PutDone, q_put q cid r m))"

definition put_start :: "mcq \<Rightarrow> channel_id \<Rightarrow> message option \<Rightarrow> put_outcome res \<times> mcq" where
  "put_start q cid m =
     (case channels q cid of
        None \<Rightarrow> (Inl RuntimeError, q)
      | Some r \<Rightarrow> (case put_loop q cid r m of (x, q') \<Rightarrow> (Inr x, q')))"

text \<open>The awaited future is done: test the limit again.\<close>

definition put_resume :: "mcq \<Rightarrow> channel_id \<Rightarrow> nat \<Rightarrow> message option \<Rightarrow> put_outcome \<times> mcq" where
  "put_resume q cid r m = put_loop q cid r m"

definition cancel_fut :: "nat \<Rightarrow> (nat \<Rightarrow> fut) \<Rightarrow> (nat \<Rightarrow> fut)" where
  "cancel_fut f fs = (if fs f = FPending then fs(f := FCancelled) else fs)"

text \<open>The \<^verbatim>\<open>except\<close> branch of \<open>put\<close>: the exception is raised again after the clean-up.\<close>

definition put_cancel :: "mcq \<Rightarrow> channel_id \<Rightarrow> nat \<Rightarrow> nat \<Rightarrow> mcq" where
  "put_cancel q cid r f =
     (let q = q\<lparr>futs := cancel_fut f (futs q),
                heap := (heap q)(r := (heap q r)\<lparr>putters := remove1 f (putters (heap q r))\<rparr>)\<rparr> in
      if \<not> mcq_full q cid \<and> futs q f \<noteq> FCancelled then wake_putter r q else q)"

datatype get_outcome = GetDone "message option" | GetWaits nat

definition get_loop :: "mcq \<Rightarrow> get_outcome res \<times> mcq" where
  "get_loop q =
     (if order q = []
      then (Inr (GetWaits (next_fut q)),
            q\<lparr>futs := (futs q)(next_fut q := FPending), next_fut := next_fut q + 1,
              getters := getters q @ [next_fut q]\<rparr>)
      else (case get_nowait q of
              (Inl e, q') \<Rightarrow> (Inl e, q')
            | (Inr m, q') \<Rightarrow> (Inr (GetDone m), q')))"

definition get_start :: "mcq \<Rightarrow> get_outcome res \<times> mcq" where "get_start q = get_loop q"

definition get_resume :: "mcq \<Rightarrow> get_outcome res \<times> mcq" where "get_resume q = get_loop q"

definition get_cancel :: "mcq \<Rightarrow> nat \<Rightarrow> mcq" where
  "get_cancel q f =
     (let q = q\<lparr>futs := cancel_fut f (futs q), getters := remove1 f (getters q)\<rparr> in
      if order q \<noteq> [] \<and> futs q f \<noteq> FCancelled then wake_getter q else q)"

section \<open>Invariant\<close>

text \<open>
  The bookkeeping of one channel, and of the whole queue: byte counts are exact, a channel is in
  \<open>order\<close> exactly once when it has messages, a channel waiting to be closed still has messages, and
  the flag respects the marks.
\<close>

definition cq_inv :: "int \<Rightarrow> int \<Rightarrow> channel_queue \<Rightarrow> bool" where
  "cq_inv low high c \<longleftrightarrow>
     total_bytes c = total_size (items c) \<and> (pending_close c \<longrightarrow> items c \<noteq> []) \<and>
     (if under_water c then low < total_bytes c else total_bytes c < high)"

definition mcq_inv :: "mcq \<Rightarrow> bool" where
  "mcq_inv q \<longleftrightarrow>
     channel_low_water_mark q < channel_high_water_mark q \<and> 0 < channel_high_water_mark q \<and>
     distinct (order q) \<and>
     (\<forall>cid. cid \<in> set (order q) \<longleftrightarrow> (\<exists>r. channels q cid = Some r \<and> items (heap q r) \<noteq> [])) \<and>
     (\<forall>cid r. channels q cid = Some r \<longrightarrow>
        r < next_ref q \<and> cq_inv (channel_low_water_mark q) (channel_high_water_mark q) (heap q r)) \<and>
     (\<forall>c1 c2 r. channels q c1 = Some r \<and> channels q c2 = Some r \<longrightarrow> c1 = c2)"

text \<open>The messages waiting in a channel: the abstract state of the queue.\<close>

definition contents :: "mcq \<Rightarrow> channel_id \<Rightarrow> message option list" where
  "contents q cid = (case channels q cid of None \<Rightarrow> [] | Some r \<Rightarrow> items (heap q r))"

lemma mcq_invI:
  assumes "channel_low_water_mark q < channel_high_water_mark q" and "0 < channel_high_water_mark q"
    and "distinct (order q)"
    and "\<And>cid. cid \<in> set (order q) \<longleftrightarrow> (\<exists>r. channels q cid = Some r \<and> items (heap q r) \<noteq> [])"
    and "\<And>cid r. channels q cid = Some r \<Longrightarrow> r < next_ref q"
    and "\<And>cid r. channels q cid = Some r \<Longrightarrow>
           cq_inv (channel_low_water_mark q) (channel_high_water_mark q) (heap q r)"
    and "\<And>c1 c2 r. channels q c1 = Some r \<Longrightarrow> channels q c2 = Some r \<Longrightarrow> c1 = c2"
  shows "mcq_inv q"
  unfolding mcq_inv_def using assms by blast

lemma mcq_invD:
  assumes "mcq_inv q"
  shows "channel_low_water_mark q < channel_high_water_mark q" and "0 < channel_high_water_mark q"
    and "distinct (order q)"
    and "cid \<in> set (order q) \<longleftrightarrow> (\<exists>r. channels q cid = Some r \<and> items (heap q r) \<noteq> [])"
    and "channels q cid = Some r \<Longrightarrow> r < next_ref q"
    and "channels q cid = Some r \<Longrightarrow>
           cq_inv (channel_low_water_mark q) (channel_high_water_mark q) (heap q r)"
    and "channels q c1 = Some r \<Longrightarrow> channels q c2 = Some r \<Longrightarrow> c1 = c2"
  using assms unfolding mcq_inv_def by blast+

section \<open>Waking changes no message\<close>

text \<open>Two queues with the same messages and bookkeeping; only waiters and futures may differ.\<close>

definition same_data :: "mcq \<Rightarrow> mcq \<Rightarrow> bool" where
  "same_data q q' \<longleftrightarrow>
     channel_size_limit q' = channel_size_limit q \<and>
     channel_low_water_mark q' = channel_low_water_mark q \<and>
     channel_high_water_mark q' = channel_high_water_mark q \<and>
     next_ref q' = next_ref q \<and> channels q' = channels q \<and> order q' = order q \<and>
     (\<forall>r. items (heap q' r) = items (heap q r) \<and> total_bytes (heap q' r) = total_bytes (heap q r) \<and>
          under_water (heap q' r) = under_water (heap q r) \<and>
          pending_close (heap q' r) = pending_close (heap q r) \<and> fired (heap q' r) = fired (heap q r))"

lemma same_data_refl [simp]: "same_data q q"
  by (simp add: same_data_def)

lemma same_data_trans: "same_data a b \<Longrightarrow> same_data b c \<Longrightarrow> same_data a c"
  by (simp add: same_data_def)

lemma wake_getter_same: "same_data q (wake_getter q)"
  by (simp add: wake_getter_def same_data_def split: prod.split)

lemma wake_putter_same: "same_data q (wake_putter r q)"
  by (simp add: wake_putter_def same_data_def split: prod.split)

lemma cq_inv_same:
  "items c' = items c \<Longrightarrow> total_bytes c' = total_bytes c \<Longrightarrow> under_water c' = under_water c \<Longrightarrow>
   pending_close c' = pending_close c \<Longrightarrow> cq_inv l h c' = cq_inv l h c"
  by (simp add: cq_inv_def)

lemma same_data_inv: "same_data q q' \<Longrightarrow> mcq_inv q' = mcq_inv q"
  by (simp add: same_data_def mcq_inv_def cq_inv_def)

lemma same_data_contents: "same_data q q' \<Longrightarrow> contents q' = contents q"
  by (auto simp: same_data_def contents_def fun_eq_iff split: option.split)

lemma same_data_limit: "same_data q q' \<Longrightarrow> over_limit q' r m = over_limit q r m"
  by (simp add: same_data_def over_limit_def)

text \<open>The state \<open>_put\<close> reaches before it wakes a getter.\<close>

definition put_data :: "mcq \<Rightarrow> channel_id \<Rightarrow> nat \<Rightarrow> message option \<Rightarrow> mcq" where
  "put_data q cid r m =
     q\<lparr>heap := (heap q)(r := cq_push (channel_high_water_mark q) m (heap q r)),
       order := order_add cid (order q)\<rparr>"

lemma q_put_same: "same_data (put_data q cid r m) (q_put q cid r m)"
  unfolding q_put_def put_data_def by (rule wake_getter_same)

section \<open>Preservation\<close>

lemma set_order_add [simp]: "set (order_add c os) = insert c (set os)"
  by (auto simp: order_add_def)

lemma distinct_order_add [simp]: "distinct os \<Longrightarrow> distinct (order_add c os)"
  by (auto simp: order_add_def)

lemma cq_inv_push: "cq_inv l h c \<Longrightarrow> l < h \<Longrightarrow> cq_inv l h (cq_push h m c)"
  using effective_size_nonneg [of m] by (auto simp: cq_inv_def split: if_splits)

lemma cq_inv_pop:
  assumes "cq_inv l h c" and "l < h" and "items c \<noteq> []"
    and "pending_close c \<Longrightarrow> tl (items c) \<noteq> []"
  shows "cq_inv l h (cq_pop l c)"
proof -
  obtain m ms where "items c = m # ms" using assms(3) by (cases "items c") auto
  with assms effective_size_nonneg [of m] show ?thesis by (auto simp: cq_inv_def split: if_splits)
qed

lemma mcq_inv_new [inv_intros]: "low < high \<Longrightarrow> 0 < high \<Longrightarrow> mcq_inv (new_mcq limit low high)"
  by (simp add: mcq_inv_def new_mcq_def)

lemma mcq_inv_create [inv_intros]: "mcq_inv q \<Longrightarrow> create_channel q cid = Inr q' \<Longrightarrow> mcq_inv q'"
proof -
  assume inv: "mcq_inv q" and c: "create_channel q cid = Inr q'"
  note I = mcq_invD [OF inv]
  from c have new: "channels q cid = None" and q': "q' = q\<lparr>heap := (heap q)(next_ref q := new_channel_queue),
      channels := (channels q)(cid \<mapsto> next_ref q), next_ref := next_ref q + 1\<rparr>"
    by (auto simp: create_channel_def split: if_splits)
  have other: "channels q x = Some r \<Longrightarrow> r \<noteq> next_ref q" for x r using I(5) by blast
  show ?thesis
  proof (rule mcq_invI)
    show "x \<in> set (order q') \<longleftrightarrow> (\<exists>r. channels q' x = Some r \<and> items (heap q' r) \<noteq> [])" for x
      using I(4) [of x] new other [of x] by (auto simp: q' new_channel_queue_def)
    show "cq_inv (channel_low_water_mark q') (channel_high_water_mark q') (heap q' r)"
      if "channels q' x = Some r" for x r
    proof (cases "x = cid")
      case True
      then show ?thesis using that I(2) by (simp add: q' new_channel_queue_def cq_inv_def total_size_def)
    next
      case False
      then show ?thesis using that I(6) [of x r] other [of x r] by (simp add: q')
    qed
    show "c1 = c2" if "channels q' c1 = Some r" "channels q' c2 = Some r" for c1 c2 r
      using that I(7) [of c1 r c2] other by (auto simp: q' split: if_splits)
    show "r < next_ref q'" if "channels q' x = Some r" for x r
      using that I(5) [of x r] by (auto simp: q' split: if_splits)
  qed (use I(1-3) in \<open>simp_all add: q'\<close>)
qed

lemma mcq_inv_delete [inv_intros]: "mcq_inv q \<Longrightarrow> mcq_inv (delete_channel q cid)"
  by (auto simp: mcq_inv_def delete_channel_def cq_inv_def split: option.splits if_splits)

lemma mcq_inv_put_data: "mcq_inv q \<Longrightarrow> channels q cid = Some r \<Longrightarrow> mcq_inv (put_data q cid r m)"
  by (auto simp: mcq_inv_def put_data_def intro!: cq_inv_push)

lemma mcq_inv_q_put [inv_intros]: "mcq_inv q \<Longrightarrow> channels q cid = Some r \<Longrightarrow> mcq_inv (q_put q cid r m)"
  using same_data_inv [OF q_put_same] mcq_inv_put_data by blast

lemma mcq_inv_put_nowait [inv_intros]: "mcq_inv q \<Longrightarrow> put_nowait q cid m = Inr q' \<Longrightarrow> mcq_inv q'"
  by (auto simp: put_nowait_def mcq_inv_q_put split: option.splits if_splits)

lemma mcq_inv_put_force [inv_intros]: "mcq_inv q \<Longrightarrow> put_nowait_force q cid m = Inr q' \<Longrightarrow> mcq_inv q'"
  by (auto simp: put_nowait_force_def mcq_inv_q_put split: option.splits)

text \<open>The state \<open>get_nowait\<close> reaches before it wakes a putter.\<close>

definition get_data :: "mcq \<Rightarrow> channel_id \<Rightarrow> channel_id list \<Rightarrow> nat \<Rightarrow> mcq" where
  "get_data q cid os r =
     q\<lparr>order := (if tl (items (heap q r)) \<noteq> [] then order_add cid os else os),
       channels := (if tl (items (heap q r)) = [] \<and> pending_close (heap q r)
                    then (channels q)(cid := None) else channels q),
       heap := (heap q)(r := cq_pop (channel_low_water_mark q) (heap q r))\<rparr>"

lemma get_nowait_data:
  assumes "order q = cid # os" and "channels q cid = Some r" and "items (heap q r) \<noteq> []"
  shows "get_nowait q = (Inr (hd (items (heap q r))), wake_putter r (get_data q cid os r))"
  using assms by (simp add: get_nowait_def get_data_def Let_def)

text \<open>In a well-formed queue the first key has a channel with a message: no \<open>KeyError\<close>.\<close>

lemma mcq_inv_first:
  assumes "mcq_inv q" and "order q = cid # os"
  shows "\<exists>r. channels q cid = Some r \<and> items (heap q r) \<noteq> []"
  using assms by (metis mcq_inv_def list.set_intros(1))

lemma mcq_inv_get_data:
  assumes inv: "mcq_inv q" and o: "order q = cid # os" and c: "channels q cid = Some r"
    and i: "items (heap q r) \<noteq> []"
  shows "mcq_inv (get_data q cid os r)"
proof -
  let ?q = "get_data q cid os r" and ?rest = "tl (items (heap q r))"
  have d: "distinct os" "cid \<notin> set os" and lh: "channel_low_water_mark q < channel_high_water_mark q"
    using inv o by (auto simp: mcq_inv_def)
  have inj: "channels q c' = Some r \<Longrightarrow> c' = cid" for c' using inv c by (auto simp: mcq_inv_def)
  have mem: "x \<in> set os \<longleftrightarrow> (\<exists>r. channels q x = Some r \<and> items (heap q r) \<noteq> [])" if "x \<noteq> cid" for x
    using mcq_invD(4) [OF inv, of x] o that by simp
  show ?thesis
  proof (rule mcq_invI)
    show "x \<in> set (order ?q) \<longleftrightarrow> (\<exists>r. channels ?q x = Some r \<and> items (heap ?q r) \<noteq> [])" for x
    proof (cases "x = cid")
      case True
      with d c show ?thesis by (simp add: get_data_def)
    next
      case False
      then have "channels q x = Some r' \<Longrightarrow> r' \<noteq> r" for r' using inj by blast
      then show ?thesis using mem [OF False] False by (auto simp: get_data_def)
    qed
    show "cq_inv (channel_low_water_mark ?q) (channel_high_water_mark ?q) (heap ?q r')"
      if "channels ?q x = Some r'" for x r'
    proof -
      have x: "channels q x = Some r'" using that by (auto simp: get_data_def split: if_splits)
      show ?thesis
      proof (cases "r' = r")
        case True
        with x inj have "x = cid" by blast
        with that True have "pending_close (heap q r) \<Longrightarrow> ?rest \<noteq> []"
          by (auto simp: get_data_def split: if_splits)
        with True cq_inv_pop [OF mcq_invD(6) [OF inv c] lh i] show ?thesis by (simp add: get_data_def)
      next
        case False
        with mcq_invD(6) [OF inv x] show ?thesis by (simp add: get_data_def)
      qed
    qed
    show "r' < next_ref ?q" if "channels ?q x = Some r'" for x r'
      using that mcq_invD(5) [OF inv, of x r'] by (auto simp: get_data_def split: if_splits)
    show "c1 = c2" if "channels ?q c1 = Some r'" "channels ?q c2 = Some r'" for c1 c2 r'
      using that mcq_invD(7) [OF inv, of c1 r' c2] by (auto simp: get_data_def split: if_splits)
    show "distinct (order ?q)" using d by (simp add: get_data_def)
  qed (use mcq_invD(1,2) [OF inv] in \<open>simp_all add: get_data_def\<close>)
qed

lemma mcq_inv_get [inv_intros]: "mcq_inv q \<Longrightarrow> get_nowait q = (x, q') \<Longrightarrow> mcq_inv q'"
proof (cases "order q")
  case (Cons cid os)
  assume inv: "mcq_inv q" and g: "get_nowait q = (x, q')"
  from mcq_inv_first [OF inv Cons] obtain r where r: "channels q cid = Some r" "items (heap q r) \<noteq> []" by blast
  with g get_nowait_data [OF Cons r] mcq_inv_get_data [OF inv Cons r]
    same_data_inv [OF wake_putter_same [of "get_data q cid os r" r]] show ?thesis by simp
qed (simp add: get_nowait_def)

section \<open>Refinement: a round-robin list of channel queues\<close>

text \<open>
  The contract of the queue: a list of non-empty channel queues. A message is appended to the queue
  of its channel, a channel that was empty joins at the end, and a read takes the first message of
  the first channel and moves that channel to the end.
\<close>

type_synonym rr = "(channel_id \<times> message option list) list"

fun rr_put :: "channel_id \<Rightarrow> message option \<Rightarrow> rr \<Rightarrow> rr" where
  "rr_put c m [] = [(c, [m])]"
| "rr_put c m ((d, ms) # rest) = (if d = c then (d, ms @ [m]) # rest else (d, ms) # rr_put c m rest)"

fun rr_get :: "rr \<Rightarrow> (channel_id \<times> message option) option \<times> rr" where
  "rr_get [] = (None, [])"
| "rr_get ((c, ms) # rest) = (Some (c, hd ms), if tl ms = [] then rest else rest @ [(c, tl ms)])"

definition abs_rr :: "mcq \<Rightarrow> rr" where
  "abs_rr q = map (\<lambda>c. (c, contents q c)) (order q)"

lemma rr_put_map:
  "distinct os \<Longrightarrow> (c \<notin> set os \<Longrightarrow> f c = []) \<Longrightarrow>
   rr_put c m (map (\<lambda>x. (x, f x)) os) =
   map (\<lambda>x. (x, if x = c then f c @ [m] else f x)) (order_add c os)"
  by (induction os) (auto simp: order_add_def)

lemma same_data_abs: "same_data q q' \<Longrightarrow> abs_rr q' = abs_rr q"
  using same_data_contents [of q q'] by (simp add: abs_rr_def same_data_def)

lemma contents_put_data:
  assumes "mcq_inv q" and "channels q cid = Some r"
  shows "contents (put_data q cid r m) =
    (\<lambda>x. if x = cid then contents q cid @ [m] else contents q x)"
  using assms mcq_invD(7) [OF assms(1)]
  by (fastforce simp: fun_eq_iff contents_def put_data_def split: option.split)

lemma contents_q_put:
  assumes "mcq_inv q" and "channels q cid = Some r"
  shows "contents (q_put q cid r m) = (\<lambda>x. if x = cid then contents q cid @ [m] else contents q x)"
  using contents_put_data [OF assms] same_data_contents [OF q_put_same] by simp

lemma order_q_put: "order (q_put q cid r m) = order_add cid (order q)"
  using q_put_same [of q cid r m] by (simp add: same_data_def put_data_def)

lemma contents_not_ordered: "mcq_inv q \<Longrightarrow> c \<notin> set (order q) \<Longrightarrow> contents q c = []"
  using mcq_invD(4) [of q c] by (auto simp: contents_def split: option.split)

lemma q_put_refines:
  assumes "mcq_inv q" and "channels q cid = Some r"
  shows "abs_rr (q_put q cid r m) = rr_put cid m (abs_rr q)"
  using rr_put_map [of "order q" cid "contents q" m] contents_not_ordered [OF assms(1)]
    mcq_invD(3) [OF assms(1)] contents_q_put [OF assms]
  by (auto simp: abs_rr_def order_q_put)

lemma contents_get_data:
  assumes "mcq_inv q" and "channels q cid = Some r" and "order q = cid # os"
  shows "contents (get_data q cid os r) = (\<lambda>x. if x = cid then tl (contents q cid) else contents q x)"
  using assms mcq_invD(7) [OF assms(1)]
  by (fastforce simp: fun_eq_iff contents_def get_data_def split: option.split)

text \<open>Reading a well-formed queue: the data of the first channel, no exception but \<open>QueueEmpty\<close>.\<close>

lemma get_nowait_cons:
  assumes inv: "mcq_inv q" and o: "order q = cid # os"
  shows "fst (get_nowait q) = Inr (hd (contents q cid))" and "contents q cid \<noteq> []"
    and "contents (snd (get_nowait q)) =
           (\<lambda>x. if x = cid then tl (contents q cid) else contents q x)"
    and "order (snd (get_nowait q)) = (if tl (contents q cid) = [] then os else os @ [cid])"
    and "channels (snd (get_nowait q)) = channels q \<or> channels (snd (get_nowait q)) = (channels q)(cid := None)"
proof -
  from mcq_inv_first [OF inv o] obtain r where r: "channels q cid = Some r" "items (heap q r) \<noteq> []" by blast
  note g = get_nowait_data [OF o r]
  have c: "contents q cid = items (heap q r)" using r by (simp add: contents_def)
  have same: "same_data (get_data q cid os r) (snd (get_nowait q))" using g wake_putter_same by simp
  have n: "cid \<notin> set os" using mcq_invD(3) [OF inv] o by simp
  show "fst (get_nowait q) = Inr (hd (contents q cid))" "contents q cid \<noteq> []" using g c r by simp_all
  show "contents (snd (get_nowait q)) = (\<lambda>x. if x = cid then tl (contents q cid) else contents q x)"
    using same_data_contents [OF same] contents_get_data [OF inv r(1) o] by simp
  show "order (snd (get_nowait q)) = (if tl (contents q cid) = [] then os else os @ [cid])"
    using same n c by (simp add: same_data_def get_data_def order_add_def)
  show "channels (snd (get_nowait q)) = channels q \<or> channels (snd (get_nowait q)) = (channels q)(cid := None)"
    using same by (simp add: same_data_def get_data_def)
qed

lemma get_nowait_empty: "order q = [] \<Longrightarrow> get_nowait q = (Inl QueueEmpty, q)"
  by (simp add: get_nowait_def)

lemma get_refines:
  assumes inv: "mcq_inv q"
  shows "abs_rr (snd (get_nowait q)) = snd (rr_get (abs_rr q))"
    and "fst (get_nowait q) = (case fst (rr_get (abs_rr q)) of None \<Rightarrow> Inl QueueEmpty | Some (c, m) \<Rightarrow> Inr m)"
proof -
  have "abs_rr (snd (get_nowait q)) = snd (rr_get (abs_rr q)) \<and>
    fst (get_nowait q) = (case fst (rr_get (abs_rr q)) of None \<Rightarrow> Inl QueueEmpty | Some (c, m) \<Rightarrow> Inr m)"
  proof (cases "order q")
    case Nil
    then show ?thesis by (simp add: abs_rr_def get_nowait_empty)
  next
    case (Cons cid os)
    with mcq_invD(3) [OF inv] have "cid \<notin> set os" by simp
    with Cons get_nowait_cons [OF inv Cons] show ?thesis by (auto simp: abs_rr_def)
  qed
  then show "abs_rr (snd (get_nowait q)) = snd (rr_get (abs_rr q))"
    and "fst (get_nowait q) = (case fst (rr_get (abs_rr q)) of None \<Rightarrow> Inl QueueEmpty | Some (c, m) \<Rightarrow> Inr m)"
    by blast+
qed

section \<open>Interleaved operations\<close>

text \<open>
  Every call of the queue, and every resumption or cancellation of a suspended call, is one atomic
  operation of the event loop. An operation reports the message it accepted or delivered, or the
  exception it raised. A suspended \<open>put\<close> is resumed with the channel object it looked up when it
  started; \<open>live_op\<close> says that this object is still the one registered for the channel.
\<close>

datatype qop =
    QCreate channel_id | QDelete channel_id
  | QPutNowait channel_id "message option" | QPutForce channel_id "message option"
  | QPutStart channel_id "message option" | QPutResume channel_id nat "message option"
  | QPutCancel channel_id nat nat
  | QGetNowait | QGetStart | QGetResume | QGetCancel nat

datatype qevent =
    Accepted channel_id "message option" | Delivered channel_id "message option"
  | Raised exn | Silent

definition accept_event :: "channel_id \<Rightarrow> message option \<Rightarrow> put_outcome \<Rightarrow> qevent" where
  "accept_event cid m x = (case x of PutDone \<Rightarrow> Accepted cid m | PutWaits _ _ \<Rightarrow> Silent)"

definition done_or_raise :: "mcq \<Rightarrow> qevent \<Rightarrow> mcq res \<Rightarrow> qevent \<times> mcq" where
  "done_or_raise q ev x = (case x of Inl e \<Rightarrow> (Raised e, q) | Inr q' \<Rightarrow> (ev, q'))"

definition exec_get :: "mcq \<Rightarrow> get_outcome res \<times> mcq \<Rightarrow> qevent \<times> mcq" where
  "exec_get q x =
     (case x of
        (Inl e, q') \<Rightarrow> (Raised e, q')
      | (Inr (GetWaits f), q') \<Rightarrow> (Silent, q')
      | (Inr (GetDone m), q') \<Rightarrow> (Delivered (hd (order q)) m, q'))"

fun qexec :: "mcq \<Rightarrow> qop \<Rightarrow> qevent \<times> mcq" where
  "qexec q (QCreate cid) = done_or_raise q Silent (create_channel q cid)"
| "qexec q (QDelete cid) = (Silent, delete_channel q cid)"
| "qexec q (QPutNowait cid m) = done_or_raise q (Accepted cid m) (put_nowait q cid m)"
| "qexec q (QPutForce cid m) = done_or_raise q (Accepted cid m) (put_nowait_force q cid m)"
| "qexec q (QPutStart cid m) =
     (case put_start q cid m of
        (Inl e, q') \<Rightarrow> (Raised e, q') | (Inr x, q') \<Rightarrow> (accept_event cid m x, q'))"
| "qexec q (QPutResume cid r m) = (case put_resume q cid r m of (x, q') \<Rightarrow> (accept_event cid m x, q'))"
| "qexec q (QPutCancel cid r f) = (Silent, put_cancel q cid r f)"
| "qexec q QGetNowait =
     (case get_nowait q of
        (Inl e, q') \<Rightarrow> (Raised e, q') | (Inr m, q') \<Rightarrow> (Delivered (hd (order q)) m, q'))"
| "qexec q QGetStart = exec_get q (get_start q)"
| "qexec q QGetResume = exec_get q (get_resume q)"
| "qexec q (QGetCancel f) = (Silent, get_cancel q f)"

fun live_op :: "mcq \<Rightarrow> qop \<Rightarrow> bool" where
  "live_op q (QPutResume cid r m) \<longleftrightarrow> channels q cid = Some r"
| "live_op q _ \<longleftrightarrow> True"

text \<open>What one operation can do, whichever it is.\<close>

definition quiet :: "mcq \<Rightarrow> qevent \<Rightarrow> mcq \<Rightarrow> bool" where
  "quiet q ev q' \<longleftrightarrow> mcq_inv q' \<and> contents q' = contents q \<and> order q' = order q \<and>
     (ev = Silent \<or> ev = Raised RuntimeError \<or> ev = Raised QueueFull \<or> (ev = Raised QueueEmpty \<and> order q = []))"

definition accepts :: "mcq \<Rightarrow> qevent \<Rightarrow> mcq \<Rightarrow> bool" where
  "accepts q ev q' \<longleftrightarrow> (\<exists>cid r m. channels q cid = Some r \<and> ev = Accepted cid m \<and> q' = q_put q cid r m)"

definition delivers :: "mcq \<Rightarrow> qevent \<Rightarrow> mcq \<Rightarrow> bool" where
  "delivers q ev q' \<longleftrightarrow> (\<exists>cid os. order q = cid # os \<and> ev = Delivered cid (hd (contents q cid)) \<and>
     q' = snd (get_nowait q))"

lemmas op_kinds = quiet_def accepts_def delivers_def

lemma same_data_quiet: "mcq_inv q \<Longrightarrow> same_data q q' \<Longrightarrow> quiet q Silent q'"
  using same_data_inv [of q q'] same_data_contents [of q q'] by (simp add: quiet_def same_data_def)

lemma exec_create: "mcq_inv q \<Longrightarrow> done_or_raise q Silent (create_channel q cid) = (ev, q') \<Longrightarrow> quiet q ev q'"
proof (cases "create_channel q cid")
  case (Inr q1)
  assume inv: "mcq_inv q" and e: "done_or_raise q Silent (create_channel q cid) = (ev, q')"
  have "channels q x = Some r \<Longrightarrow> r \<noteq> next_ref q" for x r using mcq_invD(5) [OF inv] by blast
  with Inr e mcq_inv_create [OF inv Inr] show ?thesis
    by (auto simp: quiet_def done_or_raise_def create_channel_def contents_def new_channel_queue_def
      fun_eq_iff split: option.split if_splits)
qed (auto simp: quiet_def done_or_raise_def create_channel_def split: if_splits)

lemma exec_delete: "mcq_inv q \<Longrightarrow> quiet q Silent (delete_channel q cid)"
  using mcq_inv_delete [of q cid]
  by (auto simp: quiet_def delete_channel_def contents_def fun_eq_iff split: option.splits)

lemma exec_put:
  assumes "mcq_inv q" and "channels q cid = Some r" and "put_loop q cid r m = (x, q')"
  shows "quiet q (accept_event cid m x) q' \<or> accepts q (accept_event cid m x) q'"
proof (cases "over_limit q r m")
  case True
  with assms(3) have "same_data q q'" by (auto simp: put_loop_def same_data_def split: if_splits)
  with same_data_quiet [OF assms(1) this] True assms(3) show ?thesis
    by (auto simp: put_loop_def accept_event_def)
next
  case False
  with assms(2,3) show ?thesis by (auto simp: put_loop_def accept_event_def accepts_def)
qed

lemma exec_get_nowait:
  assumes "mcq_inv q" and "get_nowait q = (x, q')"
  shows "(order q = [] \<and> x = Inl QueueEmpty \<and> q' = q) \<or>
    (\<exists>m. x = Inr m \<and> delivers q (Delivered (hd (order q)) m) q')"
  using assms get_nowait_cons(1) [OF assms(1)]
  by (cases "order q") (auto simp: get_nowait_empty delivers_def)

lemma exec_get_loop:
  assumes inv: "mcq_inv q" and e: "exec_get q (get_loop q) = (ev, q')"
  shows "quiet q ev q' \<or> delivers q ev q'"
proof (cases "order q = []")
  case True
  with e have "ev = Silent" "same_data q q'"
    by (auto simp: exec_get_def get_loop_def same_data_def)
  with same_data_quiet [OF inv] show ?thesis by blast
next
  case False
  obtain x q1 where g: "get_nowait q = (x, q1)" by fastforce
  with exec_get_nowait [OF inv g] False e show ?thesis
    by (auto simp: exec_get_def get_loop_def)
qed

lemma put_cancel_same: "same_data q (put_cancel q cid r f)"
proof -
  let ?q = "q\<lparr>futs := cancel_fut f (futs q),
    heap := (heap q)(r := (heap q r)\<lparr>putters := remove1 f (putters (heap q r))\<rparr>)\<rparr>"
  have "same_data q ?q" by (simp add: same_data_def)
  with same_data_trans [OF this wake_putter_same] show ?thesis by (simp add: put_cancel_def Let_def)
qed

lemma get_cancel_same: "same_data q (get_cancel q f)"
proof -
  let ?q = "q\<lparr>futs := cancel_fut f (futs q), getters := remove1 f (getters q)\<rparr>"
  have "same_data q ?q" by (simp add: same_data_def)
  with same_data_trans [OF this wake_getter_same] show ?thesis by (simp add: get_cancel_def Let_def)
qed

lemma qexec_cases:
  assumes inv: "mcq_inv q" and live: "live_op q op" and e: "qexec q op = (ev, q')"
  shows "quiet q ev q' \<or> accepts q ev q' \<or> delivers q ev q'"
proof (cases op)
  case (QCreate cid)
  with exec_create [OF inv] e show ?thesis by simp
next
  case (QDelete cid)
  with exec_delete [OF inv] e show ?thesis by auto
next
  case (QPutNowait cid m)
  with e inv show ?thesis
    by (auto simp: put_nowait_def done_or_raise_def accepts_def quiet_def split: option.splits if_splits)
next
  case (QPutForce cid m)
  with e inv show ?thesis
    by (auto simp: put_nowait_force_def done_or_raise_def accepts_def quiet_def split: option.splits)
next
  case (QPutStart cid m)
  show ?thesis
  proof (cases "channels q cid")
    case None
    with QPutStart e inv show ?thesis by (simp add: put_start_def quiet_def)
  next
    case (Some r)
    obtain x q1 where l: "put_loop q cid r m = (x, q1)" by fastforce
    with QPutStart Some e have "ev = accept_event cid m x" "q' = q1" by (simp_all add: put_start_def)
    with exec_put [OF inv Some l] show ?thesis by blast
  qed
next
  case (QPutResume cid r m)
  with e live exec_put [OF inv, of cid r m] show ?thesis by (auto simp: put_resume_def split: prod.splits)
next
  case (QPutCancel cid r f)
  with e same_data_quiet [OF inv put_cancel_same] show ?thesis by auto
next
  case QGetNowait
  obtain x q1 where g: "get_nowait q = (x, q1)" by fastforce
  with exec_get_nowait [OF inv g] QGetNowait e inv show ?thesis by (auto simp: quiet_def)
next
  case QGetStart
  with e have "exec_get q (get_loop q) = (ev, q')" by (simp add: get_start_def)
  with exec_get_loop [OF inv] show ?thesis by blast
next
  case QGetResume
  with e have "exec_get q (get_loop q) = (ev, q')" by (simp add: get_resume_def)
  with exec_get_loop [OF inv] show ?thesis by blast
next
  case (QGetCancel f)
  with e same_data_quiet [OF inv get_cancel_same] show ?thesis by auto
qed

lemma accepts_facts:
  assumes "mcq_inv q" and "accepts q ev q'"
  obtains cid m where "ev = Accepted cid m" and "mcq_inv q'" and "order q' = order_add cid (order q)"
    and "contents q' = (\<lambda>x. if x = cid then contents q cid @ [m] else contents q x)"
    and "abs_rr q' = rr_put cid m (abs_rr q)"
  using assms mcq_inv_q_put order_q_put contents_q_put q_put_refines by (auto simp: accepts_def)

lemma delivers_facts:
  assumes "mcq_inv q" and "delivers q ev q'"
  obtains cid os where "order q = cid # os" and "ev = Delivered cid (hd (contents q cid))" and "mcq_inv q'"
    and "contents q cid \<noteq> []"
    and "order q' = (if tl (contents q cid) = [] then os else os @ [cid])"
    and "contents q' = (\<lambda>x. if x = cid then tl (contents q cid) else contents q x)"
    and "abs_rr q' = snd (rr_get (abs_rr q))"
proof -
  from assms(2) obtain cid os where o: "order q = cid # os" "ev = Delivered cid (hd (contents q cid))"
    "q' = snd (get_nowait q)" by (auto simp: delivers_def)
  have "mcq_inv q'" using mcq_inv_get [OF assms(1), of "fst (get_nowait q)" q'] o(3) by simp
  with that [OF o(1,2)] get_nowait_cons [OF assms(1) o(1)] get_refines(1) [OF assms(1)] o(3)
  show ?thesis by simp
qed

section \<open>Executions\<close>

text \<open>Any interleaving of operations, with the events it produced.\<close>

inductive qruns :: "mcq \<Rightarrow> qevent list \<Rightarrow> mcq \<Rightarrow> bool" where
  qruns_nil: "qruns q [] q"
| qruns_step: "qruns q es q1 \<Longrightarrow> live_op q1 op \<Longrightarrow> qexec q1 op = (ev, q2) \<Longrightarrow> qruns q (es @ [ev]) q2"

fun accepted_on :: "channel_id \<Rightarrow> qevent list \<Rightarrow> message option list" where
  "accepted_on c [] = []"
| "accepted_on c (Accepted d m # es) = (if d = c then m # accepted_on c es else accepted_on c es)"
| "accepted_on c (_ # es) = accepted_on c es"

fun delivered_on :: "channel_id \<Rightarrow> qevent list \<Rightarrow> message option list" where
  "delivered_on c [] = []"
| "delivered_on c (Delivered d m # es) = (if d = c then m # delivered_on c es else delivered_on c es)"
| "delivered_on c (_ # es) = delivered_on c es"

fun deliveries :: "qevent list \<Rightarrow> nat" where
  "deliveries [] = 0"
| "deliveries (Delivered d m # es) = Suc (deliveries es)"
| "deliveries (_ # es) = deliveries es"

lemma events_append [simp]:
  "accepted_on c (es @ es') = accepted_on c es @ accepted_on c es'"
  "delivered_on c (es @ es') = delivered_on c es @ delivered_on c es'"
  "deliveries (es @ es') = deliveries es + deliveries es'"
proof -
  show "accepted_on c (es @ es') = accepted_on c es @ accepted_on c es'"
    by (induction c es rule: accepted_on.induct) simp_all
  show "delivered_on c (es @ es') = delivered_on c es @ delivered_on c es'"
    by (induction c es rule: delivered_on.induct) simp_all
  show "deliveries (es @ es') = deliveries es + deliveries es'"
    by (induction es rule: deliveries.induct) simp_all
qed

lemma qruns_inv: "qruns q es q' \<Longrightarrow> mcq_inv q \<Longrightarrow> mcq_inv q'"
proof (induction rule: qruns.induct)
  case (qruns_step q es q1 op ev q2)
  with qexec_cases [of q1 op ev q2] show ?case
    by (metis accepts_facts delivers_facts quiet_def)
qed

lemma qexec_events:
  assumes "mcq_inv q" and "live_op q op" and "qexec q op = (ev, q')"
  shows "delivered_on c [ev] @ contents q' c = contents q c @ accepted_on c [ev]"
  using qexec_cases [OF assms]
proof (elim disjE)
  assume "quiet q ev q'"
  then show ?thesis by (auto simp: quiet_def)
next
  assume "accepts q ev q'"
  then show ?thesis by (rule accepts_facts [OF assms(1)]) simp
next
  assume "delivers q ev q'"
  then show ?thesis by (rule delivers_facts [OF assms(1)]) simp
qed

lemma qruns_fifo:
  assumes "qruns q es q'" and "mcq_inv q"
  shows "delivered_on c es @ contents q' c = contents q c @ accepted_on c es"
  using assms
proof (induction rule: qruns.induct)
  case (qruns_step q es q1 op ev q2)
  note inv = qruns_inv [OF qruns_step.hyps(1) qruns_step.prems]
  show ?case
    using qruns_step.IH [OF qruns_step.prems] qexec_events [OF inv qruns_step.hyps(2,3), of c]
    by (metis append_assoc events_append(1,2))
qed simp


text \<open>Running a list of operations gives such an execution.\<close>

fun exec_ops :: "mcq \<Rightarrow> qop list \<Rightarrow> qevent list \<times> mcq" where
  "exec_ops q [] = ([], q)"
| "exec_ops q (op # ops) =
     (case qexec q op of (ev, q1) \<Rightarrow> (case exec_ops q1 ops of (es, q2) \<Rightarrow> (ev # es, q2)))"

fun live_ops :: "mcq \<Rightarrow> qop list \<Rightarrow> bool" where
  "live_ops q [] = True"
| "live_ops q (op # ops) = (live_op q op \<and> live_ops (snd (qexec q op)) ops)"

lemma qruns_trans:
  assumes "qruns q es q1" and "qruns q1 es' q2"
  shows "qruns q (es @ es') q2"
  using assms(2,1) by (induction rule: qruns.induct) (auto simp flip: append_assoc intro: qruns.intros)

lemma exec_ops_runs: "live_ops q ops \<Longrightarrow> exec_ops q ops = (es, q') \<Longrightarrow> qruns q es q'"
proof (induction q ops arbitrary: es q' rule: exec_ops.induct)
  case (2 q op ops)
  from "2.prems"(2) obtain ev q1 es2 where e: "qexec q op = (ev, q1)" "exec_ops q1 ops = (es2, q')"
    "es = ev # es2" by (auto split: prod.splits)
  have "qruns q ([] @ [ev]) q1" using "2.prems"(1) e(1) by (intro qruns_step [OF qruns_nil]) auto
  moreover have "qruns q1 es2 q'" using "2.IH" [OF e(1) [symmetric]] "2.prems"(1) e by auto
  ultimately show ?case using qruns_trans [of q "[ev]" q1 es2 q'] e(3) by simp
qed (auto intro: qruns_nil)

lemmas queue_eval = done_or_raise_def create_channel_def put_nowait_def put_nowait_force_def put_start_def
  put_resume_def put_loop_def put_cancel_def delete_channel_def get_nowait_def exec_get_def get_start_def
  get_resume_def get_loop_def get_cancel_def cancel_fut_def accept_event_def over_limit_def q_put_def
  wake_getter_def wake_putter_def order_add_def new_mcq_def new_channel_queue_def cq_push_def cq_pop_def
  effective_size_def HEADER_SIZE_def contents_def mcq_full_def Let_def

definition msg_of :: "channel_id \<Rightarrow> nat \<Rightarrow> message option" where
  "msg_of c n = Some (make_message c CHANNEL_FLOW_DATA (replicate n 0) [])"

text \<open>A run with two channels, a suspended and resumed \<open>put\<close>, and a channel closed while it drains.\<close>

definition demo_ops :: "qop list" where
  "demo_ops = [QCreate [1], QCreate [2], QPutNowait [1] (msg_of [1] 10), QPutNowait [1] (msg_of [1] 20),
     QPutStart [1] (msg_of [1] 30), QPutNowait [2] (msg_of [2] 5), QDelete [1], QGetStart,
     QPutResume [1] 0 (msg_of [1] 30), QGetNowait, QGetNowait, QGetNowait, QGetStart]"

lemma demo_run:
  "live_ops (new_mcq 120 40 80) demo_ops"
  "fst (exec_ops (new_mcq 120 40 80) demo_ops) =
     [Silent, Silent, Accepted [1] (msg_of [1] 10), Accepted [1] (msg_of [1] 20), Silent,
      Accepted [2] (msg_of [2] 5), Silent, Delivered [1] (msg_of [1] 10), Accepted [1] (msg_of [1] 30),
      Delivered [2] (msg_of [2] 5), Delivered [1] (msg_of [1] 20), Delivered [1] (msg_of [1] 30), Silent]"
  by (simp_all add: demo_ops_def msg_of_def queue_eval)


text \<open>A waiting channel moves up one place with every message read, whatever else happens.\<close>

lemma qruns_moves_up:
  assumes "qruns q es q'" and "mcq_inv q" and "i < length (order q)" and "deliveries es \<le> i"
  shows "i - deliveries es < length (order q') \<and> order q' ! (i - deliveries es) = order q ! i \<and>
    delivered_on (order q ! i) es = []"
  using assms
proof (induction rule: qruns.induct)
  case (qruns_step q es q1 op ev q2)
  note inv = qruns_inv [OF qruns_step.hyps(1) qruns_step.prems(1)]
  let ?j = "i - deliveries es"
  have IH: "?j < length (order q1)" "order q1 ! ?j = order q ! i" "delivered_on (order q ! i) es = []"
    using qruns_step.IH qruns_step.prems by simp_all
  from qexec_cases [OF inv qruns_step.hyps(2,3)] show ?case
  proof (elim disjE)
    assume "quiet q1 ev q2"
    with IH show ?thesis by (auto simp: quiet_def)
  next
    assume "accepts q1 ev q2"
    then show ?thesis
      by (rule accepts_facts [OF inv]) (use IH in \<open>auto simp: order_add_def nth_append\<close>)
  next
    assume "delivers q1 ev q2"
    then show ?thesis
    proof (rule delivers_facts [OF inv])
      fix cid os
      assume o: "order q1 = cid # os" and ev: "ev = Delivered cid (hd (contents q1 cid))"
        and o2: "order q2 = (if tl (contents q1 cid) = [] then os else os @ [cid])"
      from ev qruns_step.prems(3) have j: "?j = Suc (i - deliveries (es @ [ev]))" by simp
      with IH o have "i - deliveries (es @ [ev]) < length os" "os ! (i - deliveries (es @ [ev])) = order q ! i"
        by simp_all
      moreover from this mcq_invD(3) [OF inv] o have "cid \<noteq> order q ! i" by (metis distinct.simps(2) nth_mem)
      ultimately show ?thesis using o2 IH(3) ev by (auto simp: nth_append)
    qed
  qed
qed simp

text \<open>
  C22: Round robin without starvation: the channel at place \<open>i\<close> of the order is served by the read
  that follows exactly \<open>i\<close> other reads, and that read returns the message which was first in the
  channel, no matter which calls, suspensions, cancellations or deletions happen in between.
\<close>
theorem round_robin_fair:
  assumes "mcq_inv q" and "qruns q es q'" and "i < length (order q)" and "deliveries es = i"
  shows "hd (order q') = order q ! i \<and> fst (get_nowait q') = Inr (hd (contents q (order q ! i)))"
proof -
  let ?c = "order q ! i"
  have up: "order q' \<noteq> []" "hd (order q') = ?c" "delivered_on ?c es = []"
    using qruns_moves_up [OF assms(2,1,3)] assms(4) by (auto simp: hd_conv_nth)
  then obtain os where o: "order q' = ?c # os" by (metis list.collapse)
  have "contents q ?c \<noteq> []"
    using assms(1,3) mcq_invD(4) [OF assms(1), of ?c] by (auto simp: contents_def)
  moreover have "contents q' ?c = contents q ?c @ accepted_on ?c es"
    using qruns_fifo [OF assms(2,1), of ?c] up(3) by simp
  ultimately show ?thesis using up get_nowait_cons(1) [OF qruns_inv [OF assms(2,1)] o] by simp
qed

definition demo_mid :: mcq where "demo_mid = snd (exec_ops (new_mcq 120 40 80) (take 7 demo_ops))"

lemma demo_mid_inv: "mcq_inv demo_mid"
proof -
  have "live_ops (new_mcq 120 40 80) (take 7 demo_ops)" by (simp add: demo_ops_def msg_of_def queue_eval)
  from exec_ops_runs [OF this] have "qruns (new_mcq 120 40 80)
      (fst (exec_ops (new_mcq 120 40 80) (take 7 demo_ops))) demo_mid" by (simp add: demo_mid_def)
  from qruns_inv [OF this] show ?thesis by (simp add: mcq_inv_new)
qed

theorem round_robin_fair_witness:
  "order demo_mid = [[1], [2]] \<and>
   fst (get_nowait (snd (exec_ops demo_mid [QGetStart, QPutResume [1] 0 (msg_of [1] 30)]))) =
     Inr (msg_of [2] 5)"
proof -
  let ?ops = "[QGetStart, QPutResume [1] 0 (msg_of [1] 30)]"
  have o: "order demo_mid = [[1], [2]]" and c: "contents demo_mid [2] = [msg_of [2] 5]"
    and l: "live_ops demo_mid ?ops" and d: "deliveries (fst (exec_ops demo_mid ?ops)) = 1"
    by (simp_all add: demo_mid_def demo_ops_def msg_of_def queue_eval)
  have "qruns demo_mid (fst (exec_ops demo_mid ?ops)) (snd (exec_ops demo_mid ?ops))"
    by (rule exec_ops_runs [OF l]) simp
  from round_robin_fair [OF demo_mid_inv this _ d] show ?thesis by (simp add: o c)
qed

text \<open>
  C40: A \<open>put\<close> that was suspended while its channel was deleted, drained and dropped still completes
  when it is resumed: it puts the message into the dropped object and the channel id into the order,
  and the read that reaches this id raises \<open>KeyError\<close>. The message is lost.
\<close>
theorem resumed_put_after_drop:
  assumes "order q = []" and "channels q cid = None" and "\<not> over_limit q r m"
  shows "fst (put_resume q cid r m) = PutDone \<and>
    fst (get_nowait (snd (put_resume q cid r m))) = Inl KeyError \<and>
    contents (snd (put_resume q cid r m)) cid = []"
proof -
  have p: "put_resume q cid r m = (PutDone, q_put q cid r m)"
    using assms(3) by (simp add: put_resume_def put_loop_def)
  have "order (q_put q cid r m) = [cid]" "channels (q_put q cid r m) cid = None"
    using assms order_q_put [of q cid r m] q_put_same [of q cid r m]
    by (simp_all add: order_add_def same_data_def put_data_def)
  with p show ?thesis by (simp add: get_nowait_def Let_def contents_def)
qed

text \<open>
  The situation arises in three calls: a suspended \<open>put\<close>, the deletion of its channel, and one read.
\<close>

definition drop_ops :: "qop list" where
  "drop_ops = [QCreate [1], QPutNowait [1] (msg_of [1] 60), QPutStart [1] (msg_of [1] 30), QDelete [1], QGetNowait]"

theorem resumed_put_after_drop_witness:
  "let q = snd (exec_ops (new_mcq 120 40 80) drop_ops) in
     futs q 0 = FDone \<and> fst (get_nowait (snd (put_resume q [1] 0 (msg_of [1] 30)))) = Inl KeyError"
proof -
  let ?q = "snd (exec_ops (new_mcq 120 40 80) drop_ops)"
  have "order ?q = []" "channels ?q [1] = None" "\<not> over_limit ?q 0 (msg_of [1] 30)" "futs ?q 0 = FDone"
    by (simp_all add: drop_ops_def msg_of_def queue_eval)
  with resumed_put_after_drop [of ?q "[1]" 0 "msg_of [1] 30"] show ?thesis by (simp add: Let_def)
qed

section \<open>The byte limit\<close>

text \<open>The three parameters of the queue never change.\<close>

definition params :: "mcq \<Rightarrow> int \<times> int \<times> int" where
  "params q = (channel_size_limit q, channel_low_water_mark q, channel_high_water_mark q)"

lemma same_data_params: "same_data q q' \<Longrightarrow> params q' = params q"
  by (simp add: same_data_def params_def)

lemma params_simps [simp]:
  "params (wake_getter q) = params q" "params (wake_putter r q) = params q"
  "params (q_put q cid r m) = params q" "params (put_cancel q cid r f) = params q"
  "params (get_cancel q f) = params q"
  using same_data_params [OF wake_getter_same] same_data_params [OF wake_putter_same]
    same_data_params [OF put_cancel_same] same_data_params [OF get_cancel_same]
    same_data_params [OF q_put_same [of q cid r m]]
  by (simp_all add: put_data_def params_def)

lemma params_get_nowait: "params (snd (get_nowait q)) = params q"
  by (simp add: get_nowait_def Let_def split: list.split option.split) (simp add: params_def)

lemma params_get_loop: "params (snd (exec_get q (get_loop q))) = params q"
  using params_get_nowait [of q]
  by (auto simp: exec_get_def get_loop_def split: prod.split sum.split) (simp_all add: params_def)

lemma params_put_loop: "params (snd (put_loop q cid r m)) = params q"
  by (simp add: put_loop_def) (simp add: params_def)

lemma qexec_params: "params (snd (qexec q op)) = params q"
proof (cases op)
  case QGetNowait
  with params_get_nowait [of q] show ?thesis by (auto split: prod.split sum.split)
next
  case (QPutStart cid m)
  with params_put_loop [of q cid _ m] show ?thesis
    by (simp add: put_start_def case_prod_unfold split: option.split)
next
  case (QPutResume cid r m)
  with params_put_loop [of q cid r m] show ?thesis by (simp add: put_resume_def case_prod_unfold)
qed (auto simp: done_or_raise_def create_channel_def delete_channel_def put_nowait_def
  put_nowait_force_def get_start_def get_resume_def params_get_loop split: option.split sum.split,
  simp_all add: params_def)

lemma qruns_params: "qruns q es q' \<Longrightarrow> params q' = params q"
  by (induction rule: qruns.induct) (metis qexec_params snd_conv)+

lemma size_contents: "mcq_inv q \<Longrightarrow> mcq_size q c = total_size (contents q c)"
  using mcq_invD(6) [of q c] by (auto simp: mcq_size_def contents_def cq_inv_def split: option.split)

lemma accepts_fits:
  assumes "qexec q op = (Accepted c m, q')" and "\<And>d m. op \<noteq> QPutForce d m" and "live_op q op"
  shows "mcq_size q c + effective_size m \<le> channel_size_limit q"
  using assms
  by (cases op) (auto simp: done_or_raise_def put_nowait_def put_start_def put_resume_def put_loop_def
    create_channel_def accept_event_def exec_get_def over_limit_def mcq_size_def
    split: option.splits sum.splits if_splits prod.splits get_outcome.splits)

text \<open>What an operation that delivers, or neither accepts nor delivers, does to the size of a channel.\<close>

lemma size_not_accepted:
  assumes inv: "mcq_inv q" and "quiet q ev q' \<or> delivers q ev q'"
  shows "mcq_size q' c \<le> mcq_size q c"
  using assms(2)
proof
  assume "quiet q ev q'"
  then show ?thesis using size_contents [OF inv, of c] size_contents [of q' c] by (simp add: quiet_def)
next
  assume "delivers q ev q'"
  then show ?thesis
  proof (rule delivers_facts [OF inv])
    fix cid os
    assume "contents q' = (\<lambda>x. if x = cid then tl (contents q cid) else contents q x)"
      and i: "mcq_inv q'" and "contents q cid \<noteq> []"
    then show ?thesis
      using size_contents [OF inv, of c] size_contents [OF i, of c] effective_size_nonneg [of "hd (contents q cid)"]
      by (cases "contents q cid") auto
  qed
qed

lemma size_accepted:
  assumes inv: "mcq_inv q" and "accepts q ev q'"
  obtains cid m where "ev = Accepted cid m" "mcq_size q' c = mcq_size q c + (if c = cid then effective_size m else 0)"
proof (rule accepts_facts [OF inv assms(2)])
  fix cid m
  assume "ev = Accepted cid m" "mcq_inv q'" "contents q' = (\<lambda>x. if x = cid then contents q cid @ [m] else contents q x)"
  then show ?thesis using that [of cid m] size_contents [OF inv, of c] size_contents [of q' c] by simp
qed

text \<open>
  C25: The byte limit of a channel holds through every operation but the forced put, which exceeds it
  by at most the size of the message it adds.
\<close>
theorem channel_limit_kept:
  assumes inv: "mcq_inv q" and live: "live_op q op" and e: "qexec q op = (ev, q')"
    and limit: "mcq_size q c \<le> channel_size_limit q"
  shows "channel_size_limit q' = channel_size_limit q \<and>
    mcq_size q' c \<le> channel_size_limit q +
      (case op of QPutForce d m \<Rightarrow> if d = c then effective_size m else 0 | _ \<Rightarrow> 0)"
proof -
  let ?extra = "case op of QPutForce d m \<Rightarrow> if d = c then effective_size m else 0 | _ \<Rightarrow> 0"
  have pos: "0 \<le> ?extra" using effective_size_nonneg by (simp split: qop.split)
  consider "quiet q ev q' \<or> delivers q ev q'" | "accepts q ev q'" using qexec_cases [OF inv live e] by blast
  then have "mcq_size q' c \<le> channel_size_limit q + ?extra"
  proof cases
    case 1
    from size_not_accepted [OF inv 1, of c] limit pos show ?thesis by linarith
  next
    case 2
    from size_accepted [OF inv 2, of c] obtain cid m where
      a: "ev = Accepted cid m" and s: "mcq_size q' c = mcq_size q c + (if c = cid then effective_size m else 0)" .
    show ?thesis
    proof (cases "\<exists>d n. op = QPutForce d n")
      case True
      with e a have "op = QPutForce cid m" by (auto simp: done_or_raise_def split: sum.splits)
      with s limit show ?thesis by auto
    next
      case False
      with accepts_fits [of q op cid m q'] e a live s limit pos show ?thesis by fastforce
    qed
  qed
  then show ?thesis using qexec_params [of q op] e by (simp add: params_def)
qed

theorem channel_limit_kept_witness:
  "mcq_size (snd (qexec demo_mid (QPutForce [2] (msg_of [2] 200)))) [2] \<le> 120 + 232"
proof -
  have "mcq_size demo_mid [2] \<le> channel_size_limit demo_mid" "channel_size_limit demo_mid = 120"
    by (simp_all add: mcq_size_def demo_mid_def demo_ops_def msg_of_def queue_eval)
  moreover have "live_op demo_mid (QPutForce [2] (msg_of [2] 200))" by simp
  ultimately show ?thesis
    using channel_limit_kept [OF demo_mid_inv, of "QPutForce [2] (msg_of [2] 200)" _ _ "[2]"]
    by (cases "qexec demo_mid (QPutForce [2] (msg_of [2] 200))")
       (simp add: effective_size_def HEADER_SIZE_def msg_of_def)
qed

section \<open>Water marks\<close>

text \<open>Every channel object, registered or dropped, has told its callback the truth.\<close>

definition marks_told :: "mcq \<Rightarrow> bool" where
  "marks_told q \<longleftrightarrow> (\<forall>r. cq.told (heap q r))"

lemma told_new [simp]: "cq.told new_channel_queue"
  by (simp add: cq.told_def new_channel_queue_def)

lemma told_same: "fired c' = fired c \<Longrightarrow> under_water c' = under_water c \<Longrightarrow> cq.told c' = cq.told c"
  by (simp add: cq.told_def)

lemma marks_told_same: "same_data q q' \<Longrightarrow> marks_told q \<Longrightarrow> marks_told q'"
  unfolding marks_told_def same_data_def by (metis told_same)

lemma marks_told_put: "marks_told q \<Longrightarrow> marks_told (q_put q cid r m)"
  by (rule marks_told_same [OF q_put_same]) (auto simp: marks_told_def put_data_def cq.told_push)

lemma marks_told_get: "mcq_inv q \<Longrightarrow> marks_told q \<Longrightarrow> marks_told (snd (get_nowait q))"
proof (cases "order q")
  case (Cons cid os)
  assume inv: "mcq_inv q" and t: "marks_told q"
  from mcq_inv_first [OF inv Cons] obtain r where r: "channels q cid = Some r" "items (heap q r) \<noteq> []" by blast
  have "marks_told (get_data q cid os r)" using t by (auto simp: marks_told_def get_data_def cq.told_pop)
  from marks_told_same [OF wake_putter_same this] show ?thesis using get_nowait_data [OF Cons r] by simp
qed (simp add: get_nowait_def)

lemma marks_told_put_loop: "marks_told q \<Longrightarrow> marks_told (snd (put_loop q cid r m))"
  using marks_told_put marks_told_same [of q "snd (put_loop q cid r m)"]
  by (cases "over_limit q r m") (simp_all add: put_loop_def same_data_def)

lemma marks_told_exec_get: "mcq_inv q \<Longrightarrow> marks_told q \<Longrightarrow> marks_told (snd (exec_get q (get_loop q)))"
  using marks_told_get [of q] marks_told_same [of q "q\<lparr>futs := (futs q)(next_fut q := FPending),
    next_fut := next_fut q + 1, getters := getters q @ [next_fut q]\<rparr>"]
  by (auto simp: exec_get_def get_loop_def same_data_def split: prod.split sum.split)

lemma qexec_told:
  assumes "mcq_inv q" and "marks_told q"
  shows "marks_told (snd (qexec q op))"
proof (cases op)
  case QGetNowait
  with marks_told_get [OF assms] show ?thesis by (auto split: prod.split sum.split)
next
  case (QPutResume cid r m)
  with marks_told_put_loop [OF assms(2), of cid r m] show ?thesis
    by (simp add: put_resume_def case_prod_unfold)
next
  case (QPutStart cid m)
  with marks_told_put_loop [OF assms(2), of cid _ m] assms(2) show ?thesis
    by (simp add: put_start_def case_prod_unfold split: option.split)
next
  case (QPutCancel cid r f)
  with marks_told_same [OF put_cancel_same assms(2)] show ?thesis by simp
next
  case (QGetCancel f)
  with marks_told_same [OF get_cancel_same assms(2)] show ?thesis by simp
next
  case QGetStart
  with marks_told_exec_get [OF assms] show ?thesis by (simp add: get_start_def)
next
  case QGetResume
  with marks_told_exec_get [OF assms] show ?thesis by (simp add: get_resume_def)
next
  case (QCreate cid)
  with assms(2) show ?thesis by (auto simp: done_or_raise_def create_channel_def marks_told_def)
next
  case (QDelete cid)
  with assms(2) show ?thesis
    using told_same [of "(heap q r)\<lparr>pending_close := True\<rparr>" "heap q r" for r]
    by (auto simp: delete_channel_def marks_told_def split: option.split)
qed (use assms(2) marks_told_put in
  \<open>auto simp: done_or_raise_def put_nowait_def put_nowait_force_def split: option.split\<close>)

lemma qruns_told: "qruns q es q' \<Longrightarrow> mcq_inv q \<Longrightarrow> marks_told q \<Longrightarrow> marks_told q'"
proof (induction rule: qruns.induct)
  case (qruns_step q es q1 op ev q2)
  with qexec_told [OF qruns_inv [OF qruns_step.hyps(1)], of op] show ?case by simp
qed

text \<open>Callbacks are only ever added to the record of a channel object.\<close>

definition calls_extend :: "mcq \<Rightarrow> mcq \<Rightarrow> bool" where
  "calls_extend q q' \<longleftrightarrow> next_ref q \<le> next_ref q' \<and>
     (\<forall>r < next_ref q. \<exists>calls. fired (heap q' r) = fired (heap q r) @ calls)"

lemma calls_extend_same: "same_data q q' \<Longrightarrow> calls_extend q q'"
  by (simp add: calls_extend_def same_data_def)

lemma calls_extend_trans: "calls_extend q q1 \<Longrightarrow> same_data q1 q2 \<Longrightarrow> calls_extend q q2"
  by (simp add: calls_extend_def same_data_def)

lemma calls_extend_put: "calls_extend q (q_put q cid r m)"
  by (rule calls_extend_trans [OF _ q_put_same]) (simp add: calls_extend_def put_data_def)

lemma calls_extend_get: "calls_extend q (snd (get_nowait q))"
proof (cases "order q")
  case (Cons cid os)
  show ?thesis
  proof (cases "channels q cid")
    case None
    with Cons show ?thesis by (simp add: get_nowait_def calls_extend_def)
  next
    case (Some r)
    show ?thesis
    proof (cases "items (heap q r) = []")
      case False
      have "calls_extend q (get_data q cid os r)" by (simp add: calls_extend_def get_data_def)
      from calls_extend_trans [OF this wake_putter_same] show ?thesis
        using get_nowait_data [OF Cons Some False] by simp
    qed (use Cons Some in \<open>simp add: get_nowait_def calls_extend_def\<close>)
  qed
qed (simp add: get_nowait_def calls_extend_def)

lemma calls_extend_put_loop: "calls_extend q (snd (put_loop q cid r m))"
  using calls_extend_put calls_extend_same [of q "snd (put_loop q cid r m)"]
  by (cases "over_limit q r m") (simp_all add: put_loop_def same_data_def)

lemma calls_extend_get_loop: "calls_extend q (snd (exec_get q (get_loop q)))"
  using calls_extend_get [of q]
  by (auto simp: exec_get_def get_loop_def calls_extend_def split: prod.split sum.split)

lemma qexec_calls_extend: "calls_extend q (snd (qexec q op))"
proof (cases op)
  case QGetNowait
  with calls_extend_get [of q] show ?thesis by (auto split: prod.split sum.split)
next
  case (QPutStart cid m)
  with calls_extend_put_loop [of q cid _ m] show ?thesis
    by (simp add: put_start_def case_prod_unfold calls_extend_def split: option.split)
next
  case (QPutResume cid r m)
  with calls_extend_put_loop [of q cid r m] show ?thesis by (simp add: put_resume_def case_prod_unfold)
next
  case (QPutCancel cid r f)
  with calls_extend_same [OF put_cancel_same] show ?thesis by simp
next
  case (QGetCancel f)
  with calls_extend_same [OF get_cancel_same] show ?thesis by simp
next
  case (QCreate cid)
  then show ?thesis by (simp add: done_or_raise_def create_channel_def calls_extend_def)
next
  case (QDelete cid)
  then show ?thesis by (simp add: delete_channel_def calls_extend_def split: option.split)
next
  case (QPutNowait cid m)
  then show ?thesis using calls_extend_put
    by (simp add: done_or_raise_def put_nowait_def calls_extend_def split: option.split)
next
  case (QPutForce cid m)
  then show ?thesis using calls_extend_put
    by (simp add: done_or_raise_def put_nowait_force_def calls_extend_def split: option.split)
qed (simp_all add: get_start_def get_resume_def calls_extend_get_loop)

text \<open>A channel that is not being closed stays registered until it is deleted.\<close>

definition open_channel :: "mcq \<Rightarrow> channel_id \<Rightarrow> nat \<Rightarrow> bool" where
  "open_channel q cid r \<longleftrightarrow> channels q cid = Some r \<and> \<not> pending_close (heap q r)"

lemma open_same: "same_data q q' \<Longrightarrow> open_channel q' cid r = open_channel q cid r"
  by (simp add: same_data_def open_channel_def)

lemma open_q_put: "open_channel (q_put q c r' m) cid r = open_channel q cid r"
  by (subst open_same [OF q_put_same]) (auto simp: put_data_def open_channel_def)

lemma open_get:
  assumes "mcq_inv q" and "open_channel q cid r"
  shows "open_channel (snd (get_nowait q)) cid r"
proof (cases "order q")
  case (Cons c os)
  from mcq_inv_first [OF assms(1) Cons] obtain r' where r': "channels q c = Some r'" "items (heap q r') \<noteq> []" by blast
  have "open_channel (get_data q c os r') cid r"
    using assms(2) r' mcq_invD(7) [OF assms(1), of cid r c] by (auto simp: open_channel_def get_data_def)
  then show ?thesis using get_nowait_data [OF Cons r'] open_same [OF wake_putter_same] by simp
qed (use assms(2) in \<open>simp add: get_nowait_def\<close>)

lemma open_put_loop: "open_channel (snd (put_loop q c r' m)) cid r = open_channel q cid r"
  using open_q_put open_same [of q "snd (put_loop q c r' m)"]
  by (cases "over_limit q r' m") (simp_all add: put_loop_def same_data_def)

lemma open_exec_get:
  assumes "mcq_inv q" and "open_channel q cid r"
  shows "open_channel (snd (exec_get q (get_loop q))) cid r"
  using open_get [OF assms] assms(2)
  by (auto simp: exec_get_def get_loop_def open_channel_def split: prod.split sum.split)

lemma qexec_open:
  assumes inv: "mcq_inv q" and "op \<noteq> QDelete cid" and o: "open_channel q cid r"
  shows "open_channel (snd (qexec q op)) cid r"
proof (cases op)
  case QGetNowait
  with open_get [OF inv o] show ?thesis by (auto split: prod.split sum.split)
next
  case (QPutStart c m)
  with open_put_loop [of q c _ m cid r] o show ?thesis
    by (simp add: put_start_def case_prod_unfold split: option.split)
next
  case (QPutResume c r' m)
  with open_put_loop [of q c r' m cid r] o show ?thesis by (simp add: put_resume_def case_prod_unfold)
next
  case (QPutCancel c r' f)
  with o open_same [OF put_cancel_same] show ?thesis by simp
next
  case (QGetCancel f)
  with o open_same [OF get_cancel_same] show ?thesis by simp
next
  case (QCreate c)
  with o mcq_invD(5) [OF inv, of cid r] show ?thesis
    by (auto simp: done_or_raise_def create_channel_def open_channel_def)
next
  case (QDelete c)
  with o assms(2) mcq_invD(7) [OF inv, of cid r c] show ?thesis
    by (auto simp: delete_channel_def open_channel_def split: option.split)
next
  case (QPutNowait c m)
  with o show ?thesis by (simp add: done_or_raise_def put_nowait_def open_q_put split: option.split)
next
  case (QPutForce c m)
  with o show ?thesis by (simp add: done_or_raise_def put_nowait_force_def open_q_put split: option.split)
qed (use open_exec_get [OF inv o] in \<open>simp_all add: get_start_def get_resume_def\<close>)

lemma qexec_inv: "mcq_inv q \<Longrightarrow> live_op q op \<Longrightarrow> mcq_inv (snd (qexec q op))"
  using qruns_inv [OF qruns_step [OF qruns_nil _ prod.collapse [symmetric]]] by blast

text \<open>What the users of the queue may rely on in any operation that deletes no channel.\<close>

definition queue_step :: "mcq \<Rightarrow> mcq \<Rightarrow> bool" where
  "queue_step q q' \<longleftrightarrow> (mcq_inv q \<longrightarrow> mcq_inv q') \<and> (mcq_inv q \<and> marks_told q \<longrightarrow> marks_told q') \<and>
     calls_extend q q' \<and> params q' = params q \<and> (\<forall>cid r. mcq_inv q \<and> open_channel q cid r \<longrightarrow> open_channel q' cid r)"

lemma queue_step_refl [simp]: "queue_step q q"
  by (simp add: queue_step_def calls_extend_def)

lemma queue_step_exec:
  "live_op q op \<Longrightarrow> (\<And>c. op \<noteq> QDelete c) \<Longrightarrow> queue_step q (snd (qexec q op))"
  using qexec_inv qexec_told qexec_calls_extend qexec_open qexec_params by (auto simp: queue_step_def)

lemma queue_step_put_nowait: "put_nowait q cid m = Inr q' \<Longrightarrow> queue_step q q'"
  using queue_step_exec [of q "QPutNowait cid m"] by (simp add: done_or_raise_def)

lemma queue_step_put_force: "put_nowait_force q cid m = Inr q' \<Longrightarrow> queue_step q q'"
  using queue_step_exec [of q "QPutForce cid m"] by (simp add: done_or_raise_def)

lemma queue_step_put_start: "queue_step q (snd (put_start q cid m))"
  using queue_step_exec [of q "QPutStart cid m"] by (auto split: prod.splits sum.splits)

lemma queue_step_put_resume: "channels q cid = Some r \<Longrightarrow> queue_step q (snd (put_resume q cid r m))"
  using queue_step_exec [of q "QPutResume cid r m"] by (auto split: prod.splits)

lemma queue_step_get: "queue_step q (snd (get_start q))"
  using queue_step_exec [of q QGetStart]
  by (auto simp: exec_get_def split: prod.splits sum.splits get_outcome.splits)

lemma queue_step_put_cancel: "queue_step q (put_cancel q cid r f)"
  using queue_step_exec [of q "QPutCancel cid r f"] by simp

lemma queue_step_create: "create_channel q cid = Inr q' \<Longrightarrow> queue_step q q'"
  using queue_step_exec [of q "QCreate cid"] by (simp add: done_or_raise_def)

text \<open>
  Backpressure callbacks: in every execution of a queue from its creation, the callbacks made for a
  channel alternate between \<open>True\<close> and \<open>False\<close>, starting with \<open>True\<close>, and the last one says whether the
  channel is under water: always when it holds at least the high mark in bytes, never when it holds at
  most the low mark.
\<close>
theorem water_mark_callbacks:
  assumes "low < high" and "0 < high" and "qruns (new_mcq limit low high) es q" and "channels q cid = Some r"
  shows "let calls = fired (heap q r); told = calls \<noteq> [] \<and> last calls in
    alternates False calls \<and> (high \<le> mcq_size q cid \<longrightarrow> told) \<and> (mcq_size q cid \<le> low \<longrightarrow> \<not> told)"
proof -
  let ?q0 = "new_mcq limit low high"
  have inv0: "mcq_inv ?q0" using assms(1,2) by (rule mcq_inv_new)
  have "marks_told ?q0" by (simp add: marks_told_def new_mcq_def)
  from qruns_told [OF assms(3) inv0 this] have t: "cq.told (heap q r)" by (simp add: marks_told_def)
  note I = qruns_inv [OF assms(3) inv0]
  have "channel_low_water_mark q = low \<and> channel_high_water_mark q = high"
    using qruns_params [OF assms(3)] by (simp add: params_def new_mcq_def)
  with mcq_invD(6) [OF I assms(4)] t assms(4) show ?thesis
    by (auto simp: cq.told_def cq_inv_def mcq_size_def Let_def split: if_splits)
qed

theorem water_mark_callbacks_witness:
  "mcq_size demo_mid [1] = 94 \<and> fired (heap demo_mid 0) = [True] \<and>
   alternates False (fired (heap demo_mid 0)) \<and> last (fired (heap demo_mid 0))"
proof -
  have s: "mcq_size demo_mid [1] = 94" and f: "fired (heap demo_mid 0) = [True]"
    and c: "channels demo_mid [1] = Some 0" and "live_ops (new_mcq 120 40 80) (take 7 demo_ops)"
    by (simp_all add: mcq_size_def demo_mid_def demo_ops_def msg_of_def queue_eval)
  from exec_ops_runs [OF this(4)] have "qruns (new_mcq 120 40 80)
      (fst (exec_ops (new_mcq 120 40 80) (take 7 demo_ops))) demo_mid" by (simp add: demo_mid_def)
  from water_mark_callbacks [OF _ _ this c] show ?thesis by (simp add: s f Let_def)
qed

end
