(* ===== verification/Timeout.thy ===== *)
theory Timeout
  imports MultiQueue
begin

text \<open>
  The asyncio helpers of \<^verbatim>\<open>snitun/utils/asyncio.py\<close>: the low-resolution idle timeout, and the future
  that waits for a task. Times are integers of one unit of the loop's monotonic clock.
\<close>

section \<open>RangedTimeout\<close>

text \<open>\<open>rwhen\<close> is \<open>_when\<close>, \<open>rtimer\<close> the time at which the armed timer fires (\<open>None\<close>: no timer).\<close>

record ranged_timeout =
  min_timeout :: int
  max_timeout :: int
  rwhen :: "int option"
  rtimer :: "int option"

definition cancel_timeout :: "ranged_timeout \<Rightarrow> ranged_timeout" where
  "cancel_timeout t = (if rtimer t \<noteq> None then t\<lparr>rtimer := None\<rparr> else t)"

text \<open>\<^verbatim>\<open>self._when - now if self._when else 0\<close>: a time of zero counts as not set.\<close>

definition remaining :: "int \<Rightarrow> ranged_timeout \<Rightarrow> int" where
  "remaining now t = (case rwhen t of Some w \<Rightarrow> (if w \<noteq> 0 then w - now else 0) | None \<Rightarrow> 0)"

definition reschedule :: "int \<Rightarrow> ranged_timeout \<Rightarrow> ranged_timeout" where
  "reschedule now t =
     (if min_timeout t < remaining now t then t
      else (cancel_timeout (t\<lparr>rwhen := Some (now + max_timeout t)\<rparr>))\<lparr>rtimer := Some (now + max_timeout t)\<rparr>)"

definition new_ranged_timeout :: "int \<Rightarrow> int \<Rightarrow> int \<Rightarrow> ranged_timeout" where
  "new_ranged_timeout now mn mx = reschedule now \<lparr>min_timeout = mn, max_timeout = mx, rwhen = None, rtimer = None\<rparr>"

text \<open>Activity at the given times.\<close>

fun activity :: "int list \<Rightarrow> ranged_timeout \<Rightarrow> ranged_timeout" where
  "activity [] t = t"
| "activity (now # ts) t = activity ts (reschedule now t)"

lemma reschedule_fields [simp]:
  "min_timeout (reschedule now t) = min_timeout t" "max_timeout (reschedule now t) = max_timeout t"
  by (simp_all add: reschedule_def cancel_timeout_def)

text \<open>An armed timeout after activity at \<open>seen\<close>.\<close>

definition armed :: "int \<Rightarrow> ranged_timeout \<Rightarrow> bool" where
  "armed seen t \<longleftrightarrow> rtimer t = rwhen t \<and>
     (case rwhen t of Some w \<Rightarrow> w \<noteq> 0 \<and> seen + min_timeout t < w \<and> w \<le> seen + max_timeout t | None \<Rightarrow> False)"

lemma armed_new: "0 < now \<Longrightarrow> 0 \<le> mn \<Longrightarrow> mn < mx \<Longrightarrow> armed now (new_ranged_timeout now mn mx)"
  by (simp add: armed_def new_ranged_timeout_def reschedule_def remaining_def cancel_timeout_def)

lemma armed_reschedule:
  assumes "armed seen t" and "seen \<le> now" and "0 < now" and "0 \<le> min_timeout t" and "min_timeout t < max_timeout t"
  shows "armed now (reschedule now t)"
  using assms by (auto simp: armed_def reschedule_def remaining_def cancel_timeout_def split: option.splits)

text \<open>
  C36: The idle timeout fires between the minimum and the maximum after the last activity: whatever activity
  was reported in the meantime, the timer is armed, for a time later than the last activity plus the
  minimum and no later than the last activity plus the maximum.
\<close>
theorem timeout_in_range:
  assumes "0 < start" and "0 \<le> mn" and "mn < mx" and "sorted (start # ts)"
  shows "\<exists>w. rtimer (activity ts (new_ranged_timeout start mn mx)) = Some w \<and>
    last (start # ts) + mn < w \<and> w \<le> last (start # ts) + mx"
proof -
  have "armed (last (l # ts)) (activity ts t) \<and> min_timeout (activity ts t) = min_timeout t \<and>
      max_timeout (activity ts t) = max_timeout t"
    if "armed l t" "sorted (l # ts)" "0 < l" "0 \<le> min_timeout t" "min_timeout t < max_timeout t" for l t
    using that
  proof (induction ts arbitrary: l t)
    case (Cons now ts)
    then have "armed now (reschedule now t)" by (auto intro: armed_reschedule)
    from Cons.IH [OF this] Cons.prems show ?case by auto
  qed simp
  from this [OF armed_new [OF assms(1-3)] assms(4,1)] assms(2,3) show ?thesis
    by (auto simp: armed_def new_ranged_timeout_def split: option.splits)
qed

theorem timeout_in_range_witness:
  "\<exists>w. rtimer (activity [130, 200] (new_ranged_timeout 100 90 120)) = Some w \<and> 200 + 90 < w \<and> w \<le> 200 + (120 :: int)"
  using timeout_in_range [of 100 90 120 "[130, 200]"] by simp

section \<open>Waiting for a task\<close>

text \<open>
  \<open>make_task_waiter_future\<close>: the future is resolved at once when the task is done, and otherwise by the
  callback the task runs when it ends. Cancelling the waiter leaves the task alone.
\<close>

definition resolve_future :: "fut \<Rightarrow> fut" where
  "resolve_future f = (if f = FPending then FDone else f)"

definition make_task_waiter_future :: "bool \<Rightarrow> fut" where
  "make_task_waiter_future task_done = (if task_done then resolve_future FPending else FPending)"

lemma waiter_resolves: "resolve_future (make_task_waiter_future task_done) = FDone"
  by (simp add: resolve_future_def make_task_waiter_future_def)

end
