(* ===== verification/Text.thy ===== *)
theory Text
  imports Prelude
begin

text \<open>
  The text routines of Python's standard library that the sources call: UTF-8 and ASCII decoding,
  \<^verbatim>\<open>bytes.find\<close>, \<^verbatim>\<open>split\<close>, \<^verbatim>\<open>partition\<close>, decimal and hexadecimal integers. A string is the
  list of its code points.
\<close>

section \<open>UTF-8 and ASCII\<close>

text \<open>A Unicode scalar value: a code point that is not a surrogate.\<close>

definition scalar :: "nat \<Rightarrow> bool" where
  "scalar c \<longleftrightarrow> c < 0x110000 \<and> \<not> (0xD800 \<le> c \<and> c \<le> 0xDFFF)"

definition cont :: "nat \<Rightarrow> bool" where
  "cont b \<longleftrightarrow> 0x80 \<le> b \<and> b \<le> 0xBF"

text \<open>
  Strict decoding, on byte values: the well-formed sequences of the Unicode standard (no overlong
  form, no surrogate, nothing above \<open>0x10FFFF\<close>); anything else is a \<open>UnicodeDecodeError\<close>
  (\<open>None\<close> here).
\<close>

fun utf8_vals :: "nat list \<Rightarrow> pystr option" where
  "utf8_vals [] = Some []"
| "utf8_vals (a # r) =
     (if a < 0x80 then map_option (Cons a) (utf8_vals r)
      else if a < 0xC2 then None
      else if a < 0xE0 then
        (case r of
           b # r' \<Rightarrow> (if cont b then map_option (Cons ((a - 0xC0) * 64 + (b - 0x80))) (utf8_vals r')
                     else None)
         | _ \<Rightarrow> None)
      else if a < 0xF0 then
        (case r of
           b # c # r' \<Rightarrow>
             (if cont b \<and> cont c \<and> (a = 0xE0 \<longrightarrow> 0xA0 \<le> b) \<and> (a = 0xED \<longrightarrow> b < 0xA0)
              then map_option (Cons ((a - 0xE0) * 4096 + (b - 0x80) * 64 + (c - 0x80)))
                     (utf8_vals r')
              else None)
         | _ \<Rightarrow> None)
      else if a < 0xF5 then
        (case r of
           b # c # d # r' \<Rightarrow>
             (if cont b \<and> cont c \<and> cont d \<and> (a = 0xF0 \<longrightarrow> 0x90 \<le> b) \<and> (a = 0xF4 \<longrightarrow> b < 0x90)
              then map_option (Cons ((a - 0xF0) * 262144 + (b - 0x80) * 4096
                                     + (c - 0x80) * 64 + (d - 0x80))) (utf8_vals r')
              else None)
         | _ \<Rightarrow> None)
      else None)"

definition decode_utf8 :: "bytes \<Rightarrow> pystr res" where
  "decode_utf8 bs = (case utf8_vals (map unat bs) of None \<Rightarrow> Inl UnicodeDecodeError | Some s \<Rightarrow> Inr s)"

definition utf8_char :: "nat \<Rightarrow> nat list" where
  "utf8_char c =
     (if c < 0x80 then [c]
      else if c < 0x800 then [0xC0 + c div 64, 0x80 + c mod 64]
      else if c < 0x10000 then [0xE0 + c div 4096, 0x80 + c div 64 mod 64, 0x80 + c mod 64]
      else [0xF0 + c div 262144, 0x80 + c div 4096 mod 64, 0x80 + c div 64 mod 64, 0x80 + c mod 64])"

definition encode_utf8 :: "pystr \<Rightarrow> bytes" where
  "encode_utf8 s = map word_of_nat (concat (map utf8_char s))"

lemma div_split2: "(c :: nat) = c div 4096 * 4096 + c div 64 mod 64 * 64 + c mod 64"
proof -
  have "c = c div 64 * 64 + c mod 64" by (rule div_mult_mod_eq [symmetric])
  moreover have "c div 64 = c div 4096 * 64 + c div 64 mod 64"
    using div_mult_mod_eq [of "c div 64" 64] by (simp add: div_mult2_eq [symmetric])
  ultimately show ?thesis by linarith
qed

lemma div_split3:
  "(c :: nat) = c div 262144 * 262144 + c div 4096 mod 64 * 4096 + c div 64 mod 64 * 64 + c mod 64"
proof -
  have "c div 4096 = c div 262144 * 64 + c div 4096 mod 64"
    using div_mult_mod_eq [of "c div 4096" 64] by (simp add: div_mult2_eq [symmetric])
  with div_split2 [of c] show ?thesis by linarith
qed

lemma utf8_vals_2:
  "2 \<le> q \<Longrightarrow> q < 32 \<Longrightarrow> m < 64 \<Longrightarrow> utf8_vals r = Some s \<Longrightarrow>
   utf8_vals ((0xC0 + q) # (0x80 + m) # r) = Some ((q * 64 + m) # s)"
  by (simp add: cont_def)

lemma utf8_vals_3:
  "q < 16 \<Longrightarrow> m < 64 \<Longrightarrow> n < 64 \<Longrightarrow> (q = 0 \<Longrightarrow> 0x20 \<le> m) \<Longrightarrow> (q = 13 \<Longrightarrow> m < 0x20) \<Longrightarrow>
   utf8_vals r = Some s \<Longrightarrow>
   utf8_vals ((0xE0 + q) # (0x80 + m) # (0x80 + n) # r) = Some ((q * 4096 + m * 64 + n) # s)"
  by (simp add: cont_def)

lemma utf8_vals_4:
  "q < 5 \<Longrightarrow> m < 64 \<Longrightarrow> n < 64 \<Longrightarrow> k < 64 \<Longrightarrow> (q = 0 \<Longrightarrow> 0x10 \<le> m) \<Longrightarrow> (q = 4 \<Longrightarrow> m < 0x10) \<Longrightarrow>
   utf8_vals r = Some s \<Longrightarrow>
   utf8_vals ((0xF0 + q) # (0x80 + m) # (0x80 + n) # (0x80 + k) # r)
     = Some ((q * 262144 + m * 4096 + n * 64 + k) # s)"
  by (simp add: cont_def)

lemma utf8_vals_char:
  assumes "scalar c" and "utf8_vals r = Some s"
  shows "utf8_vals (utf8_char c @ r) = Some (c # s)"
proof -
  have m: "c div 4096 mod 64 < 64" "c div 64 mod 64 < 64" "c mod 64 < 64" by simp_all
  consider (one) "c < 0x80" | (two) "0x80 \<le> c" "c < 0x800"
    | (three) "0x800 \<le> c" "c < 0x10000" | (four) "0x10000 \<le> c" "c < 0x110000"
    using assms(1) by (fastforce simp: scalar_def)
  then show ?thesis
  proof cases
    case one
    with assms(2) show ?thesis by (simp add: utf8_char_def)
  next
    case two
    then have "2 \<le> c div 64" and "c div 64 < 32" by simp_all
    from utf8_vals_2 [OF this m(3) assms(2)] two show ?thesis by (simp add: utf8_char_def)
  next
    case three
    let ?q = "c div 4096" and ?m = "c div 64 mod 64"
    have e0: "?q = 0 \<Longrightarrow> 0x20 \<le> ?m" and ed: "?q = 13 \<Longrightarrow> ?m < 0x20" and q: "?q < 16"
      using three m div_split2 [of c] assms(1) by (auto simp: scalar_def)
    from utf8_vals_3 [OF q m(2,3) e0 ed assms(2)] three div_split2 [of c]
    show ?thesis by (simp add: utf8_char_def)
  next
    case four
    let ?q = "c div 262144" and ?m = "c div 4096 mod 64"
    have f0: "?q = 0 \<Longrightarrow> 0x10 \<le> ?m" and f4: "?q = 4 \<Longrightarrow> ?m < 0x10" and q: "?q < 5"
      using four m div_split3 [of c] by auto
    from utf8_vals_4 [OF q m f0 f4 assms(2)] four div_split3 [of c]
    show ?thesis by (simp add: utf8_char_def)
  qed
qed

lemma utf8_char_bytes: "scalar c \<Longrightarrow> b \<in> set (utf8_char c) \<Longrightarrow> b < 256"
  by (auto simp: utf8_char_def scalar_def split: if_splits)

lemma utf8_vals_concat: "\<forall>c \<in> set s. scalar c \<Longrightarrow> utf8_vals (concat (map utf8_char s)) = Some s"
  by (induction s) (auto intro: utf8_vals_char)

lemma map_unat_word_of_nat: "\<forall>b \<in> set xs. b < 256 \<Longrightarrow> map unat (map (word_of_nat :: nat \<Rightarrow> byte) xs) = xs"
  by (induction xs) auto

lemma decode_encode_utf8: "\<forall>c \<in> set s. scalar c \<Longrightarrow> decode_utf8 (encode_utf8 s) = Inr s"
  using map_unat_word_of_nat [of "concat (map utf8_char s)"] utf8_char_bytes utf8_vals_concat
  by (fastforce simp: decode_utf8_def encode_utf8_def)

text \<open>ASCII decoding refuses every byte above \<open>0x7F\<close>.\<close>

definition decode_ascii :: "bytes \<Rightarrow> pystr res" where
  "decode_ascii bs =
     (if \<forall>b \<in> set bs. unat b < 128 then Inr (map unat bs) else Inl UnicodeDecodeError)"

definition encode_ascii :: "pystr \<Rightarrow> bytes" where
  "encode_ascii s = map word_of_nat s"

lemma decode_encode_ascii: "\<forall>c \<in> set s. c < 128 \<Longrightarrow> decode_ascii (encode_ascii s) = Inr s"
  by (induction s) (auto simp: decode_ascii_def encode_ascii_def split: if_splits)

section \<open>Searching and splitting\<close>

text \<open>\<^verbatim>\<open>data.find(sub)\<close>: the least index at which \<open>sub\<close> occurs, \<open>None\<close> for Python's \<open>-1\<close>.\<close>

fun find_sub :: "'a list \<Rightarrow> 'a list \<Rightarrow> nat option" where
  "find_sub sub [] = (if sub = [] then Some 0 else None)"
| "find_sub sub (x # xs) =
     (if startswith (x # xs) sub then Some 0 else map_option Suc (find_sub sub xs))"

lemma find_sub_Some: "find_sub sub xs = Some i \<Longrightarrow> startswith (drop i xs) sub"
proof (induction xs arbitrary: i)
  case (Cons x xs)
  then show ?case by (cases i) (auto split: if_splits)
qed (auto simp: startswith_def split: if_splits)

lemma startswith_length: "startswith xs p \<Longrightarrow> length p \<le> length xs"
  by (auto simp: startswith_iff)

lemma startswith_append_long: "length p \<le> length xs \<Longrightarrow> startswith (xs @ ys) p = startswith xs p"
  by (simp add: startswith_def)

lemma find_sub_bound: "find_sub sub xs = Some i \<Longrightarrow> i + length sub \<le> length xs"
  by (induction xs arbitrary: i) (auto split: if_splits dest: startswith_length)

lemma find_sub_None: "find_sub sub xs = None \<Longrightarrow> \<not> startswith (drop j xs) sub"
proof (induction xs arbitrary: j)
  case (Cons x xs)
  then show ?case by (cases j) (auto split: if_splits)
qed (auto simp: startswith_def split: if_splits)

text \<open>Appending data never moves an occurrence already found.\<close>

lemma find_sub_extend: "find_sub sub xs = Some i \<Longrightarrow> find_sub sub (xs @ ys) = Some i"
proof (induction xs arbitrary: i)
  case Nil
  then show ?case by (cases ys) (auto simp: startswith_def split: if_splits)
next
  case (Cons x xs)
  show ?case
  proof (cases "startswith (x # xs) sub")
    case True
    with Cons.prems show ?thesis using startswith_extend [OF True, of ys] by simp
  next
    case False
    with Cons.prems obtain j where j: "find_sub sub xs = Some j" and i: "i = Suc j" by auto
    from j have "length sub \<le> length xs" using find_sub_bound by fastforce
    with False have "\<not> startswith ((x # xs) @ ys) sub"
      using startswith_append_long [of sub "x # xs" ys] by simp
    with i j Cons.IH show ?thesis by simp
  qed
qed

text \<open>The first CRLF after text that holds no carriage return is where the text ends.\<close>

lemma find_sub_first:
  assumes "x \<notin> set xs"
  shows "find_sub (x # ys) (xs @ (x # ys) @ zs) = Some (length xs)"
  using assms by (induction xs) (auto simp: startswith_def)

text \<open>\<^verbatim>\<open>data.split(sep)\<close> for a one-element separator: always at least one field.\<close>

fun split_on :: "'a \<Rightarrow> 'a list \<Rightarrow> 'a list list" where
  "split_on c [] = [[]]"
| "split_on c (x # xs) =
     (if x = c then [] # split_on c xs
      else (case split_on c xs of f # fs \<Rightarrow> (x # f) # fs | [] \<Rightarrow> [[x]]))"

lemma split_on_not_Nil [simp]: "split_on c xs \<noteq> []"
  by (induction xs) (auto split: list.splits)

lemma split_on_single: "c \<notin> set xs \<Longrightarrow> split_on c xs = [xs]"
  by (induction xs) auto

lemma split_on_append: "c \<notin> set xs \<Longrightarrow> split_on c (xs @ c # ys) = xs # split_on c ys"
  by (induction xs) auto

text \<open>\<^verbatim>\<open>s.partition(c)\<close>: the text before the first \<open>c\<close> and, if there is one, the text after it.\<close>

fun partition_at :: "'a \<Rightarrow> 'a list \<Rightarrow> 'a list \<times> 'a list option" where
  "partition_at c [] = ([], None)"
| "partition_at c (x # xs) =
     (if x = c then ([], Some xs)
      else (case partition_at c xs of (h, t) \<Rightarrow> (x # h, t)))"

lemma partition_at_none: "c \<notin> set xs \<Longrightarrow> partition_at c xs = (xs, None)"
  by (induction xs) auto

section \<open>Numbers in text\<close>

definition is_digit :: "nat \<Rightarrow> bool" where
  "is_digit c \<longleftrightarrow> 48 \<le> c \<and> c \<le> 57"

text \<open>The value of a hexadecimal digit, in either case.\<close>

definition hex_val :: "nat \<Rightarrow> nat option" where
  "hex_val c =
     (if 48 \<le> c \<and> c \<le> 57 then Some (c - 48)
      else if 97 \<le> c \<and> c \<le> 102 then Some (c - 87)
      else if 65 \<le> c \<and> c \<le> 70 then Some (c - 55)
      else None)"

definition dec_value :: "pystr \<Rightarrow> nat" where
  "dec_value s = foldl (\<lambda>a c. 10 * a + (c - 48)) 0 s"

definition hex_value :: "pystr \<Rightarrow> nat" where
  "hex_value s = foldl (\<lambda>a c. 16 * a + the (hex_val c)) 0 s"

definition hex_char :: "nat \<Rightarrow> nat" where
  "hex_char d = (if d < 10 then 48 + d else 87 + d)"

fun dec_str :: "nat \<Rightarrow> pystr" where
  "dec_str n = (if n < 10 then [48 + n] else dec_str (n div 10) @ [48 + n mod 10])"

fun hex_str :: "nat \<Rightarrow> pystr" where
  "hex_str n = (if n < 16 then [hex_char n] else hex_str (n div 16) @ [hex_char (n mod 16)])"

declare dec_str.simps [simp del] hex_str.simps [simp del]

lemma dec_value_snoc: "dec_value (s @ [c]) = 10 * dec_value s + (c - 48)"
  by (simp add: dec_value_def)

lemma hex_value_snoc: "hex_value (s @ [c]) = 16 * hex_value s + the (hex_val c)"
  by (simp add: hex_value_def)

lemma dec_value_str: "dec_value (dec_str n) = n"
proof (induction n rule: dec_str.induct)
  case (1 n)
  show ?case
  proof (cases "n < 10")
    case True
    then show ?thesis by (simp add: dec_str.simps [of n] dec_value_def)
  next
    case False
    with 1 show ?thesis by (simp add: dec_str.simps [of n] dec_value_snoc)
  qed
qed

lemma dec_str_digits: "c \<in> set (dec_str n) \<Longrightarrow> is_digit c"
proof (induction n rule: dec_str.induct)
  case (1 n)
  then show ?case
    by (cases "n < 10") (auto simp: dec_str.simps [of n] is_digit_def)
qed

lemma dec_str_not_Nil [simp]: "dec_str n \<noteq> []"
  by (simp add: dec_str.simps [of n])

lemma hex_val_char: "d < 16 \<Longrightarrow> hex_val (hex_char d) = Some d"
  by (auto simp: hex_val_def hex_char_def)

section \<open>Hexadecimal bytes\<close>

text \<open>\<^verbatim>\<open>bytes.hex\<close> and \<^verbatim>\<open>bytes.fromhex\<close>; the latter skips ASCII white space between the bytes.\<close>

definition bytes_hex :: "bytes \<Rightarrow> pystr" where
  "bytes_hex d = concat (map (\<lambda>b. [hex_char (unat b div 16), hex_char (unat b mod 16)]) d)"

definition is_space :: "nat \<Rightarrow> bool" where
  "is_space c \<longleftrightarrow> c \<in> {9, 10, 11, 12, 13, 32}"

fun bytes_fromhex :: "pystr \<Rightarrow> bytes res" where
  "bytes_fromhex [] = Inr []"
| "bytes_fromhex [c] = (if is_space c then Inr [] else Inl ValueError)"
| "bytes_fromhex (c # d # cs) =
     (if is_space c then bytes_fromhex (d # cs)
      else case (hex_val c, hex_val d) of
             (Some h, Some l) \<Rightarrow> rbind (bytes_fromhex cs) (\<lambda>bs. Inr (word_of_nat (16 * h + l) # bs))
           | _ \<Rightarrow> Inl ValueError)"

lemma hex_char_not_space: "d < 16 \<Longrightarrow> \<not> is_space (hex_char d)"
  by (auto simp: is_space_def hex_char_def split: if_splits)

lemma fromhex_hex: "bytes_fromhex (bytes_hex d) = Inr d"
proof (induction d)
  case (Cons b d)
  have b: "unat b div 16 < 16" "unat b mod 16 < 16" using byte_bound [of b] by auto
  then show ?case
    using Cons.IH hex_char_not_space [OF b(1)] hex_val_char [OF b(1)] hex_val_char [OF b(2)]
    by (simp add: bytes_hex_def)
qed (simp add: bytes_hex_def)

end
