(* ===== verification/IpAddress.thy ===== *)
theory IpAddress
  imports Text
begin

text \<open>
  IP addresses: \<^verbatim>\<open>snitun/utils/ipaddress.py\<close> and what the sources use of Python's \<open>ipaddress\<close>
  module (addresses from packed bytes and from text, packing, networks). An IPv4 address is a
  \<open>32 word\<close>; an IPv6 address is a \<open>128 word\<close> with an optional scope id.
\<close>

section \<open>Addresses\<close>

datatype ip_address =
    IPv4Address "32 word"
  | IPv6Address "128 word" "pystr option"

definition EMPTY_IP_ADDRESS :: ip_address where
  "EMPTY_IP_ADDRESS = IPv4Address 0"

fun is_v6 :: "ip_address \<Rightarrow> bool" where
  "is_v6 (IPv6Address _ _) = True"
| "is_v6 (IPv4Address _) = False"

fun packed :: "ip_address \<Rightarrow> bytes" where
  "packed (IPv4Address w) = to_bytes_be 4 (unat w)"
| "packed (IPv6Address w _) = to_bytes_be 16 (unat w)"

definition ip_address_to_bytes :: "ip_address \<Rightarrow> bytes" where
  "ip_address_to_bytes a = packed a"

text \<open>\<^verbatim>\<open>ipaddress.ip_address(data)\<close> on bytes: the length decides the family.\<close>

definition ip_address_of_packed :: "bytes \<Rightarrow> ip_address res" where
  "ip_address_of_packed d =
     (if length d = 4 then Inr (IPv4Address (word_of_nat (from_bytes_be d)))
      else if length d = 16 then Inr (IPv6Address (word_of_nat (from_bytes_be d)) None)
      else Inl ValueError)"

definition bytes_to_ip_address :: "bytes \<Rightarrow> ip_address" where
  "bytes_to_ip_address d =
     (case ip_address_of_packed d of Inr a \<Rightarrow> a | Inl _ \<Rightarrow> EMPTY_IP_ADDRESS)"

definition unscoped :: "ip_address \<Rightarrow> bool" where
  "unscoped a \<longleftrightarrow> (case a of IPv6Address _ sc \<Rightarrow> sc = None | IPv4Address _ \<Rightarrow> True)"

fun drop_scope :: "ip_address \<Rightarrow> ip_address" where
  "drop_scope (IPv6Address w _) = IPv6Address w None"
| "drop_scope (IPv4Address w) = IPv4Address w"

lemma length_packed [simp, wire_simps]: "length (packed a) = (if is_v6 a then 16 else 4)"
  by (cases a) auto

lemma unat32_bound: "unat (w :: 32 word) < 256 ^ 4"
  using unsigned_less [where 'a = nat and 'b = 32, of w] by simp

lemma unat128_bound: "unat (w :: 128 word) < 256 ^ 16"
  using unsigned_less [where 'a = nat and 'b = 128, of w] by simp

lemma from_packed:
  "from_bytes_be (packed a) = (case a of IPv4Address w \<Rightarrow> unat w | IPv6Address w _ \<Rightarrow> unat w)"
proof (cases a)
  case (IPv4Address w)
  with unat32_bound [of w] show ?thesis by (simp del: power_numeral numeral_power_eq_of_nat_cancel_iff)
next
  case (IPv6Address w sc)
  with unat128_bound [of w] show ?thesis by (simp del: power_numeral)
qed

text \<open>
  Packing and unpacking an address gives it back, but for the scope id, which the packed form does
  not carry.
\<close>

lemma bytes_to_ip_address_packed: "bytes_to_ip_address (ip_address_to_bytes a) = drop_scope a"
  using from_packed [of a]
  by (cases a) (simp_all add: bytes_to_ip_address_def ip_address_to_bytes_def ip_address_of_packed_def)

lemma drop_scope_unscoped [simp]: "unscoped a \<Longrightarrow> drop_scope a = a"
  by (cases a) (auto simp: unscoped_def)

lemma ip_address_to_bytes_of:
  "ip_address_of_packed d = Inr a \<Longrightarrow> ip_address_to_bytes a = d \<and> unscoped a"
proof -
  assume a: "ip_address_of_packed d = Inr a"
  have "unat (word_of_nat (from_bytes_be d) :: 32 word) = from_bytes_be d" if "length d = 4"
    using from_bytes_be_bound [of d] that by (simp add: unat_of_nat)
  moreover have "unat (word_of_nat (from_bytes_be d) :: 128 word) = from_bytes_be d" if "length d = 16"
    using from_bytes_be_bound [of d] that by (simp add: unat_of_nat)
  ultimately show ?thesis using a
    by (auto simp: ip_address_of_packed_def ip_address_to_bytes_def unscoped_def split: if_splits)
qed

section \<open>Addresses from text\<close>

text \<open>The decimal octet of an IPv4 address: one to three digits, no leading zero, at most 255.\<close>

definition parse_octet :: "pystr \<Rightarrow> nat res" where
  "parse_octet s =
     (if s = [] then Inl ValueError
      else if \<not> list_all is_digit s then Inl ValueError
      else if 3 < length s then Inl ValueError
      else if s \<noteq> [48] \<and> hd s = 48 then Inl ValueError
      else if 255 < dec_value s then Inl ValueError
      else Inr (dec_value s))"

fun parse_octets :: "pystr list \<Rightarrow> nat \<Rightarrow> nat res" where
  "parse_octets [] acc = Inr acc"
| "parse_octets (s # ss) acc = rbind (parse_octet s) (\<lambda>v. parse_octets ss (256 * acc + v))"

definition ipv4_of_text :: "pystr \<Rightarrow> nat res" where
  "ipv4_of_text s =
     (if s = [] then Inl ValueError
      else let octets = split_on 46 s in
        if length octets \<noteq> 4 then Inl ValueError else parse_octets octets 0)"

definition parse_hextet :: "pystr \<Rightarrow> nat res" where
  "parse_hextet s =
     (if \<not> list_all (\<lambda>c. hex_val c \<noteq> None) s then Inl ValueError
      else if 4 < length s then Inl ValueError
      else if s = [] then Inl ValueError
      else Inr (hex_value s))"

fun parse_hextets :: "pystr list \<Rightarrow> nat \<Rightarrow> nat res" where
  "parse_hextets [] acc = Inr acc"
| "parse_hextets (s # ss) acc = rbind (parse_hextet s) (\<lambda>v. parse_hextets ss (65536 * acc + v))"

text \<open>The index of the only empty part strictly inside the list: the place of \<^verbatim>\<open>::\<close>.\<close>

definition skip_indices :: "pystr list \<Rightarrow> nat list" where
  "skip_indices parts = filter (\<lambda>i. parts ! i = []) [1..<length parts - 1]"

text \<open>A dotted quad in the last part stands for two hextets.\<close>

definition expand_v4_tail :: "pystr list \<Rightarrow> pystr list res" where
  "expand_v4_tail parts =
     (if 46 \<in> set (last parts)
      then rbind (ipv4_of_text (last parts))
             (\<lambda>v. Inr (butlast parts @ [hex_str (v div 65536), hex_str (v mod 65536)]))
      else Inr parts)"

definition ipv6_parts :: "pystr list \<Rightarrow> nat res" where
  "ipv6_parts parts =
     (if 9 < length parts then Inl ValueError
      else (case skip_indices parts of
          [] \<Rightarrow>
            (if length parts \<noteq> 8 \<or> hd parts = [] \<or> last parts = [] then Inl ValueError
             else parse_hextets parts 0)
        | [i] \<Rightarrow>
            (let hi = (if hd parts = [] then i - 1 else i);
                 lo = (if last parts = [] then length parts - i - 2 else length parts - i - 1)
             in if hd parts = [] \<and> hi \<noteq> 0 then Inl ValueError
                else if last parts = [] \<and> lo \<noteq> 0 then Inl ValueError
                else if 8 < hi + lo + 1 then Inl ValueError
                else rbind (parse_hextets (take hi parts) 0)
                       (\<lambda>v. parse_hextets (drop (length parts - lo) parts)
                               (v * 65536 ^ (8 - (hi + lo)))))
        | _ \<Rightarrow> Inl ValueError))"

definition ipv6_of_text :: "pystr \<Rightarrow> nat res" where
  "ipv6_of_text s =
     (if s = [] then Inl ValueError
      else let parts = split_on 58 s in
        if length parts < 3 then Inl ValueError
        else rbind (expand_v4_tail parts) ipv6_parts)"

text \<open>The scope id after the first \<^verbatim>\<open>%\<close> must be present and hold no further \<^verbatim>\<open>%\<close>.\<close>

definition ipv6_address_of_text :: "pystr \<Rightarrow> ip_address res" where
  "ipv6_address_of_text s =
     (if 47 \<in> set s then Inl ValueError
      else (case partition_at 37 s of
          (a, None) \<Rightarrow> rbind (ipv6_of_text a) (\<lambda>v. Inr (IPv6Address (word_of_nat v) None))
        | (a, Some sc) \<Rightarrow>
            (if sc = [] \<or> 37 \<in> set sc then Inl ValueError
             else rbind (ipv6_of_text a) (\<lambda>v. Inr (IPv6Address (word_of_nat v) (Some sc))))))"

definition ipv4_address_of_text :: "pystr \<Rightarrow> ip_address res" where
  "ipv4_address_of_text s =
     (if 47 \<in> set s then Inl ValueError
      else rbind (ipv4_of_text s) (\<lambda>v. Inr (IPv4Address (word_of_nat v))))"

text \<open>\<^verbatim>\<open>ipaddress.ip_address(s)\<close> on text: IPv4 first, then IPv6, else \<open>ValueError\<close>.\<close>

definition ip_address_of_text :: "pystr \<Rightarrow> ip_address res" where
  "ip_address_of_text s =
     (case ipv4_address_of_text s of
        Inr a \<Rightarrow> Inr a
      | Inl _ \<Rightarrow> (case ipv6_address_of_text s of Inr a \<Rightarrow> Inr a | Inl _ \<Rightarrow> Inl ValueError))"

text \<open>The dotted-decimal form \<^verbatim>\<open>str(IPv4Address)\<close> of four octets.\<close>

definition ipv4_str :: "nat \<Rightarrow> pystr" where
  "ipv4_str v = dec_str (v div 16777216 mod 256) @ 46 # dec_str (v div 65536 mod 256) @ 46 #
                dec_str (v div 256 mod 256) @ 46 # dec_str (v mod 256)"

lemma dec_str_len3: "n < 256 \<Longrightarrow> length (dec_str n) \<le> 3"
  by (simp add: dec_str.simps [of n] dec_str.simps [of "n div 10"] dec_str.simps [of "n div 10 div 10"])

lemma dec_str_no_zero: "n \<noteq> 0 \<Longrightarrow> hd (dec_str n) \<noteq> 48"
  by (induction n rule: dec_str.induct) (auto simp: dec_str.simps hd_append)

lemma parse_octet_str: "n < 256 \<Longrightarrow> parse_octet (dec_str n) = Inr n"
proof (cases "n = 0")
  case True
  then show ?thesis by (simp add: parse_octet_def dec_str.simps [of 0] is_digit_def dec_value_def)
next
  case False
  assume "n < 256"
  with False show ?thesis
    using dec_str_len3 [of n] dec_str_no_zero [of n] dec_str_digits [of _ n]
    by (auto simp: parse_octet_def dec_value_str list_all_iff)
qed

lemma dec_str_no_char: "\<not> is_digit c \<Longrightarrow> c \<notin> set (dec_str n)"
  using dec_str_digits by blast

lemma octets_split:
  assumes "(v :: nat) < 256 ^ 4"
  shows "256 * (256 * (256 * (v div 16777216 mod 256) + v div 65536 mod 256) + v div 256 mod 256)
         + v mod 256 = v"
proof -
  have "v = v div 256 * 256 + v mod 256" by simp
  moreover have "v div 256 = v div 65536 * 256 + v div 256 mod 256"
    using div_mult_mod_eq [of "v div 256" 256] by (simp add: div_mult2_eq [symmetric])
  moreover have "v div 65536 = v div 16777216 * 256 + v div 65536 mod 256"
    using div_mult_mod_eq [of "v div 65536" 256] by (simp add: div_mult2_eq [symmetric])
  moreover have "v div 16777216 mod 256 = v div 16777216" using assms by simp
  ultimately have "256 * (256 * (256 * (v div 16777216) + v div 65536 mod 256) + v div 256 mod 256)
         + v mod 256 = v" by algebra
  then show ?thesis by (simp only: \<open>v div 16777216 mod 256 = v div 16777216\<close>)
qed

lemma ipv4_of_text_str: "v < 256 ^ 4 \<Longrightarrow> ipv4_of_text (ipv4_str v) = Inr v"
  using octets_split [of v]
  by (simp add: ipv4_of_text_def ipv4_str_def split_on_append split_on_single dec_str_no_char
      is_digit_def parse_octet_str)

end
