(* ===== verification/Channel.thy ===== *)
theory Channel
  imports MultiQueue IpAddress
begin

text \<open>
  Multiplexer channels: \<^verbatim>\<open>snitun/multiplexer/channel.py\<close>, with the queue sizes of
  \<^verbatim>\<open>snitun/multiplexer/const.py\<close>. A channel owns its input queue and shares the output queue of its
  multiplexer; the operations pass both on. The callback a channel registers with the output queue is
  run by \<open>absorb\<close> on the calls the queue made, the callback of its user is recorded in \<open>calls\<close>.
\<close>

section \<open>Queue sizes\<close>

record config =
  in_max :: int
  in_low :: int
  in_high :: int
  in_max_v0 :: int
  out_max :: int
  out_low :: int
  out_high :: int

text \<open>The values that hold unless the environment overrides them.\<close>

definition default_config :: config where
  "default_config =
     \<lparr>in_max = 1024 * 1024 * 65, in_low = 1024 * 512, in_high = 1024 * 1024 * 2,
      in_max_v0 = 1024 * 1024 * 256,
      out_max = 1024 * 1024 * 12, out_low = 1024 * 512, out_high = 1024 * 1024 * 1\<rparr>"

text \<open>\<^verbatim>\<open>int(os.getenv(name, default))\<close> for each of them; \<open>getenv\<close> gives the integers that are set.\<close>

definition env_or :: "(string \<Rightarrow> int option) \<Rightarrow> string \<Rightarrow> int \<Rightarrow> int" where
  "env_or getenv name d = (case getenv name of None \<Rightarrow> d | Some v \<Rightarrow> v)"

definition load_config :: "(string \<Rightarrow> int option) \<Rightarrow> config" where
  "load_config getenv =
     (let env = (\<lambda>name f. env_or getenv name (f default_config)) in
      \<lparr>in_max = env ''MULTIPLEXER_INCOMING_QUEUE_MAX_BYTES_CHANNEL'' in_max,
       in_low = env ''MULTIPLEXER_INCOMING_QUEUE_LOW_WATERMARK'' in_low,
       in_high = env ''MULTIPLEXER_INCOMING_QUEUE_HIGH_WATERMARK'' in_high,
       in_max_v0 = env ''MULTIPLEXER_INCOMING_QUEUE_MAX_BYTES_CHANNEL_V0'' in_max_v0,
       out_max = env ''MULTIPLEXER_OUTGOING_QUEUE_MAX_BYTES_CHANNEL'' out_max,
       out_low = env ''MULTIPLEXER_OUTGOING_QUEUE_LOW_WATERMARK'' out_low,
       out_high = env ''MULTIPLEXER_OUTGOING_QUEUE_HIGH_WATERMARK'' out_high\<rparr>)"

section \<open>The pause future of a flow-controlled reader\<close>

text \<open>
  \<open>ChannelFlowControlBase\<close>: a reader awaits the pause future while there is one. The awaiting task may
  be cancelled, which cancels the future under it.
\<close>

record flow_control =
  pause_future :: "nat option"
  ffuts :: "nat \<Rightarrow> fut"
  fnext :: nat

definition new_flow_control :: flow_control where
  "new_flow_control = \<lparr>pause_future = None, ffuts = (\<lambda>_. FPending), fnext = 0\<rparr>"

definition holds_reader :: "flow_control \<Rightarrow> bool" where
  "holds_reader s = (case pause_future s of None \<Rightarrow> False | Some f \<Rightarrow> ffuts s f = FPending)"

definition pause_resume_reader_callback :: "bool \<Rightarrow> flow_control \<Rightarrow> flow_control" where
  "pause_resume_reader_callback pause s =
     (if \<not> pause
      then (case pause_future s of
              Some f \<Rightarrow> (if ffuts s f = FPending
                         then s\<lparr>ffuts := (ffuts s)(f := FDone), pause_future := None\<rparr> else s)
            | None \<Rightarrow> s)
      else if pause_future s = None \<or> ffuts s (the (pause_future s)) \<noteq> FPending
      then s\<lparr>pause_future := Some (fnext s), ffuts := (ffuts s)(fnext s := FPending), fnext := fnext s + 1\<rparr>
      else s)"

section \<open>Channels\<close>

text \<open>
  \<open>oref\<close> is the queue object \<open>__init__\<close> created, whose callback is this channel; \<open>has_callback\<close> says
  whether \<open>_pause_resume_reader_callback\<close> is set and \<open>calls\<close> records the calls of it.
\<close>

record channel =
  chid :: channel_id
  oref :: nat
  chan_ip :: ip_address
  peer_version :: nat
  input :: scq
  closing :: bool
  local_output_under_water :: bool
  remote_input_under_water :: bool
  has_callback :: bool
  reader_paused :: bool
  calls :: "bool list"

type_synonym cstate = "mcq \<times> channel"

text \<open>\<open>channel_id or MultiplexerChannelId(os.urandom(16))\<close>.\<close>

definition new_channel ::
  "config \<Rightarrow> mcq \<Rightarrow> ip_address \<Rightarrow> nat \<Rightarrow> bool \<Rightarrow> channel_id option \<Rightarrow> entropy \<Rightarrow> cstate res \<times> entropy" where
  "new_channel cfg q ip v cb i e =
     (let (cid, e') = (case i of Some (b # bs) \<Rightarrow> (b # bs, e) | _ \<Rightarrow> urandom 16 e);
          max = (if v = 0 then in_max_v0 cfg else in_max cfg)
      in (rbind (create_channel q cid) (\<lambda>q'.
            Inr (q', \<lparr>chid = cid, oref = next_ref q, chan_ip = ip, peer_version = v,
                      input = new_scq max (in_low cfg) (in_high cfg), closing = False,
                      local_output_under_water = False, remote_input_under_water = False,
                      has_callback = cb, reader_paused = False, calls = []\<rparr>)), e'))"

definition set_pause_resume_reader_callback :: "channel \<Rightarrow> channel" where
  "set_pause_resume_reader_callback c = c\<lparr>has_callback := True\<rparr>"

definition pause_or_resume_reader :: "channel \<Rightarrow> channel" where
  "pause_or_resume_reader c =
     (if \<not> has_callback c then c
      else let pause = local_output_under_water c \<or> remote_input_under_water c in
           if reader_paused c \<noteq> pause then c\<lparr>calls := calls c @ [pause], reader_paused := pause\<rparr> else c)"

definition on_local_output_under_water :: "bool \<Rightarrow> channel \<Rightarrow> channel" where
  "on_local_output_under_water b c = pause_or_resume_reader (c\<lparr>local_output_under_water := b\<rparr>)"

definition on_remote_input_under_water :: "bool \<Rightarrow> channel \<Rightarrow> channel" where
  "on_remote_input_under_water b c = pause_or_resume_reader (c\<lparr>remote_input_under_water := b\<rparr>)"

text \<open>The calls the output queue made for this channel while it went from \<open>q\<close> to \<open>q'\<close>.\<close>

definition absorb :: "mcq \<Rightarrow> mcq \<Rightarrow> channel \<Rightarrow> channel" where
  "absorb q q' c =
     fold on_local_output_under_water
       (drop (length (fired (heap q (oref c)))) (fired (heap q' (oref c)))) c"

text \<open>The callback of the input queue tells the remote to pause or resume; a full output queue only warns.\<close>

definition on_local_input_under_water :: "bool \<Rightarrow> cstate \<Rightarrow> unit res \<times> cstate" where
  "on_local_input_under_water b s =
     (case s of (q, c) \<Rightarrow>
        if peer_version c < MIN_PROTOCOL_VERSION_FOR_PAUSE_RESUME then (Inr (), (q, c))
        else case put_nowait q (chid c)
               (Some (make_message (chid c) (if b then CHANNEL_FLOW_PAUSE else CHANNEL_FLOW_RESUME) [] [])) of
               Inr q' \<Rightarrow> (Inr (), (q', absorb q q' c))
             | Inl e \<Rightarrow> (if e = QueueFull then (Inr (), (q, c)) else (Inl e, (q, c))))"

text \<open>
  \<open>put_nowait\<close> and \<open>get_nowait\<close> of the input queue, with the callback run where \<open>_put\<close> and \<open>_get\<close> run
  it: after the queue has changed. An exception of the callback leaves the change in place.
\<close>

definition input_put :: "message option \<Rightarrow> cstate \<Rightarrow> unit res \<times> cstate" where
  "input_put m s =
     (case s of (q, c) \<Rightarrow>
        case scq_put_nowait m (input c) of
          Inl e \<Rightarrow> (Inl e, (q, c))
        | Inr i \<Rightarrow> (if sunder i \<noteq> sunder (input c)
                    then on_local_input_under_water True (q, c\<lparr>input := i\<rparr>)
                    else (Inr (), (q, c\<lparr>input := i\<rparr>))))"

definition input_get :: "cstate \<Rightarrow> message option res \<times> cstate" where
  "input_get s =
     (case s of (q, c) \<Rightarrow>
        case scq_get_nowait (input c) of
          Inl e \<Rightarrow> (Inl e, (q, c))
        | Inr (m, i) \<Rightarrow>
            (if sunder i \<noteq> sunder (input c)
             then (case on_local_input_under_water False (q, c\<lparr>input := i\<rparr>) of
                     (Inl e, s') \<Rightarrow> (Inl e, s') | (Inr _, s') \<Rightarrow> (Inr m, s'))
             else (Inr m, (q, c\<lparr>input := i\<rparr>))))"

definition unhealthy :: "channel \<Rightarrow> bool" where "unhealthy c = scq_full (input c)"

definition suppress :: "exn \<Rightarrow> 'a res \<times> 's \<Rightarrow> unit res \<times> 's" where
  "suppress e x = (case x of (Inl e', s) \<Rightarrow> (if catches e e' then (Inr (), s) else (Inl e', s)) | (Inr _, s) \<Rightarrow> (Inr (), s))"

definition chan_close :: "cstate \<Rightarrow> unit res \<times> cstate" where
  "chan_close s = (case s of (q, c) \<Rightarrow> suppress QueueFull (input_put None (q, c\<lparr>closing := True\<rparr>)))"

definition make_message_or_raise :: "channel \<Rightarrow> bytes \<Rightarrow> message res" where
  "make_message_or_raise c d =
     (if d = [] then Inl MultiplexerTransportError
      else if closing c then Inl MultiplexerTransportClose
      else Inr (make_message (chid c) CHANNEL_FLOW_DATA d []))"

definition write_no_wait :: "bytes \<Rightarrow> cstate \<Rightarrow> unit res \<times> cstate" where
  "write_no_wait d s =
     (case s of (q, c) \<Rightarrow>
        case make_message_or_raise c d of
          Inl e \<Rightarrow> (Inl e, (q, c))
        | Inr m \<Rightarrow> (case put_nowait q (chid c) (Some m) of
                       Inr q' \<Rightarrow> (Inr (), (q', absorb q q' c))
                     | Inl e \<Rightarrow> (Inl (if e = QueueFull then MultiplexerTransportError else e), (q, c))))"

text \<open>
  \<open>write\<close> suspends when the output queue is full. \<open>write_resume\<close> continues it when its future is done,
  \<open>write_timeout\<close> when the five seconds are over. The throttling sleep that follows changes nothing.
\<close>

datatype write_outcome = WriteDone | WriteWaits message nat nat

definition after_put :: "cstate \<Rightarrow> message \<Rightarrow> put_outcome res \<times> mcq \<Rightarrow> write_outcome res \<times> cstate" where
  "after_put s m x =
     (case s of (q, c) \<Rightarrow>
        case x of
          (Inl e, q') \<Rightarrow> (Inl e, (q', absorb q q' c))
        | (Inr PutDone, q') \<Rightarrow> (Inr WriteDone, (q', absorb q q' c))
        | (Inr (PutWaits f r), q') \<Rightarrow> (Inr (WriteWaits m f r), (q', absorb q q' c)))"

definition write_start :: "bytes \<Rightarrow> cstate \<Rightarrow> write_outcome res \<times> cstate" where
  "write_start d s =
     (case s of (q, c) \<Rightarrow>
        case make_message_or_raise c d of
          Inl e \<Rightarrow> (Inl e, (q, c))
        | Inr m \<Rightarrow>
            (case put_nowait q (chid c) (Some m) of
               Inr q' \<Rightarrow> (Inr WriteDone, (q', absorb q q' c))
             | Inl e \<Rightarrow> (if e = QueueFull then after_put (q, c) m (put_start q (chid c) (Some m))
                         else (Inl e, (q, c)))))"

definition write_resume :: "message \<Rightarrow> nat \<Rightarrow> cstate \<Rightarrow> write_outcome res \<times> cstate" where
  "write_resume m r s =
     (case s of (q, c) \<Rightarrow> case put_resume q (chid c) r (Some m) of (x, q') \<Rightarrow> after_put (q, c) m (Inr x, q'))"

definition write_timeout :: "nat \<Rightarrow> nat \<Rightarrow> cstate \<Rightarrow> write_outcome res \<times> cstate" where
  "write_timeout f r s =
     (case s of (q, c) \<Rightarrow> (Inl MultiplexerTransportError, (put_cancel q (chid c) r f, c)))"

datatype read_outcome = ReadData bytes | ReadWaits

definition read_chan :: "cstate \<Rightarrow> read_outcome res \<times> cstate" where
  "read_chan s =
     (case s of (q, c) \<Rightarrow>
        if closing c \<and> scq_empty (input c) then (Inl MultiplexerTransportClose, s)
        else if scq_empty (input c) then (Inr ReadWaits, s)
        else case input_get s of
               (Inl e, s') \<Rightarrow> (Inl e, s')
             | (Inr (Some m), s') \<Rightarrow> (Inr (ReadData (mdata m)), s')
             | (Inr None, s') \<Rightarrow> (Inl MultiplexerTransportClose, s'))"

definition init_close :: "channel \<Rightarrow> message" where
  "init_close c = make_message (chid c) CHANNEL_FLOW_CLOSE [] []"

definition AES_BLOCK_SIZE :: nat where "AES_BLOCK_SIZE = 16"

text \<open>Python's \<^verbatim>\<open>-n % k\<close>.\<close>

definition pad_len :: "nat \<Rightarrow> nat \<Rightarrow> nat" where
  "pad_len n k = nat (- int n mod int k)"

definition init_new :: "channel \<Rightarrow> entropy \<Rightarrow> message \<times> entropy" where
  "init_new c e =
     (if peer_version c \<ge> MIN_PROTOCOL_VERSION_FOR_ENCRYPTED_NEW
      then let family = (if is_v6 (chan_ip c) then lit ''6'' else lit ''4'');
               block = family @ ip_address_to_bytes (chan_ip c);
               (pad, e') = urandom (pad_len (length block) AES_BLOCK_SIZE) e
           in (make_message (chid c) CHANNEL_FLOW_NEW (block @ pad) [], e')
      else let ip = (if is_v6 (chan_ip c) then EMPTY_IP_ADDRESS else chan_ip c)
           in (make_message (chid c) CHANNEL_FLOW_NEW [] (lit ''4'' @ ip_address_to_bytes ip), e))"

definition message_transport :: "message \<Rightarrow> cstate \<Rightarrow> unit res \<times> cstate" where
  "message_transport m s =
     (if closing (snd s) then (Inr (), s)
      else suppress QueueFull (input_put (Some m) s))"

section \<open>Backpressure\<close>

text \<open>
  The user of the channel was told the truth: its reader is paused exactly when the output queue or
  the remote input is under water, and it is called only at changes.
\<close>

definition pause_ok :: "channel \<Rightarrow> bool" where
  "pause_ok c \<longleftrightarrow> (has_callback c \<longrightarrow>
     reader_paused c = (local_output_under_water c \<or> remote_input_under_water c) \<and>
     alternates False (calls c) \<and> reader_paused c = (calls c \<noteq> [] \<and> last (calls c)))"

lemma pause_or_resume_ok:
  assumes "has_callback c \<Longrightarrow> alternates False (calls c) \<and> reader_paused c = (calls c \<noteq> [] \<and> last (calls c))"
  shows "pause_ok (pause_or_resume_reader c)"
  using assms by (auto simp: pause_ok_def pause_or_resume_reader_def Let_def alternates_append)

lemma pause_ok_remote [inv_intros]: "pause_ok c \<Longrightarrow> pause_ok (on_remote_input_under_water b c)"
  unfolding on_remote_input_under_water_def by (rule pause_or_resume_ok) (auto simp: pause_ok_def)

lemma pause_ok_output [inv_intros]: "pause_ok c \<Longrightarrow> pause_ok (on_local_output_under_water b c)"
  unfolding on_local_output_under_water_def by (rule pause_or_resume_ok) (auto simp: pause_ok_def)

lemma on_local_output_fields [simp]:
  "chid (on_local_output_under_water b c) = chid c" "oref (on_local_output_under_water b c) = oref c"
  "chan_ip (on_local_output_under_water b c) = chan_ip c"
  "peer_version (on_local_output_under_water b c) = peer_version c"
  "input (on_local_output_under_water b c) = input c" "closing (on_local_output_under_water b c) = closing c"
  "local_output_under_water (on_local_output_under_water b c) = b"
  "remote_input_under_water (on_local_output_under_water b c) = remote_input_under_water c"
  "has_callback (on_local_output_under_water b c) = has_callback c"
  by (simp_all add: on_local_output_under_water_def pause_or_resume_reader_def Let_def)

lemma on_remote_input_fields [simp]:
  "chid (on_remote_input_under_water b c) = chid c" "oref (on_remote_input_under_water b c) = oref c"
  "chan_ip (on_remote_input_under_water b c) = chan_ip c"
  "peer_version (on_remote_input_under_water b c) = peer_version c"
  "input (on_remote_input_under_water b c) = input c" "closing (on_remote_input_under_water b c) = closing c"
  "local_output_under_water (on_remote_input_under_water b c) = local_output_under_water c"
  "remote_input_under_water (on_remote_input_under_water b c) = b"
  "has_callback (on_remote_input_under_water b c) = has_callback c"
  by (simp_all add: on_remote_input_under_water_def pause_or_resume_reader_def Let_def)

lemma fold_output_fields:
  "chid (fold on_local_output_under_water bs c) = chid c" "oref (fold on_local_output_under_water bs c) = oref c"
  "chan_ip (fold on_local_output_under_water bs c) = chan_ip c"
  "peer_version (fold on_local_output_under_water bs c) = peer_version c"
  "input (fold on_local_output_under_water bs c) = input c" "closing (fold on_local_output_under_water bs c) = closing c"
  "remote_input_under_water (fold on_local_output_under_water bs c) = remote_input_under_water c"
  "has_callback (fold on_local_output_under_water bs c) = has_callback c"
  "local_output_under_water (fold on_local_output_under_water bs c) =
     (if bs = [] then local_output_under_water c else last bs)"
  "pause_ok c \<Longrightarrow> pause_ok (fold on_local_output_under_water bs c)"
  by (induction bs arbitrary: c) (simp_all add: pause_ok_output)

lemma absorb_fields [simp]:
  "chid (absorb q q' c) = chid c" "oref (absorb q q' c) = oref c" "chan_ip (absorb q q' c) = chan_ip c"
  "peer_version (absorb q q' c) = peer_version c" "input (absorb q q' c) = input c"
  "closing (absorb q q' c) = closing c" "remote_input_under_water (absorb q q' c) = remote_input_under_water c"
  "has_callback (absorb q q' c) = has_callback c"
  by (simp_all add: absorb_def fold_output_fields)

text \<open>The invariant of a channel beside its output queue.\<close>

definition chan_inv :: "cstate \<Rightarrow> bool" where
  "chan_inv s \<longleftrightarrow>
     (case s of (q, c) \<Rightarrow>
        mcq_inv q \<and> marks_told q \<and> oref c < next_ref q \<and>
        local_output_under_water c = under_water (heap q (oref c)) \<and> pause_ok c)"

lemma chan_inv_queue:
  assumes "chan_inv (q, c)" and "mcq_inv q'" and "marks_told q'" and "calls_extend q q'"
  shows "chan_inv (q', absorb q q' c)"
proof -
  let ?r = "oref c"
  have I: "?r < next_ref q" "local_output_under_water c = under_water (heap q ?r)" "pause_ok c"
    "marks_told q" using assms(1) by (auto simp: chan_inv_def)
  from assms(4) I(1) obtain new where n: "fired (heap q' ?r) = fired (heap q ?r) @ new" "?r < next_ref q'"
    by (auto simp: calls_extend_def)
  have "local_output_under_water (absorb q q' c) = under_water (heap q' ?r)"
    using I(2,4) assms(3) n(1) by (auto simp: absorb_def fold_output_fields marks_told_def cq.told_def)
  then show ?thesis using assms(2,3) I(3) n(2) by (simp add: chan_inv_def absorb_def fold_output_fields)
qed

lemma chan_inv_qexec:
  assumes "chan_inv (q, c)" and "live_op q op"
  shows "chan_inv (snd (qexec q op), absorb q (snd (qexec q op)) c)"
proof -
  have inv: "mcq_inv q" "marks_told q" using assms(1) by (auto simp: chan_inv_def)
  have "mcq_inv (snd (qexec q op))"
    using qruns_inv [OF qruns_step [OF qruns_nil assms(2) prod.collapse [symmetric]]] inv(1) by blast
  then show ?thesis
    using chan_inv_queue [OF assms(1)] qexec_told [OF inv] qexec_calls_extend by blast
qed

lemma chan_inv_put:
  assumes "chan_inv (q, c)" and "put_nowait q cid m = Inr q'"
  shows "chan_inv (q', absorb q q' c)"
  using chan_inv_qexec [OF assms(1), of "QPutNowait cid m"] assms(2) by (simp add: done_or_raise_def)

lemma chan_inv_other_fields:
  "chan_inv (q, c\<lparr>input := i\<rparr>) = chan_inv (q, c)" "chan_inv (q, c\<lparr>closing := b\<rparr>) = chan_inv (q, c)"
  by (simp_all add: chan_inv_def pause_ok_def)

lemma chan_inv_input_callback [inv_intros]: "chan_inv s \<Longrightarrow> chan_inv (snd (on_local_input_under_water b s))"
  by (cases s) (auto simp: on_local_input_under_water_def chan_inv_put split: sum.split)

lemma chan_inv_input_put [inv_intros]: "chan_inv s \<Longrightarrow> chan_inv (snd (input_put m s))"
  by (cases s) (auto simp: input_put_def chan_inv_other_fields chan_inv_input_callback split: sum.split)

lemma snd_input_get:
  "snd (input_get (q, c)) =
     (case scq_get_nowait (input c) of
        Inl e \<Rightarrow> (q, c)
      | Inr (m, i) \<Rightarrow> (if sunder i \<noteq> sunder (input c)
                       then snd (on_local_input_under_water False (q, c\<lparr>input := i\<rparr>)) else (q, c\<lparr>input := i\<rparr>)))"
  by (auto simp: input_get_def split: sum.split prod.split)

lemma chan_inv_input_get [inv_intros]: "chan_inv s \<Longrightarrow> chan_inv (snd (input_get s))"
  by (cases s) (auto simp: snd_input_get chan_inv_other_fields chan_inv_input_callback split: sum.split)

lemma snd_suppress [simp]: "snd (suppress e x) = snd x"
  by (auto simp: suppress_def split: prod.split sum.split)

lemma chan_inv_close [inv_intros]: "chan_inv s \<Longrightarrow> chan_inv (snd (chan_close s))"
  by (cases s) (simp add: chan_close_def chan_inv_input_put chan_inv_other_fields)

lemma chan_inv_transport [inv_intros]: "chan_inv s \<Longrightarrow> chan_inv (snd (message_transport m s))"
  by (simp add: message_transport_def chan_inv_input_put)

lemma chan_inv_write_no_wait [inv_intros]: "chan_inv s \<Longrightarrow> chan_inv (snd (write_no_wait d s))"
  by (cases s) (auto simp: write_no_wait_def chan_inv_put split: sum.split)

lemma snd_after_put: "snd (after_put (q, c) m x) = (snd x, absorb q (snd x) c)"
  by (cases x) (auto simp: after_put_def split: sum.split put_outcome.split)

lemma chan_inv_put_start: "chan_inv (q, c) \<Longrightarrow> put_start q cid m = (x, q') \<Longrightarrow> chan_inv (q', absorb q q' c)"
  using chan_inv_qexec [of q c "QPutStart cid m"] by (cases x) simp_all

lemma chan_inv_write_start [inv_intros]:
  assumes "chan_inv s" shows "chan_inv (snd (write_start d s))"
proof (cases s)
  case (Pair q c)
  with assms have inv: "chan_inv (q, c)" by simp
  show ?thesis
  proof (cases "make_message_or_raise c d")
    case (Inr m)
    obtain x q1 where st: "put_start q (chid c) (Some m) = (x, q1)" by fastforce
    from chan_inv_put [OF inv, of "chid c" "Some m"] chan_inv_put_start [OF inv st] Inr Pair inv st show ?thesis
      by (simp add: write_start_def snd_after_put split: sum.split)
  qed (use Pair inv in \<open>simp add: write_start_def\<close>)
qed

lemma chan_inv_read [inv_intros]: "chan_inv s \<Longrightarrow> chan_inv (snd (read_chan s))"
  using chan_inv_input_get [of s]
  by (auto simp: read_chan_def split: prod.split sum.split option.split)

lemma chan_inv_remote [inv_intros]:
  "chan_inv (q, c) \<Longrightarrow> chan_inv (q, on_remote_input_under_water b c)"
  by (simp add: chan_inv_def pause_ok_remote)

text \<open>
  Any history of a channel: its own operations, and the operations other parts of the program
  make on the shared output queue (the writer that drains it, other channels, suspended writes).
\<close>

datatype chan_op =
    COther qop | CWriteNowait bytes | CWrite bytes | CRead | CClose | CReceive message | CRemote bool

fun chan_exec :: "chan_op \<Rightarrow> cstate \<Rightarrow> cstate" where
  "chan_exec (COther op) (q, c) = (let q' = snd (qexec q op) in (q', absorb q q' c))"
| "chan_exec (CWriteNowait d) s = snd (write_no_wait d s)"
| "chan_exec (CWrite d) s = snd (write_start d s)"
| "chan_exec CRead s = snd (read_chan s)"
| "chan_exec CClose s = snd (chan_close s)"
| "chan_exec (CReceive m) s = snd (message_transport m s)"
| "chan_exec (CRemote b) (q, c) = (q, on_remote_input_under_water b c)"

fun chan_live :: "chan_op \<Rightarrow> cstate \<Rightarrow> bool" where
  "chan_live (COther op) (q, c) = live_op q op"
| "chan_live _ _ = True"

inductive chan_reach :: "cstate \<Rightarrow> cstate \<Rightarrow> bool" for s0 where
  chan_start: "chan_reach s0 s0"
| chan_step: "chan_reach s0 s \<Longrightarrow> chan_live op s \<Longrightarrow> chan_reach s0 (chan_exec op s)"

lemma chan_inv_exec: "chan_inv s \<Longrightarrow> chan_live op s \<Longrightarrow> chan_inv (chan_exec op s)"
  by (cases op; cases s) (simp_all add: chan_inv_qexec inv_intros Let_def)

lemma chan_inv_reach: "chan_reach s0 s \<Longrightarrow> chan_inv s0 \<Longrightarrow> chan_inv s"
  by (induction rule: chan_reach.induct) (simp_all add: chan_inv_exec)

lemma has_callback_input_callback [simp]:
  "has_callback (snd (snd (on_local_input_under_water b s))) = has_callback (snd s)"
  by (cases s) (simp add: on_local_input_under_water_def split: sum.split)

lemma has_callback_input [simp]:
  "has_callback (snd (snd (input_put m s))) = has_callback (snd s)"
  "has_callback (snd (snd (input_get s))) = has_callback (snd s)"
  by (cases s; simp add: input_put_def snd_input_get split: sum.split prod.split)+

lemma has_callback_read: "has_callback (snd (snd (read_chan s))) = has_callback (snd s)"
  using has_callback_input(2) [of s]
  by (auto simp: read_chan_def simp del: has_callback_input split: prod.split sum.split option.split)

lemma has_callback_write: "has_callback (snd (snd (write_start d s))) = has_callback (snd s)"
  by (cases s) (simp add: write_start_def snd_after_put split: sum.split)

lemma has_callback_exec: "has_callback (snd (chan_exec op s)) = has_callback (snd s)"
  by (cases op; cases s)
     (simp_all add: Let_def write_no_wait_def chan_close_def message_transport_def
       has_callback_read has_callback_write split: sum.split)

lemma chan_inv_new:
  assumes "mcq_inv q" and "marks_told q" and "fst (new_channel cfg q ip v cb i e) = Inr (q', c)"
  shows "chan_inv (q', c) \<and> has_callback c = cb"
proof -
  from assms(3) obtain cid where c: "create_channel q cid = Inr q'" and "oref c = next_ref q"
    "has_callback c = cb" "\<not> local_output_under_water c" "\<not> remote_input_under_water c"
    "\<not> reader_paused c" "calls c = []"
    by (auto simp: new_channel_def case_prod_unfold Let_def rbind_eq_Inr)
  with c mcq_inv_create [OF assms(1) c] assms(2) show ?thesis
    by (auto simp: chan_inv_def create_channel_def marks_told_def pause_ok_def new_channel_queue_def
      told_new [unfolded new_channel_queue_def] split: if_splits)
qed

text \<open>
  C23: Backpressure end to end on one side: whatever happens to a channel created with a pause callback
  and to the output queue it shares, the last call of the callback says that the reader is paused if
  and only if the channel's part of the output queue is under water or the peer has sent a pause, and
  calls alternate, so no state change is reported twice or missed.
\<close>
theorem reader_paused_iff_under_water:
  assumes "mcq_inv q0" and "marks_told q0" and "fst (new_channel cfg q0 ip v True i e) = Inr s0"
    and "chan_reach s0 (q, c)"
  shows "alternates False (calls c) \<and>
    (calls c \<noteq> [] \<and> last (calls c)) = (under_water (heap q (oref c)) \<or> remote_input_under_water c)"
proof -
  obtain q1 c1 where s0: "s0 = (q1, c1)" by fastforce
  with chan_inv_new [OF assms(1,2)] assms(3) have "chan_inv s0" "has_callback c1" by auto
  from chan_inv_reach [OF assms(4) this(1)] have "chan_inv (q, c)" .
  moreover have "has_callback (snd s) = has_callback c1" if "chan_reach s0 s" for s
    using that
  proof (induction rule: chan_reach.induct)
    case (chan_step s op)
    then show ?case using has_callback_exec by simp
  qed (simp add: s0)
  from this [OF assms(4)] \<open>has_callback c1\<close> have "has_callback c" by simp
  ultimately show ?thesis by (auto simp: chan_inv_def pause_ok_def)
qed

definition demo_config :: config where
  "demo_config = \<lparr>in_max = 300, in_low = 40, in_high = 80, in_max_v0 = 1000,
     out_max = 120, out_low = 40, out_high = 80\<rparr>"

definition demo_out :: mcq where "demo_out = new_mcq (out_max demo_config) (out_low demo_config) (out_high demo_config)"

definition demo_chan :: cstate where
  "demo_chan = (case fst (new_channel demo_config demo_out EMPTY_IP_ADDRESS 1 True (Some [7]) (\<lambda>_. 0)) of
     Inr s \<Rightarrow> s | Inl _ \<Rightarrow> undefined)"

lemmas channel_eval = new_channel_def demo_out_def demo_config_def make_message_or_raise_def write_no_wait_def
  absorb_def on_local_output_under_water_def pause_or_resume_reader_def new_scq_def
  message_transport_def input_put_def scq_put_nowait_def scq_put_def scq_full_def qsize_def suppress_def
  on_local_input_under_water_def MIN_PROTOCOL_VERSION_FOR_PAUSE_RESUME_def chan_close_def
  scq_get_nowait_def scq_get_def scq_empty_def input_get_def read_chan_def

lemma demo_chan_new: "fst (new_channel demo_config demo_out EMPTY_IP_ADDRESS 1 True (Some [7]) (\<lambda>_. 0)) = Inr demo_chan"
  by (simp add: demo_chan_def channel_eval queue_eval)

theorem reader_paused_iff_under_water_witness:
  "let (q, c) = chan_exec (CWriteNowait (replicate 60 0)) demo_chan in
     calls c = [True] \<and> under_water (heap q (oref c)) \<and> alternates False (calls c)"
proof -
  have "mcq_inv demo_out" "marks_told demo_out"
    by (simp_all add: demo_out_def demo_config_def mcq_inv_new) (simp add: marks_told_def new_mcq_def)
  moreover have "chan_reach demo_chan (chan_exec (CWriteNowait (replicate 60 0)) demo_chan)"
    by (intro chan_step [OF chan_start]) simp
  moreover have "calls (snd (chan_exec (CWriteNowait (replicate 60 0)) demo_chan)) = [True]"
    "remote_input_under_water (snd (chan_exec (CWriteNowait (replicate 60 0)) demo_chan)) = False"
    by (simp_all add: demo_chan_def channel_eval queue_eval)
  ultimately show ?thesis
    using reader_paused_iff_under_water [OF _ _ demo_chan_new,
      of "fst (chan_exec (CWriteNowait (replicate 60 0)) demo_chan)"
         "snd (chan_exec (CWriteNowait (replicate 60 0)) demo_chan)"]
    by (simp add: case_prod_unfold Let_def)
qed

section \<open>Reading until the end\<close>

fun reads :: "nat \<Rightarrow> cstate \<Rightarrow> read_outcome res list \<times> cstate" where
  "reads 0 s = ([], s)"
| "reads (Suc n) s = (case read_chan s of (x, s') \<Rightarrow> (case reads n s' of (xs, s'') \<Rightarrow> (x # xs, s'')))"

text \<open>The callback of the input queue can tell the peer to resume, or need not.\<close>

definition can_resume :: "cstate \<Rightarrow> bool" where
  "can_resume s \<longleftrightarrow> (case s of (q, c) \<Rightarrow>
     peer_version c < MIN_PROTOCOL_VERSION_FOR_PAUSE_RESUME \<or> channels q (chid c) \<noteq> None \<or> \<not> sunder (input c))"

lemma put_nowait_registered:
  "channels q cid \<noteq> None \<Longrightarrow> (\<exists>q'. put_nowait q cid m = Inr q' \<and> channels q' = channels q) \<or> put_nowait q cid m = Inl QueueFull"
proof -
  assume "channels q cid \<noteq> None"
  then obtain r where r: "channels q cid = Some r" by blast
  have "channels (q_put q cid r m) = channels q"
    using q_put_same [of q cid r m] by (simp add: same_data_def put_data_def)
  with r show ?thesis by (simp add: put_nowait_def)
qed

lemma peer_told:
  assumes "peer_version c < MIN_PROTOCOL_VERSION_FOR_PAUSE_RESUME \<or> channels q (chid c) \<noteq> None"
  shows "\<exists>q' c'. on_local_input_under_water b (q, c\<lparr>input := i\<rparr>) = (Inr (), (q', c')) \<and> input c' = i \<and>
    closing c' = closing c \<and> chid c' = chid c \<and> peer_version c' = peer_version c"
proof (cases "peer_version c < MIN_PROTOCOL_VERSION_FOR_PAUSE_RESUME")
  case True
  then show ?thesis by (simp add: on_local_input_under_water_def)
next
  case False
  with assms have "channels q (chid c) \<noteq> None" by simp
  from put_nowait_registered [OF this, of "Some (make_message (chid c)
      (if b then CHANNEL_FLOW_PAUSE else CHANNEL_FLOW_RESUME) [] [])"] show ?thesis
  proof (elim disjE exE conjE)
    fix q'
    assume "put_nowait q (chid c) (Some (make_message (chid c)
      (if b then CHANNEL_FLOW_PAUSE else CHANNEL_FLOW_RESUME) [] [])) = Inr q'"
    with False show ?thesis by (simp add: on_local_input_under_water_def)
  qed (use False in \<open>simp add: on_local_input_under_water_def\<close>)
qed

lemma resume_told:
  assumes "can_resume (q, c)" and "sunder (input c)"
  shows "\<exists>q' c'. on_local_input_under_water b (q, c\<lparr>input := i\<rparr>) = (Inr (), (q', c')) \<and> input c' = i \<and>
    closing c' = closing c \<and> chid c' = chid c \<and> peer_version c' = peer_version c"
  using peer_told [of c q] assms by (auto simp: can_resume_def)

lemma input_get_next:
  assumes "can_resume (q, c)" and "sitems (input c) = m # rest"
  shows "\<exists>q' c'. input_get (q, c) = (Inr m, (q', c')) \<and> sitems (input c') = rest \<and>
    closing c' = closing c \<and> can_resume (q', c')"
proof (cases "sunder (snd (scq_get (input c))) = sunder (input c)")
  case True
  have g: "scq_get_nowait (input c) = Inr (m, snd (scq_get (input c)))"
    using assms(2) by (simp add: scq_get_nowait_def scq_empty_def prod_eq_iff)
  with True assms show ?thesis
    by (auto simp: input_get_def can_resume_def)
next
  case False
  have g: "scq_get_nowait (input c) = Inr (m, snd (scq_get (input c)))"
    using assms(2) by (simp add: scq_get_nowait_def scq_empty_def prod_eq_iff)
  from False have u: "sunder (input c)" "\<not> sunder (snd (scq_get (input c)))" by auto
  from resume_told [OF assms(1) u(1), of False "snd (scq_get (input c))"] obtain q' c' where
    "on_local_input_under_water False (q, c\<lparr>input := snd (scq_get (input c))\<rparr>) = (Inr (), (q', c'))"
    "input c' = snd (scq_get (input c))" "closing c' = closing c" by blast
  with g u assms(2) show ?thesis by (auto simp: input_get_def can_resume_def)
qed


text \<open>A channel that received two messages, was told so to the peer, and was then closed.\<close>

definition demo_msg :: "nat \<Rightarrow> message" where
  "demo_msg n = make_message [7] CHANNEL_FLOW_DATA (replicate n 0) []"

definition demo_closed :: cstate where
  "demo_closed = fold chan_exec [CReceive (demo_msg 60), CReceive (demo_msg 61), COther QGetNowait, CClose] demo_chan"


text \<open>
  C38: When the peer has closed the channel and its entry of the output queue is gone, the read that
  brings the input queue down to its low mark raises \<open>RuntimeError\<close>, and the message it had taken off
  the queue is lost: the channel is closed with data unread although the peer sent it before the close.
\<close>
theorem read_after_peer_close_loses_message:
  assumes "sitems (input c) = Some m # rest" and "sunder (input c)"
    and "stotal (input c) - effective_size (Some m) \<le> slow (input c)"
    and "MIN_PROTOCOL_VERSION_FOR_PAUSE_RESUME \<le> peer_version c" and "channels q (chid c) = None"
  shows "\<exists>c'. read_chan (q, c) = (Inl RuntimeError, (q, c')) \<and> sitems (input c') = rest"
  using assms
  by (auto simp: read_chan_def input_get_def scq_get_nowait_def scq_get_def scq_empty_def Let_def
    on_local_input_under_water_def put_nowait_def)

theorem read_after_peer_close_loses_message_witness:
  "let s = snd (read_chan (chan_exec CClose (chan_exec (COther (QDelete [7]))
        (fold chan_exec [CReceive (demo_msg 60), CReceive (demo_msg 61), COther QGetNowait] demo_chan)))) in
     fst (read_chan s) = Inl RuntimeError \<and> fst (read_chan (snd (read_chan s))) = Inl MultiplexerTransportClose"
proof -
  let ?s = "snd (read_chan (chan_exec CClose (chan_exec (COther (QDelete [7]))
        (fold chan_exec [CReceive (demo_msg 60), CReceive (demo_msg 61), COther QGetNowait] demo_chan))))"
  have "sitems (input (snd ?s)) = Some (demo_msg 61) # [None]" "sunder (input (snd ?s))"
    "stotal (input (snd ?s)) - effective_size (Some (demo_msg 61)) \<le> slow (input (snd ?s))"
    "MIN_PROTOCOL_VERSION_FOR_PAUSE_RESUME \<le> peer_version (snd ?s)" "channels (fst ?s) (chid (snd ?s)) = None"
    by (simp_all add: demo_msg_def demo_chan_def channel_eval queue_eval)
  note lost = read_after_peer_close_loses_message [OF this]
  moreover have "fst (read_chan (snd (read_chan ?s))) = Inl MultiplexerTransportClose"
    by (simp add: demo_msg_def demo_chan_def channel_eval queue_eval)
  ultimately show ?thesis by (auto simp: Let_def simp del: chan_exec.simps fold_simps)
qed

end
