(* ===== verification/Crypto.thy ===== *)
theory Crypto
  imports Prelude
begin

text \<open>
  Transport encryption: \<^verbatim>\<open>snitun/multiplexer/crypto.py\<close>. The AES primitives come from the
  \<open>cryptography\<close> package and are the parameter \<open>aes\<close> of every operation; what the code relies on
  is stated as the predicates \<open>cbc_correct\<close>, \<open>aead_correct\<close> and \<open>aead_rejects\<close>. The three
  transport classes are the constructors of \<open>crypto\<close>, and their mutable fields its arguments.
\<close>

section \<open>The primitives\<close>

text \<open>
  \<open>cbc_enc\<close> and \<open>cbc_dec\<close> are the \<open>update\<close> methods of the CBC encryptor and decryptor: key, stream
  state, data to output and next state. The AEAD operations take key, nonce and data; decryption
  raises \<open>InvalidTag\<close> or \<open>ValueError\<close>. \<open>key_ok\<close> and \<open>iv_ok\<close> are the checks of the constructors.
\<close>

record aes =
  cbc_enc :: "bytes \<Rightarrow> bytes \<Rightarrow> bytes \<Rightarrow> bytes \<times> bytes"
  cbc_dec :: "bytes \<Rightarrow> bytes \<Rightarrow> bytes \<Rightarrow> bytes \<times> bytes"
  gcm_enc :: "bytes \<Rightarrow> bytes \<Rightarrow> bytes \<Rightarrow> bytes"
  gcm_dec :: "bytes \<Rightarrow> bytes \<Rightarrow> bytes \<Rightarrow> bytes res"
  siv_enc :: "bytes \<Rightarrow> bytes \<Rightarrow> bytes \<Rightarrow> bytes"
  siv_dec :: "bytes \<Rightarrow> bytes \<Rightarrow> bytes \<Rightarrow> bytes res"
  siv_available :: bool
  key_ok :: "bytes \<Rightarrow> bool"
  iv_ok :: "bytes \<Rightarrow> bool"

text \<open>A CBC decryptor in the state the encryptor was in recovers whole blocks and follows it.\<close>

definition cbc_correct :: "aes \<Rightarrow> bool" where
  "cbc_correct aes \<longleftrightarrow>
     (\<forall>k s d. 16 dvd length d \<longrightarrow>
        length (fst (cbc_enc aes k s d)) = length d \<and>
        cbc_dec aes k s (fst (cbc_enc aes k s d)) = (d, snd (cbc_enc aes k s d)))"

text \<open>An AEAD unit is 16 bytes longer than its data and opens under its own key and nonce.\<close>

definition aead_correct ::
    "(bytes \<Rightarrow> bytes \<Rightarrow> bytes \<Rightarrow> bytes) \<Rightarrow> (bytes \<Rightarrow> bytes \<Rightarrow> bytes \<Rightarrow> bytes res) \<Rightarrow> bool" where
  "aead_correct enc dec \<longleftrightarrow>
     (\<forall>k n d. length n = 12 \<longrightarrow> length (enc k n d) = length d + 16 \<and> dec k n (enc k n d) = Inr d)"

text \<open>Opening fails with \<open>InvalidTag\<close> or \<open>ValueError\<close> only.\<close>

definition aead_rejects :: "(bytes \<Rightarrow> bytes \<Rightarrow> bytes \<Rightarrow> bytes res) \<Rightarrow> bool" where
  "aead_rejects dec \<longleftrightarrow> (\<forall>k n c e. dec k n c = Inl e \<longrightarrow> e = InvalidTag \<or> e = ValueError)"

definition aes_ok :: "aes \<Rightarrow> bool" where
  "aes_ok aes \<longleftrightarrow> cbc_correct aes \<and> aead_correct (gcm_enc aes) (gcm_dec aes) \<and>
     aead_correct (siv_enc aes) (siv_dec aes) \<and> aead_rejects (gcm_dec aes) \<and> aead_rejects (siv_dec aes)"

section \<open>The transports\<close>

datatype cipher_name = CIPHER_CBC | CIPHER_GCM | CIPHER_GCM_SIV | OtherCipher pystr

definition DEFAULT_CIPHER :: cipher_name where "DEFAULT_CIPHER = CIPHER_CBC"

definition GCM_NONCE_SIZE :: nat where "GCM_NONCE_SIZE = 12"
definition GCM_TAG_SIZE :: nat where "GCM_TAG_SIZE = 16"
definition GCM_PREFIX_SIZE :: nat where "GCM_PREFIX_SIZE = 4"
definition GCM_COUNTER_SIZE :: nat where "GCM_COUNTER_SIZE = GCM_NONCE_SIZE - GCM_PREFIX_SIZE"
definition GCM_MAX_COUNTER :: nat where "GCM_MAX_COUNTER = 2 ^ (GCM_COUNTER_SIZE * 8) - 1"

lemmas gcm_consts = GCM_NONCE_SIZE_def GCM_TAG_SIZE_def GCM_PREFIX_SIZE_def GCM_COUNTER_SIZE_def

text \<open>
  \<open>CBC key encryptor decryptor\<close> with the two stream states, \<open>GCM key prefix counter\<close>, \<open>GCMSIV key\<close>.
\<close>

datatype crypto =
    CBC bytes bytes bytes
  | GCM bytes bytes nat
  | GCMSIV bytes

fun overhead :: "crypto \<Rightarrow> nat" where
  "overhead (CBC _ _ _) = 0"
| "overhead (GCM _ _ _) = GCM_NONCE_SIZE + GCM_TAG_SIZE"
| "overhead (GCMSIV _) = GCM_NONCE_SIZE + GCM_TAG_SIZE"

definition next_nonce_gcm :: "bytes \<Rightarrow> nat \<Rightarrow> (bytes \<times> nat) res" where
  "next_nonce_gcm prefix counter =
     (if GCM_MAX_COUNTER < counter then Inl MultiplexerTransportError
      else rbind (int_to_bytes GCM_COUNTER_SIZE counter) (\<lambda>c. Inr (prefix @ c, counter + 1)))"

fun encrypt :: "aes \<Rightarrow> crypto \<Rightarrow> entropy \<Rightarrow> bytes \<Rightarrow> bytes res \<times> crypto \<times> entropy" where
  "encrypt aes (CBC k es ds) ent data =
     (case cbc_enc aes k es data of (c, es') \<Rightarrow> (Inr c, CBC k es' ds, ent))"
| "encrypt aes (GCM k prefix counter) ent data =
     (case next_nonce_gcm prefix counter of
        Inl e \<Rightarrow> (Inl e, GCM k prefix counter, ent)
      | Inr (nonce, counter') \<Rightarrow>
          (Inr (nonce @ gcm_enc aes k nonce data), GCM k prefix counter', ent))"
| "encrypt aes (GCMSIV k) ent data =
     (case urandom GCM_NONCE_SIZE ent of
        (nonce, ent') \<Rightarrow> (Inr (nonce @ siv_enc aes k nonce data), GCMSIV k, ent'))"

text \<open>\<^verbatim>\<open>except (InvalidTag, ValueError): raise MultiplexerTransportDecrypt\<close>.\<close>

definition aead_open :: "bytes res \<Rightarrow> bytes res" where
  "aead_open m =
     (case m of
        Inr d \<Rightarrow> Inr d
      | Inl e \<Rightarrow> (if catches InvalidTag e \<or> catches ValueError e
                   then Inl MultiplexerTransportDecrypt else Inl e))"

fun decrypt :: "aes \<Rightarrow> crypto \<Rightarrow> bytes \<Rightarrow> bytes res \<times> crypto" where
  "decrypt aes (CBC k es ds) data =
     (case cbc_dec aes k ds data of (d, ds') \<Rightarrow> (Inr d, CBC k es ds'))"
| "decrypt aes (GCM k prefix counter) data =
     (aead_open (gcm_dec aes k (take GCM_NONCE_SIZE data) (drop GCM_NONCE_SIZE data)), GCM k prefix counter)"
| "decrypt aes (GCMSIV k) data =
     (aead_open (siv_dec aes k (take GCM_NONCE_SIZE data) (drop GCM_NONCE_SIZE data)), GCMSIV k)"

definition new_gcm :: "aes \<Rightarrow> bytes \<Rightarrow> bool \<Rightarrow> crypto res" where
  "new_gcm aes key is_initiator =
     (if key_ok aes key
      then Inr (GCM key (to_bytes_be GCM_PREFIX_SIZE (if is_initiator then 0 else 1)) 0)
      else Inl ValueError)"

definition create_crypto_transport ::
    "aes \<Rightarrow> cipher_name \<Rightarrow> bytes \<Rightarrow> bytes \<Rightarrow> bool \<Rightarrow> crypto res" where
  "create_crypto_transport aes cipher key iv is_initiator =
     (if cipher = CIPHER_GCM_SIV then
        (if \<not> siv_available aes then Inl MultiplexerTransportError
         else if key_ok aes key then Inr (GCMSIV key) else Inl ValueError)
      else if cipher = CIPHER_GCM then new_gcm aes key is_initiator
      else if key_ok aes key \<and> iv_ok aes iv then Inr (CBC key iv iv)
      else Inl ValueError)"

section \<open>Units open at the other end\<close>

text \<open>
  \<open>synced s r\<close>: \<open>r\<close> can open what \<open>s\<close> encrypts next. For CBC the receiver's decryptor is in the
  state of the sender's encryptor.
\<close>

fun synced :: "crypto \<Rightarrow> crypto \<Rightarrow> bool" where
  "synced (CBC k es ds) (CBC k' es' ds') \<longleftrightarrow> k = k' \<and> es = ds'"
| "synced (GCM k p c) (GCM k' p' c') \<longleftrightarrow> k = k' \<and> length p = GCM_PREFIX_SIZE"
| "synced (GCMSIV k) (GCMSIV k') \<longleftrightarrow> k = k'"
| "synced _ _ \<longleftrightarrow> False"

definition aligned :: "crypto \<Rightarrow> bytes \<Rightarrow> bool" where
  "aligned c d \<longleftrightarrow> (case c of CBC _ _ _ \<Rightarrow> 16 dvd length d | _ \<Rightarrow> True)"

lemma synced_overhead: "synced s r \<Longrightarrow> overhead s = overhead r"
  by (induction s r rule: synced.induct) auto

lemma synced_aligned: "synced s r \<Longrightarrow> aligned s d = aligned r d"
  by (induction s r rule: synced.induct) (auto simp: aligned_def)

lemma next_nonce_gcm_ok:
  assumes "next_nonce_gcm p c = Inr (n, c')"
  shows "n = p @ to_bytes_be 8 c \<and> c' = c + 1 \<and> c < 256 ^ 8"
  using assms by (auto simp: next_nonce_gcm_def int_to_bytes_def gcm_consts rbind_eq_Inr split: if_splits)

lemma next_nonce_gcm_total: "c < 256 ^ 8 \<Longrightarrow> next_nonce_gcm p c = Inr (p @ to_bytes_be 8 c, c + 1)"
  by (simp add: next_nonce_gcm_def int_to_bytes_def gcm_consts GCM_MAX_COUNTER_def)

lemma next_nonce_gcm_exhausted: "256 ^ 8 \<le> c \<Longrightarrow> next_nonce_gcm p c = Inl MultiplexerTransportError"
  by (simp add: next_nonce_gcm_def gcm_consts GCM_MAX_COUNTER_def)

lemma encrypt_decrypt:
  assumes ok: "aes_ok aes" and "synced s r" and "aligned s d"
    and enc: "encrypt aes s ent d = (Inr f, s', ent')"
  shows "\<exists>r'. decrypt aes r f = (Inr d, r') \<and> synced s' r' \<and> length f = length d + overhead s"
proof (cases s)
  case (CBC k es ds)
  with assms(2) obtain es' where r: "r = CBC k es' es" by (cases r) auto
  from ok CBC assms(3) have "length (fst (cbc_enc aes k es d)) = length d"
      "cbc_dec aes k es (fst (cbc_enc aes k es d)) = (d, snd (cbc_enc aes k es d))"
    by (simp_all add: aes_ok_def cbc_correct_def aligned_def)
  with enc CBC r show ?thesis by (auto split: prod.splits)
next
  case (GCM k p c)
  with assms(2) obtain p' c' where r: "r = GCM k p' c'" and p: "length p = 4"
    by (cases r) (auto simp: gcm_consts)
  from enc GCM obtain n where n: "next_nonce_gcm p c = Inr (n, c + 1)"
    and f: "f = n @ gcm_enc aes k n d" and s': "s' = GCM k p (c + 1)"
    by (auto split: sum.splits prod.splits dest: next_nonce_gcm_ok)
  from next_nonce_gcm_ok [OF n] p have "length n = 12" by simp
  with ok f s' r p GCM show ?thesis
    by (simp add: aes_ok_def aead_correct_def aead_open_def gcm_consts)
next
  case (GCMSIV k)
  with assms(2) have r: "r = GCMSIV k" by (cases r) auto
  from enc GCMSIV ok r show ?thesis
    by (auto simp: aes_ok_def aead_correct_def aead_open_def gcm_consts split: prod.splits
        dest: urandom_length)
qed

text \<open>Encrypting does not disturb the other direction of the same endpoint, nor does decrypting.\<close>

lemma encrypt_keeps_receiving:
  "encrypt aes s ent d = (x, s', ent') \<Longrightarrow> synced t s \<Longrightarrow> synced t s'"
  by (cases s; cases t) (auto split: prod.splits sum.splits)

lemma decrypt_keeps_sending:
  "decrypt aes r f = (x, r') \<Longrightarrow> synced r t \<Longrightarrow> synced r' t"
  by (cases r; cases t) (auto split: prod.splits)

lemma encrypt_overhead: "encrypt aes s ent d = (x, s', ent') \<Longrightarrow> overhead s' = overhead s"
  by (cases s) (auto split: prod.splits sum.splits)

lemma decrypt_overhead: "decrypt aes r f = (x, r') \<Longrightarrow> overhead r' = overhead r"
  by (cases r) (auto split: prod.splits)

lemma encrypt_aligned: "encrypt aes s ent d = (x, s', ent') \<Longrightarrow> aligned s' e = aligned s e"
  by (cases s) (auto simp: aligned_def split: prod.splits sum.splits)

lemma decrypt_raises:
  "aes_ok aes \<Longrightarrow> decrypt aes r f = (Inl e, r') \<Longrightarrow> e = MultiplexerTransportDecrypt"
  by (cases r) (fastforce simp: aes_ok_def aead_rejects_def aead_open_def catches_def
      split: prod.splits sum.splits if_splits)+

section \<open>A concrete instance of the primitives\<close>

text \<open>
  For witnesses: CBC is a running sum (each output byte is the input plus the previous output), and
  the AEAD tag of a unit is its padded nonce.
\<close>

fun sum_enc :: "byte \<Rightarrow> bytes \<Rightarrow> bytes \<times> byte" where
  "sum_enc s [] = ([], s)"
| "sum_enc s (b # bs) = (case sum_enc (s + b) bs of (cs, s') \<Rightarrow> ((s + b) # cs, s'))"

fun sum_dec :: "byte \<Rightarrow> bytes \<Rightarrow> bytes \<times> byte" where
  "sum_dec s [] = ([], s)"
| "sum_dec s (c # cs) = (case sum_dec c cs of (bs, s') \<Rightarrow> ((c - s) # bs, s'))"

definition demo_tag :: "bytes \<Rightarrow> bytes" where
  "demo_tag n = n @ replicate 4 0xAA"

definition demo_open :: "bytes \<Rightarrow> bytes \<Rightarrow> bytes res" where
  "demo_open n c =
     (if 16 \<le> length c \<and> drop (length c - 16) c = demo_tag n then Inr (take (length c - 16) c)
      else Inl InvalidTag)"

definition demo_aes :: aes where
  "demo_aes = \<lparr>
     cbc_enc = (\<lambda>k s d. case sum_enc (if s = [] then 0 else hd s) d of (c, t) \<Rightarrow> (c, [t])),
     cbc_dec = (\<lambda>k s d. case sum_dec (if s = [] then 0 else hd s) d of (c, t) \<Rightarrow> (c, [t])),
     gcm_enc = (\<lambda>k n d. d @ demo_tag n), gcm_dec = (\<lambda>k. demo_open),
     siv_enc = (\<lambda>k n d. d @ demo_tag n), siv_dec = (\<lambda>k. demo_open),
     siv_available = True, key_ok = (\<lambda>k. length k = 32), iv_ok = (\<lambda>v. length v = 16)\<rparr>"

lemma sum_dec_enc: "sum_dec s (fst (sum_enc s d)) = (d, snd (sum_enc s d)) \<and>
    length (fst (sum_enc s d)) = length d"
  by (induction s d rule: sum_enc.induct) (auto split: prod.splits)

lemma demo_aes_ok: "aes_ok demo_aes"
  using sum_dec_enc
  by (auto simp: aes_ok_def cbc_correct_def aead_correct_def aead_rejects_def demo_aes_def
      demo_open_def demo_tag_def split: prod.splits if_splits) (metis fst_conv snd_conv)+

section \<open>Runs of an endpoint\<close>

text \<open>The frames an endpoint emits for a list of units.\<close>

fun encrypt_all :: "aes \<Rightarrow> crypto \<Rightarrow> entropy \<Rightarrow> bytes list \<Rightarrow> bytes list res \<times> crypto \<times> entropy" where
  "encrypt_all aes c ent [] = (Inr [], c, ent)"
| "encrypt_all aes c ent (d # ds) =
     (case encrypt aes c ent d of
        (Inl e, c', ent') \<Rightarrow> (Inl e, c', ent')
      | (Inr f, c', ent') \<Rightarrow>
          (case encrypt_all aes c' ent' ds of
             (Inl e, c'', ent'') \<Rightarrow> (Inl e, c'', ent'')
           | (Inr fs, c'', ent'') \<Rightarrow> (Inr (f # fs), c'', ent'')))"

lemma gcm_frames:
  assumes "encrypt_all aes (GCM k p c) ent ds = (Inr fs, s', ent')" and "length p = 4"
  shows "map (take 12) fs = map (\<lambda>i. p @ to_bytes_be 8 i) [c..<c + length ds] \<and>
         (ds = [] \<or> c + length ds \<le> 256 ^ 8)"
  using assms(1)
proof (induction ds arbitrary: c fs ent)
  case (Cons d ds)
  from Cons.prems obtain n c' f gs where n: "next_nonce_gcm p c = Inr (n, c')"
    and f: "f = n @ gcm_enc aes k n d" and fs: "fs = f # gs"
    and rest: "encrypt_all aes (GCM k p c') ent ds = (Inr gs, s', ent')"
    by (auto split: sum.splits prod.splits)
  note nn = next_nonce_gcm_ok [OF n]
  have "take 12 f = p @ to_bytes_be 8 c" using nn f assms(2) by simp
  moreover from rest nn have "encrypt_all aes (GCM k p (c + 1)) ent ds = (Inr gs, s', ent')" by simp
  ultimately show ?case
    using Cons.IH [of "c + 1" ent gs] fs nn upt_conv_Cons [of c "c + length (d # ds)"] by auto
qed simp

lemma gcm_total:
  "c + length ds \<le> 256 ^ 8 \<Longrightarrow> \<exists>fs. encrypt_all aes (GCM k p c) ent ds = (Inr fs, GCM k p (c + length ds), ent)"
proof (induction ds arbitrary: c)
  case (Cons d ds)
  then have "c < 256 ^ 8" by simp
  with Cons.IH [of "c + 1"] Cons.prems next_nonce_gcm_total [of c p] show ?case by auto
qed simp

lemma nonces_distinct:
  assumes "length p = 4" and "length q = 4" and "p \<noteq> q" and "m \<le> 256 ^ 8" and "n \<le> 256 ^ 8"
  shows "distinct (map (\<lambda>i. p @ to_bytes_be 8 i) [0..<m] @ map (\<lambda>i. q @ to_bytes_be 8 i) [0..<n])"
proof -
  have inj: "inj_on (\<lambda>i. s @ to_bytes_be 8 i) {0..<k}" if "k \<le> 256 ^ 8" for s k
    using that by (auto intro!: inj_onI simp: to_bytes_be_inj simp del: to_bytes_be.simps)
  with assms show ?thesis by (auto simp: distinct_map simp del: to_bytes_be.simps)
qed

section \<open>Properties\<close>

text \<open>
  The two ends of a session agree. When client (initiator) and server (responder) create their
  transports for the same cipher, key and IV, each can open what the other encrypts next, and the
  wire overhead they assume is the same.
\<close>

theorem endpoints_synced:
  assumes "create_crypto_transport aes cipher key iv True = Inr client"
    and "create_crypto_transport aes cipher key iv False = Inr server"
  shows "synced client server \<and> synced server client \<and> overhead client = overhead server"
  using assms
  by (auto simp: create_crypto_transport_def new_gcm_def GCM_PREFIX_SIZE_def split: if_splits)

theorem endpoints_synced_witness:
  "synced (GCM (replicate 32 7) [0, 0, 0, 0] 0) (GCM (replicate 32 7) [0, 0, 0, 1] 0) \<and>
   synced (GCM (replicate 32 7) [0, 0, 0, 1] 0) (GCM (replicate 32 7) [0, 0, 0, 0] 0) \<and>
   overhead (GCM (replicate 32 7) [0, 0, 0, 0] 0) = overhead (GCM (replicate 32 7) [0, 0, 0, 1] 0)"
  by (rule endpoints_synced [where aes = demo_aes and cipher = CIPHER_GCM and key = "replicate 32 7"
        and iv = "[]"])
    (simp_all add: create_crypto_transport_def new_gcm_def demo_aes_def GCM_PREFIX_SIZE_def to_bytes_be_4)

text \<open>
  C20: AES-GCM nonces never repeat in a session. The two endpoints share one key; whatever units each
  of them encrypts, in any number, the nonces (the first 12 bytes of each frame) of all frames of both
  directions are pairwise distinct.
\<close>

theorem gcm_nonces_unique:
  assumes "new_gcm aes key True = Inr client" and "new_gcm aes key False = Inr server"
    and "encrypt_all aes client entc us = (Inr fsc, client', entc')"
    and "encrypt_all aes server ents vs = (Inr fss, server', ents')"
  shows "distinct (map (take 12) fsc @ map (take 12) fss)"
proof -
  let ?p = "to_bytes_be 4 0" and ?q = "to_bytes_be 4 1"
  from assms(1,2) have c: "client = GCM key ?p 0" and s: "server = GCM key ?q 0"
    by (auto simp: new_gcm_def GCM_PREFIX_SIZE_def split: if_splits)
  have f1: "map (take 12) fsc = map (\<lambda>i. ?p @ to_bytes_be 8 i) [0..<length us]" "length us \<le> 256 ^ 8"
    using gcm_frames [OF assms(3) [unfolded c]] assms(3) by (auto simp del: to_bytes_be.simps)
  have f2: "map (take 12) fss = map (\<lambda>i. ?q @ to_bytes_be 8 i) [0..<length vs]" "length vs \<le> 256 ^ 8"
    using gcm_frames [OF assms(4) [unfolded s]] assms(4) by (auto simp del: to_bytes_be.simps)
  have "?p \<noteq> ?q" using to_bytes_be_inj [of 0 4 1] by simp
  with nonces_distinct [of ?p ?q] f1 f2 show ?thesis by simp
qed

theorem gcm_nonces_unique_witness:
  "distinct (map (take 12) [[0,0,0,0,0,0,0,0,0,0,0,0] @ [5] @ demo_tag [0,0,0,0,0,0,0,0,0,0,0,0],
                            [0,0,0,0,0,0,0,0,0,0,0,1] @ [5] @ demo_tag [0,0,0,0,0,0,0,0,0,0,0,1]]
             @ map (take 12) [[0,0,0,1,0,0,0,0,0,0,0,0] @ [5] @ demo_tag [0,0,0,1,0,0,0,0,0,0,0,0]])"
proof (rule gcm_nonces_unique)
  let ?k = "replicate 32 0"
  show "new_gcm demo_aes ?k True = Inr (GCM ?k [0, 0, 0, 0] 0)"
       "new_gcm demo_aes ?k False = Inr (GCM ?k [0, 0, 0, 1] 0)"
    by (simp_all add: new_gcm_def demo_aes_def GCM_PREFIX_SIZE_def to_bytes_be_4)
  have enc: "gcm_enc demo_aes k n d = d @ demo_tag n" for k n d by (simp add: demo_aes_def)
  show "encrypt_all demo_aes (GCM ?k [0, 0, 0, 0] 0) (\<lambda>_. 0) [[5], [5]] =
      (Inr [[0,0,0,0,0,0,0,0,0,0,0,0] @ [5] @ demo_tag [0,0,0,0,0,0,0,0,0,0,0,0],
            [0,0,0,0,0,0,0,0,0,0,0,1] @ [5] @ demo_tag [0,0,0,0,0,0,0,0,0,0,0,1]], GCM ?k [0, 0, 0, 0] 2, \<lambda>_. 0)"
    by (simp add: next_nonce_gcm_total to_bytes_be_8 to_bytes_be_4 enc)
  show "encrypt_all demo_aes (GCM ?k [0, 0, 0, 1] 0) (\<lambda>_. 0) [[5]] =
      (Inr [[0,0,0,1,0,0,0,0,0,0,0,0] @ [5] @ demo_tag [0,0,0,1,0,0,0,0,0,0,0,0]], GCM ?k [0, 0, 0, 1] 1, \<lambda>_. 0)"
    by (simp add: next_nonce_gcm_total to_bytes_be_8 to_bytes_be_4 enc)
qed

text \<open>
  The nonce counter is refused, not wrapped: an endpoint encrypts the next unit exactly when fewer
  than \<open>2 ^ 64\<close> units were encrypted before; otherwise \<open>MultiplexerTransportError\<close> is raised and
  the state is unchanged.
\<close>

theorem gcm_counter_exhaustion:
  "encrypt aes (GCM k p c) ent d =
     (if c < 2 ^ 64
      then (Inr ((p @ to_bytes_be 8 c) @ gcm_enc aes k (p @ to_bytes_be 8 c) d), GCM k p (c + 1), ent)
      else (Inl MultiplexerTransportError, GCM k p c, ent))"
  using next_nonce_gcm_total [of c p] next_nonce_gcm_exhausted [of c p] by simp

end
