(* ===== verification/Wire.thy ===== *)
theory Wire
  imports Crypto Message
begin

text \<open>
  The wire format of the multiplexer: \<open>_write_message\<close> and the reading half of \<open>_read_message\<close> of
  \<^verbatim>\<open>snitun/multiplexer/core.py\<close>. The bytes given to the stream writer are one growing byte string;
  whether they leave by \<open>write\<close> or \<open>writelines\<close> makes no difference to it.
\<close>

section \<open>Writing\<close>

text \<open>A stream writer: the bytes sent, and whether \<open>write_eof\<close> was called, after which writing raises.\<close>

record writer =
  sent :: bytes
  at_eof :: bool

definition writer_write :: "bytes \<Rightarrow> writer \<Rightarrow> writer res" where
  "writer_write b w = (if at_eof w then Inl RuntimeError else Inr (w\<lparr>sent := sent w @ b\<rparr>))"

type_synonym out_state = "crypto \<times> entropy \<times> writer"

text \<open>\<^verbatim>\<open>except RuntimeError: raise MultiplexerTransportClose\<close>.\<close>

definition finish_write :: "bytes \<Rightarrow> nat \<Rightarrow> out_state \<Rightarrow> nat res \<times> out_state" where
  "finish_write b n s =
     (case s of (c, ent, w) \<Rightarrow>
        case writer_write b w of
          Inl e \<Rightarrow> (Inl (if catches RuntimeError e then MultiplexerTransportClose else e), s)
        | Inr w' \<Rightarrow> (Inr n, (c, ent, w')))"

definition encrypted_data :: "nat \<Rightarrow> nat \<Rightarrow> bool" where
  "encrypted_data v f \<longleftrightarrow> f = CHANNEL_FLOW_NEW \<and> MIN_PROTOCOL_VERSION_FOR_ENCRYPTED_NEW \<le> v"

definition write_message :: "aes \<Rightarrow> nat \<Rightarrow> message \<Rightarrow> out_state \<Rightarrow> nat res \<times> out_state" where
  "write_message aes v m s =
     (case s of (c, ent, w) \<Rightarrow>
        let data_len = length (mdata m) in
        if 11 < length (extra m) then (Inl ValueError, s)
        else case urandom (11 - length (extra m)) ent of (pad, ent1) \<Rightarrow>
          case header_pack (mid m) (flow_type m) data_len (extra m @ pad) of
            Inl e \<Rightarrow> (Inl e, (c, ent1, w))
          | Inr header \<Rightarrow>
              (case encrypt aes c ent1 header of
                 (Inl e, c1, ent2) \<Rightarrow> (Inl e, (c1, ent2, w))
               | (Inr eh, c1, ent2) \<Rightarrow>
                   (if encrypted_data v (flow_type m) \<and> data_len \<noteq> 0
                    then (case encrypt aes c1 ent2 (mdata m) of
                            (Inl e, c2, ent3) \<Rightarrow> (Inl e, (c2, ent3, w))
                          | (Inr ed, c2, ent3) \<Rightarrow> finish_write (eh @ ed) data_len (c2, ent3, w))
                    else finish_write (eh @ mdata m) data_len (c1, ent2, w))))"

section \<open>Reading\<close>

type_synonym in_state = "crypto \<times> reader"

text \<open>
  One message from the stream; \<open>None\<close> is the branch that only warns about a malformed header. A unit
  that does not decrypt closes the transport.
\<close>

definition decrypt_or_close :: "aes \<Rightarrow> bytes \<Rightarrow> in_state \<Rightarrow> bytes res \<times> in_state" where
  "decrypt_or_close aes f s =
     (case s of (c, r) \<Rightarrow>
        case decrypt aes c f of
          (Inr d, c1) \<Rightarrow> (Inr d, (c1, r))
        | (Inl e, c1) \<Rightarrow> (Inl (if catches MultiplexerTransportDecrypt e then MultiplexerTransportClose else e), (c1, r)))"

definition read_data :: "aes \<Rightarrow> nat \<Rightarrow> nat \<Rightarrow> nat \<Rightarrow> in_state \<Rightarrow> bytes res \<times> in_state" where
  "read_data aes v f n s =
     (case s of (c, r) \<Rightarrow>
        if n = 0 then (Inr [], s)
        else if encrypted_data v f
        then (case readexactly (n + overhead c) r of
                (Inl e, r1) \<Rightarrow> (Inl e, (c, r1))
              | (Inr d, r1) \<Rightarrow> decrypt_or_close aes d (c, r1))
        else (case readexactly n r of (x, r1) \<Rightarrow> (x, (c, r1))))"

definition read_frame :: "aes \<Rightarrow> nat \<Rightarrow> in_state \<Rightarrow> message option res \<times> in_state" where
  "read_frame aes v s =
     (case s of (c, r) \<Rightarrow>
        case readexactly (HEADER_SIZE + overhead c) r of
          (Inl e, r1) \<Rightarrow> (Inl e, (c, r1))
        | (Inr frame, r1) \<Rightarrow>
            (case decrypt_or_close aes frame (c, r1) of
               (Inl e, s1) \<Rightarrow> (Inl e, s1)
             | (Inr header, s1) \<Rightarrow>
                 (case header_unpack header of
                    Inl e \<Rightarrow> (if catches StructError e then (Inr None, s1) else (Inl e, s1))
                  | Inr (i, f, n, x) \<Rightarrow>
                      (case read_data aes v f n s1 of
                         (Inl e, s2) \<Rightarrow> (Inl e, s2)
                       | (Inr d, s2) \<Rightarrow> (Inr (Some (make_message i f d x)), s2)))))"

section \<open>What is written is read back\<close>

definition wire_ok :: "nat \<Rightarrow> crypto \<Rightarrow> message \<Rightarrow> bool" where
  "wire_ok v c m \<longleftrightarrow> length (mid m) = 16 \<and> length (extra m) \<le> 11 \<and> flow_type m < 256 \<and>
     length (mdata m) < 2 ^ 32 \<and> (encrypted_data v (flow_type m) \<longrightarrow> aligned c (mdata m))"

text \<open>The message as the peer sees it: its \<open>extra\<close> field is filled up to 11 bytes.\<close>

definition sees :: "message \<Rightarrow> message \<Rightarrow> bool" where
  "sees m m' \<longleftrightarrow> mid m' = mid m \<and> flow_type m' = flow_type m \<and> mdata m' = mdata m \<and>
     length (extra m') = 11 \<and> take (length (extra m)) (extra m') = extra m"

lemma finish_write_ok: "finish_write b n (c, ent, w) = (Inr k, s') \<longleftrightarrow>
    \<not> at_eof w \<and> k = n \<and> s' = (c, ent, w\<lparr>sent := sent w @ b\<rparr>)"
  by (auto simp: finish_write_def writer_write_def split: sum.splits)

lemma write_message_frame:
  assumes "write_message aes v m (c, ent, w) = (Inr k, (c', ent', w'))"
  shows "\<exists>x h eh c1 ent1 ent2 ed. length (extra m @ x) = 11 \<and>
    header_pack (mid m) (flow_type m) (length (mdata m)) (extra m @ x) = Inr h \<and>
    encrypt aes c ent1 h = (Inr eh, c1, ent2) \<and> \<not> at_eof w \<and> k = length (mdata m) \<and>
    w' = w\<lparr>sent := sent w @ eh @ ed\<rparr> \<and>
    (if encrypted_data v (flow_type m) \<and> mdata m \<noteq> [] then encrypt aes c1 ent2 (mdata m) = (Inr ed, c', ent')
     else ed = mdata m \<and> c' = c1 \<and> ent' = ent2)"
proof -
  obtain x ent1 where u: "urandom (11 - length (extra m)) ent = (x, ent1)" by fastforce
  from assms have l: "length (extra m) \<le> 11" by (auto simp: write_message_def Let_def split: if_splits)
  have len: "length (extra m @ x) = 11" using urandom_length [OF u] l by simp
  from assms u l obtain h where h: "header_pack (mid m) (flow_type m) (length (mdata m)) (extra m @ x) = Inr h"
    by (auto simp: write_message_def Let_def split: sum.splits)
  obtain y c1 ent2 where e: "encrypt aes c ent1 h = (y, c1, ent2)" by (cases "encrypt aes c ent1 h")
  with assms u l h obtain eh where y: "y = Inr eh" by (cases y) (auto simp: write_message_def Let_def)
  show ?thesis
  proof (cases "encrypted_data v (flow_type m) \<and> mdata m \<noteq> []")
    case True
    obtain z c2 ent3 where e2: "encrypt aes c1 ent2 (mdata m) = (z, c2, ent3)"
      by (cases "encrypt aes c1 ent2 (mdata m)")
    with assms u l h e y True obtain ed where "z = Inr ed" by (cases z) (auto simp: write_message_def Let_def)
    with assms u l h e y True e2 len show ?thesis
      by (intro exI [of _ x] exI [of _ h] exI [of _ eh] exI [of _ c1] exI [of _ ent1] exI [of _ ent2] exI [of _ ed])
         (simp add: write_message_def Let_def finish_write_ok)
  next
    case False
    with assms u l h e y len show ?thesis
      by (intro exI [of _ x] exI [of _ h] exI [of _ eh] exI [of _ c1] exI [of _ ent1] exI [of _ ent2]
            exI [of _ "mdata m"])
         (auto simp: write_message_def Let_def finish_write_ok)
  qed
qed

lemma decrypt_synced:
  assumes "aes_ok aes" and "synced s c" and "aligned s d" and "encrypt aes s ent d = (Inr f, s', ent')"
  shows "\<exists>c'. (\<forall>r. decrypt_or_close aes f (c, r) = (Inr d, (c', r))) \<and> synced s' c' \<and> overhead c' = overhead c \<and>
    length f = length d + overhead c"
proof -
  from encrypt_decrypt [OF assms] obtain c' where c: "decrypt aes c f = (Inr d, c')" "synced s' c'"
    "length f = length d + overhead s" by blast
  with decrypt_overhead [OF c(1)] synced_overhead [OF assms(2)] show ?thesis
    by (auto simp: decrypt_or_close_def)
qed

text \<open>One message, followed by anything.\<close>

lemma frame_roundtrip:
  assumes ok: "aes_ok aes" and sync: "synced s c" and m: "wire_ok v s m"
    and w: "write_message aes v m (s, ent, w) = (Inr k, (s', ent', w'))"
    and r: "pending r = drop (length (sent w)) (sent w') @ rest"
  shows "\<exists>m' c' r'. read_frame aes v (c, r) = (Inr (Some m'), (c', r')) \<and> sees m m' \<and> synced s' c' \<and>
    pending r' = rest \<and> ending r' = ending r"
proof -
  let ?d = "mdata m" and ?enc = "encrypted_data v (flow_type m) \<and> mdata m \<noteq> []"
  from write_message_frame [OF w] obtain x h eh s1 ent1 ent2 ed where x: "length (extra m @ x) = 11"
    and h: "header_pack (mid m) (flow_type m) (length ?d) (extra m @ x) = Inr h"
    and eh: "encrypt aes s ent1 h = (Inr eh, s1, ent2)" and w': "w' = w\<lparr>sent := sent w @ eh @ ed\<rparr>"
    and ed: "if ?enc then encrypt aes s1 ent2 ?d = (Inr ed, s', ent') else ed = ?d \<and> s' = s1" by auto
  have p: "pending r = eh @ (ed @ rest)" using r w' by simp
  have hl: "length h = 32" using header_pack_length [OF h] by (simp add: HEADER_SIZE_def)
  have ah: "aligned s h" using hl by (simp add: aligned_def split: crypto.split)
  from decrypt_synced [OF ok sync ah eh] obtain c1 where c1: "\<And>r. decrypt_or_close aes eh (c, r) = (Inr h, (c1, r))"
    "synced s1 c1" "overhead c1 = overhead c" and l: "length eh = 32 + overhead c"
    using hl by auto
  from readexactly_append [OF p] l obtain r1 where r1:
    "readexactly (HEADER_SIZE + overhead c) r = (Inr eh, r1)" "pending r1 = ed @ rest" "ending r1 = ending r"
    by (auto simp: HEADER_SIZE_def)
  have u: "header_unpack h = Inr (mid m, flow_type m, length ?d, extra m @ x)"
    using header_unpack_pack [OF h] m x by (simp add: wire_ok_def)
  have d: "\<exists>c2 r2. read_data aes v (flow_type m) (length ?d) (c1, r1) = (Inr ?d, (c2, r2)) \<and> synced s' c2 \<and>
      pending r2 = rest \<and> ending r2 = ending r1"
  proof (cases ?enc)
    case True
    with ed m encrypt_aligned [OF eh] have e: "encrypt aes s1 ent2 ?d = (Inr ed, s', ent')" "aligned s1 ?d"
      by (auto simp: wire_ok_def)
    from decrypt_synced [OF ok c1(2) e(2,1)] obtain c2 where c2: "\<And>r. decrypt_or_close aes ed (c1, r) = (Inr ?d, (c2, r))"
      "synced s' c2" "length ed = length ?d + overhead c1"
      by blast
    from readexactly_append [OF r1(2) c2(3)] c2 True show ?thesis by (auto simp: read_data_def)
  next
    case False
    with ed have e: "ed = ?d" "s' = s1" by auto
    from readexactly_append [OF r1(2), of "length ?d"] e c1(2) False r1(2) show ?thesis
      by (auto simp: read_data_def)
  qed
  then show ?thesis using r1 c1 u x by (auto simp: read_frame_def sees_def)
qed

text \<open>Writing leaves the receiving direction of the endpoint alone, reading the sending one.\<close>

lemma write_keeps_receiving:
  assumes "write_message aes v m (c, ent, w) = (Inr k, (c', ent', w'))" and "synced t c"
  shows "synced t c'"
  using write_message_frame [OF assms(1)] assms(2) encrypt_keeps_receiving by (metis (no_types, lifting))

lemma decrypt_close_keeps:
  assumes "\<And>c f x c'. P c \<Longrightarrow> decrypt aes c f = (x, c') \<Longrightarrow> P c'"
    and "decrypt_or_close aes f (c, r) = (x, (c', r'))" and "P c"
  shows "P c'"
proof -
  obtain y c1 where "decrypt aes c f = (y, c1)" by (metis surj_pair)
  with assms(1) [OF assms(3) this] assms(2) show ?thesis
    by (auto simp: decrypt_or_close_def split: sum.splits)
qed

lemma read_data_keeps:
  assumes P: "\<And>c f x c'. P c \<Longrightarrow> decrypt aes c f = (x, c') \<Longrightarrow> P c'"
    and "read_data aes v f n (c, r) = (x, (c', r'))" and "P c"
  shows "P c'"
  using assms(2,3) decrypt_close_keeps [of P, OF P]
  by (auto simp: read_data_def split: if_splits prod.splits sum.splits)

lemma read_frame_keeps:
  assumes P: "\<And>c f x c'. P c \<Longrightarrow> decrypt aes c f = (x, c') \<Longrightarrow> P c'"
    and e: "read_frame aes v (c, r) = (x, (c', r'))" and c: "P c"
  shows "P c'"
proof (cases "readexactly (HEADER_SIZE + overhead c) r")
  case (Pair y r1)
  show ?thesis
  proof (cases y)
    case (Inr frame)
    obtain z c1 r2 where d: "decrypt_or_close aes frame (c, r1) = (z, (c1, r2))" by (metis surj_pair)
    note s1 = decrypt_close_keeps [of P, OF P d c]
    show ?thesis
    proof (cases "\<exists>h i f n x'. z = Inr h \<and> header_unpack h = Inr (i, f, n, x')")
      case True
      then obtain h i f n x' where h: "z = Inr h" "header_unpack h = Inr (i, f, n, x')" by blast
      obtain u c2 r3 where rd: "read_data aes v f n (c1, r2) = (u, (c2, r3))" by (metis surj_pair)
      with e Pair Inr d h have "c' = c2" by (auto simp: read_frame_def split: sum.splits)
      with read_data_keeps [of P, OF P rd s1] show ?thesis by simp
    next
      case False
      with e Pair Inr d s1 show ?thesis by (auto simp: read_frame_def split: sum.splits if_splits)
    qed
  qed (use e c Pair in \<open>auto simp: read_frame_def\<close>)
qed

lemma read_keeps_sending: "read_frame aes v (c, r) = (x, (c', r')) \<Longrightarrow> synced c t \<Longrightarrow> synced c' t"
  by (rule read_frame_keeps [where P = "\<lambda>c. synced c t"]) (auto intro: decrypt_keeps_sending)

fun write_all :: "aes \<Rightarrow> nat \<Rightarrow> message list \<Rightarrow> out_state \<Rightarrow> unit res \<times> out_state" where
  "write_all aes v [] s = (Inr (), s)"
| "write_all aes v (m # ms) s =
     (case write_message aes v m s of (Inl e, s') \<Rightarrow> (Inl e, s') | (Inr _, s') \<Rightarrow> write_all aes v ms s')"

fun read_all :: "aes \<Rightarrow> nat \<Rightarrow> nat \<Rightarrow> in_state \<Rightarrow> message option list res \<times> in_state" where
  "read_all aes v 0 s = (Inr [], s)"
| "read_all aes v (Suc n) s =
     (case read_frame aes v s of
        (Inl e, s') \<Rightarrow> (Inl e, s')
      | (Inr m, s') \<Rightarrow> (case read_all aes v n s' of (Inl e, s'') \<Rightarrow> (Inl e, s'') | (Inr ms, s'') \<Rightarrow> (Inr (m # ms), s'')))"

lemma write_message_extends:
  assumes "write_message aes v m (c, ent, w) = (Inr k, (c', ent', w'))"
  shows "\<exists>f. sent w' = sent w @ f \<and> at_eof w' = at_eof w"
  using write_message_frame [OF assms] by auto

lemma write_all_extends: "write_all aes v ms (c, ent, w) = (Inr (), (c', ent', w')) \<Longrightarrow> \<exists>f. sent w' = sent w @ f"
proof (induction ms arbitrary: c ent w)
  case (Cons m ms)
  from Cons.prems obtain k c1 ent1 w1 where m: "write_message aes v m (c, ent, w) = (Inr k, (c1, ent1, w1))"
    and ms: "write_all aes v ms (c1, ent1, w1) = (Inr (), (c', ent', w'))"
    by (auto split: prod.splits sum.splits)
  from write_message_extends [OF m] Cons.IH [OF ms] show ?case by auto
qed simp

lemma write_message_aligned:
  assumes "write_message aes v m (c, ent, w) = (Inr k, (c', ent', w'))"
  shows "aligned c' d = aligned c d"
  using write_message_frame [OF assms] encrypt_aligned by (metis (no_types, lifting))

lemma wire_ok_after:
  "write_message aes v m (c, ent, w) = (Inr k, (c', ent', w')) \<Longrightarrow> wire_ok v c' m' = wire_ok v c m'"
  using write_message_aligned by (simp add: wire_ok_def)

text \<open>Writing succeeds on an open stream while the cipher has nonces left.\<close>

definition room :: "nat \<Rightarrow> crypto \<Rightarrow> bool" where
  "room n c = (case c of GCM k p ct \<Rightarrow> ct + n \<le> 2 ^ 64 | _ \<Rightarrow> True)"

lemma room_less: "room (Suc n) c \<Longrightarrow> room n c"
  by (auto simp: room_def split: crypto.splits)

lemma read_keeps_room: "read_frame aes v (c, r) = (x, (c', r')) \<Longrightarrow> room n c \<Longrightarrow> room n c'"
  by (rule read_frame_keeps [where P = "room n"]) (auto simp: room_def split: crypto.splits prod.splits)

lemma encrypt_total: "room (Suc n) c \<Longrightarrow> \<exists>f c' ent'. encrypt aes c ent d = (Inr f, c', ent') \<and> room n c'"
  using next_nonce_gcm_total by (cases c) (auto simp: room_def split: prod.splits)

lemma write_message_total:
  assumes "wire_ok v c m" and "room (Suc (Suc n)) c" and "\<not> at_eof w"
  shows "\<exists>c' ent' w'. write_message aes v m (c, ent, w) = (Inr (length (mdata m)), (c', ent', w')) \<and> room n c' \<and> \<not> at_eof w'"
proof -
  obtain x ent1 where u: "urandom (11 - length (extra m)) ent = (x, ent1)" by fastforce
  obtain h where h: "header_pack (mid m) (flow_type m) (length (mdata m)) (extra m @ x) = Inr h"
    using assms(1) by (auto simp: wire_ok_def header_pack_def)
  from encrypt_total [OF assms(2)] obtain eh c1 ent2 where e: "encrypt aes c ent1 h = (Inr eh, c1, ent2)" "room (Suc n) c1"
    by blast
  from encrypt_total [OF e(2)] obtain ed c2 ent3 where e2: "encrypt aes c1 ent2 (mdata m) = (Inr ed, c2, ent3)" "room n c2"
    by blast
  show ?thesis using assms(1,3) u h e e2 room_less [OF e(2)]
    by (auto simp: write_message_def wire_ok_def Let_def finish_write_def writer_write_def)
qed

lemma write_all_total:
  assumes "\<forall>m \<in> set ms. wire_ok v c m" and "room (2 * length ms) c" and "\<not> at_eof w"
  shows "\<exists>s'. write_all aes v ms (c, ent, w) = (Inr (), s')"
  using assms
proof (induction ms arbitrary: c ent w)
  case (Cons m ms)
  have "wire_ok v c m" "room (Suc (Suc (2 * length ms))) c" using Cons.prems by simp_all
  from write_message_total [OF this Cons.prems(3)] obtain c1 ent1 w1 where
    m: "write_message aes v m (c, ent, w) = (Inr (length (mdata m)), (c1, ent1, w1))" "room (2 * length ms) c1" "\<not> at_eof w1"
    by blast
  with Cons.IH [OF _ m(2,3), of ent1] Cons.prems(1) wire_ok_after [OF m(1)] show ?case by simp
qed simp

text \<open>
  C18: The multiplexer wire format is lossless: when an endpoint writes any sequence of messages, of any
  flow types and payloads, with any of the three ciphers, the peer reads exactly these messages in
  order from the stream, however the bytes are split into chunks, and nothing is left over. Both ends
  stay in step, so the property holds for whatever is sent next as well.
\<close>
theorem wire_stream_roundtrip:
  assumes ok: "aes_ok aes" and "synced s c" and "\<forall>m \<in> set ms. wire_ok v s m"
    and "write_all aes v ms (s, ent, w) = (Inr (), (s', ent', w'))"
    and "pending r = drop (length (sent w)) (sent w') @ rest"
  shows "\<exists>ms' c' r'. read_all aes v (length ms) (c, r) = (Inr (map Some ms'), (c', r')) \<and>
    list_all2 sees ms ms' \<and> synced s' c' \<and> pending r' = rest"
  using assms(2-)
proof (induction ms arbitrary: s ent w c r)
  case (Cons m ms)
  from Cons.prems(3) obtain k s1 ent1 w1 where m: "write_message aes v m (s, ent, w) = (Inr k, (s1, ent1, w1))"
    and ms: "write_all aes v ms (s1, ent1, w1) = (Inr (), (s', ent', w'))"
    by (auto split: prod.splits sum.splits)
  from write_message_extends [OF m] write_all_extends [OF ms] obtain f g where
    f: "sent w1 = sent w @ f" "sent w' = sent w1 @ g" by blast
  have p: "pending r = drop (length (sent w)) (sent w1) @ (g @ rest)" using Cons.prems(4) f by simp
  from frame_roundtrip [OF ok Cons.prems(1) _ m p] Cons.prems(2) obtain m' c1 r1 where
    r1: "read_frame aes v (c, r) = (Inr (Some m'), (c1, r1))" "sees m m'" "synced s1 c1" "pending r1 = g @ rest"
    by auto
  have ok1: "\<forall>m \<in> set ms. wire_ok v s1 m" using Cons.prems(2) wire_ok_after [OF m] by simp
  have "pending r1 = drop (length (sent w1)) (sent w') @ rest" using r1(4) f by simp
  from Cons.IH [OF r1(3) ok1 ms this] obtain ms' c' r' where
    "read_all aes v (length ms) (c1, r1) = (Inr (map Some ms'), (c', r'))"
    "list_all2 sees ms ms'" "synced s' c'" "pending r' = rest" by blast
  with r1 show ?case by (intro exI [of _ "m' # ms'"] exI [of _ c'] exI [of _ r']) simp
qed auto

definition demo_stream :: "message list" where
  "demo_stream = [make_message (replicate 16 3) CHANNEL_FLOW_NEW (replicate 16 4) [],
     make_message (replicate 16 3) CHANNEL_FLOW_DATA [1, 2, 3] [], make_message (replicate 16 3) CHANNEL_FLOW_CLOSE [] []]"

theorem wire_stream_roundtrip_witness:
  "\<exists>s' ent' w' ms' c' r'. write_all demo_aes 2 demo_stream (CBC [] [9] [5], \<lambda>_. 1, \<lparr>sent = [], at_eof = False\<rparr>)
       = (Inr (), (s', ent', w')) \<and>
     read_all demo_aes 2 3 (CBC [] [5] [9], \<lparr>chunks = [sent w', [8, 8]], ending = Eof\<rparr>)
       = (Inr (map Some ms'), (c', r')) \<and> list_all2 sees demo_stream ms' \<and> pending r' = [8, 8]"
proof -
  let ?s = "CBC [] [9] [5]" and ?w = "\<lparr>sent = [], at_eof = False\<rparr>"
  have ok: "\<forall>m \<in> set demo_stream. wire_ok 2 ?s m" and l: "length demo_stream = 3"
    by (simp_all add: demo_stream_def wire_ok_def aligned_def flow_consts encrypted_data_def)
  have "\<exists>x. write_all demo_aes 2 demo_stream (?s, \<lambda>_. 1, ?w) = (Inr (), x)"
    by (rule write_all_total [OF ok]) (simp_all add: room_def)
  then obtain s' ent' w' where
    w: "write_all demo_aes 2 demo_stream (?s, \<lambda>_. 1, ?w) = (Inr (), (s', ent', w'))" by auto
  have "pending \<lparr>chunks = [sent w', [8, 8]], ending = Eof\<rparr> = drop (length (sent ?w)) (sent w') @ [8, 8]"
    by (simp add: pending_def)
  from wire_stream_roundtrip [OF demo_aes_ok _ ok w this, of "CBC [] [5] [9]"] l w show ?thesis by fastforce
qed

lemma readexactly_exn:
  "readexactly n r = (Inl e, r') \<Longrightarrow> e \<in> {IncompleteReadError, OSError, TimeoutError}"
  by (auto simp: readexactly_def split: if_splits stream_end.splits)

lemma decrypt_close_exn:
  assumes "aes_ok aes" and "decrypt_or_close aes d (c, r) = (Inl e, s')"
  shows "e = MultiplexerTransportClose \<and> overhead c \<noteq> 0"
proof -
  from assms(2) obtain e' c' where d: "decrypt aes c d = (Inl e', c')"
    by (auto simp: decrypt_or_close_def split: prod.splits sum.splits)
  with decrypt_raises [OF assms(1) d] assms(2) show ?thesis
    by (cases c) (auto simp: decrypt_or_close_def catches_def gcm_consts split: prod.splits)
qed

lemma decrypt_close_overhead: "decrypt_or_close aes d (c, r) = (x, (c', r')) \<Longrightarrow> overhead c' = overhead c"
  using decrypt_overhead by (auto simp: decrypt_or_close_def split: prod.splits sum.splits)

lemma read_data_exn:
  assumes "aes_ok aes" and "read_data aes v f n (c, r) = (Inl e, s')"
  shows "e \<in> {MultiplexerTransportClose, IncompleteReadError, OSError, TimeoutError} \<and>
    (e = MultiplexerTransportClose \<longrightarrow> overhead c \<noteq> 0)"
proof (cases "n \<noteq> 0 \<and> encrypted_data v f")
  case True
  obtain x r1 where re: "readexactly (n + overhead c) r = (x, r1)" by (metis prod.collapse)
  show ?thesis
  proof (cases x)
    case (Inl e')
    with True assms(2) re readexactly_exn [OF re [unfolded Inl]] show ?thesis by (auto simp: read_data_def)
  next
    case (Inr d)
    with True assms(2) re have "decrypt_or_close aes d (c, r1) = (Inl e, s')" by (simp add: read_data_def)
    from decrypt_close_exn [OF assms(1) this] show ?thesis by simp
  qed
next
  case False
  with assms(2) obtain r1 where "readexactly n r = (Inl e, r1)"
    by (auto simp: read_data_def split: if_splits prod.splits)
  from readexactly_exn [OF this] show ?thesis by auto
qed

text \<open>
  No forged or corrupted frame reaches the dispatcher: with an authenticated cipher, a header or a
  source-address unit that does not authenticate ends in \<open>MultiplexerTransportClose\<close>; whatever
  happens on the stream, the exceptions of reading a message are that one and the stream's own.
\<close>
theorem read_frame_exceptions:
  assumes "aes_ok aes" and "fst (read_frame aes v (c, r)) = Inl e"
  shows "e \<in> {MultiplexerTransportClose, IncompleteReadError, OSError, TimeoutError} \<and>
    (e = MultiplexerTransportClose \<longrightarrow> overhead c \<noteq> 0)"
proof (cases "readexactly (HEADER_SIZE + overhead c) r")
  case (Pair x r1)
  show ?thesis
  proof (cases x)
    case (Inl e')
    with Pair assms(2) readexactly_exn [of _ r e' r1] show ?thesis by (auto simp: read_frame_def)
  next
    case (Inr frame)
    obtain y c1 r2 where d: "decrypt_or_close aes frame (c, r1) = (y, (c1, r2))"
      by (cases "decrypt_or_close aes frame (c, r1)") auto
    show ?thesis
    proof (cases y)
      case (Inl e')
      with d decrypt_close_exn [OF assms(1)] Pair Inr assms(2) show ?thesis by (auto simp: read_frame_def)
    next
      case (Inr h)
      with \<open>x = Inr frame\<close> Pair d assms(2) obtain i f n xx where u: "header_unpack h = Inr (i, f, n, xx)"
        by (auto simp: read_frame_def header_unpack_def catches_def split: sum.splits if_splits)
      obtain z s2 where rd: "read_data aes v f n (c1, r2) = (z, s2)" by (metis prod.collapse)
      with u Inr \<open>x = Inr frame\<close> Pair d assms(2) have "z = Inl e"
        by (auto simp: read_frame_def split: sum.splits)
      with read_data_exn [OF assms(1), of v f n c1 r2 e s2] rd decrypt_close_overhead [OF d] show ?thesis by simp
    qed
  qed
qed

theorem read_frame_exceptions_witness:
  "fst (read_frame demo_aes 2 (GCM [] [0,0,0,1] 0, \<lparr>chunks = [replicate 60 0], ending = Eof\<rparr>)) =
     Inl MultiplexerTransportClose \<and>
   overhead (GCM [] [0,0,0,1] 0) \<noteq> 0"
proof -
  let ?r = "\<lparr>chunks = [replicate 60 (0 :: byte)], ending = Eof\<rparr>"
  have ne: "replicate 16 (0 :: byte) \<noteq> replicate 12 0 @ replicate 4 170"
    by (auto dest: arg_cong [where f = last])
  have "fst (read_frame demo_aes 2 (GCM [] [0,0,0,1] 0, ?r)) = Inl MultiplexerTransportClose"
    by (simp add: read_frame_def readexactly_def pending_def HEADER_SIZE_def gcm_consts decrypt_or_close_def
      demo_aes_def demo_open_def demo_tag_def aead_open_def catches_def ne)
  with read_frame_exceptions [OF demo_aes_ok this] show ?thesis by simp
qed

end
