(* ===== verification/Core.thy ===== *)
theory Core
  imports Channel Wire "HOL-Library.AList"
begin

text \<open>
  The multiplexer: \<^verbatim>\<open>snitun/multiplexer/core.py\<close>. One record holds the state of a \<open>Multiplexer\<close>; the
  channel objects live in \<open>mobjs\<close> under the reference of the queue object each of them created, and
  \<open>mchannels\<close> is the dictionary \<open>_channels\<close> in insertion order. One operation of this theory is what
  the event loop runs without a break: the dispatch of one message, one turn of the write loop, a
  call of the public methods.
\<close>

section \<open>State\<close>

record mux =
  mconf :: config
  mversion :: nat
  mcrypto :: crypto
  mentropy :: entropy
  mwriter :: writer
  mqueue :: mcq
  mhealthy :: bool
  mobjs :: "nat \<Rightarrow> channel"
  mchannels :: "(channel_id \<times> nat) list"
  accept_new :: bool
  handlers :: "nat list"
  write_cancelled :: bool
  write_done :: bool
  read_cancelled :: bool
  transport_closed :: bool

text \<open>\<open>accept_new\<close>: a \<open>new_connections\<close> callback is set; \<open>handlers\<close> lists the channels it was started for.
  References no channel was created for hold \<open>blank_channel\<close>.\<close>

definition blank_channel :: channel where
  "blank_channel = \<lparr>chid = [], oref = 0, chan_ip = EMPTY_IP_ADDRESS, peer_version = 0, input = new_scq 0 0 0,
     closing = False, local_output_under_water = False, remote_input_under_water = False,
     has_callback = False, reader_paused = False, calls = []\<rparr>"

definition new_mux :: "config \<Rightarrow> nat \<Rightarrow> crypto \<Rightarrow> entropy \<Rightarrow> bool \<Rightarrow> mux" where
  "new_mux cfg v c e a =
     \<lparr>mconf = cfg, mversion = v, mcrypto = c, mentropy = e, mwriter = \<lparr>sent = [], at_eof = False\<rparr>,
      mqueue = new_mcq (out_max cfg) (out_low cfg) (out_high cfg), mhealthy = True,
      mobjs = (\<lambda>_. blank_channel), mchannels = [], accept_new = a, handlers = [],
      write_cancelled = False, write_done = False, read_cancelled = False, transport_closed = False\<rparr>"

definition is_connected :: "mux \<Rightarrow> bool" where "is_connected M = (\<not> write_done M)"

text \<open>
  Running an operation of the channel \<open>r\<close>, or of the queue: the callbacks the queue makes reach the
  channel objects they belong to.
\<close>

definition with_channel :: "nat \<Rightarrow> (cstate \<Rightarrow> 'a res \<times> cstate) \<Rightarrow> mux \<Rightarrow> 'a res \<times> mux" where
  "with_channel r f M =
     (case f (mqueue M, mobjs M r) of
        (x, (q', c')) \<Rightarrow>
          (x, M\<lparr>mqueue := q',
                mobjs := (\<lambda>i. if i = r then c' else absorb (mqueue M) q' (mobjs M i))\<rparr>))"

definition set_queue :: "mcq \<Rightarrow> mux \<Rightarrow> mux" where
  "set_queue q' M = M\<lparr>mqueue := q', mobjs := (\<lambda>i. absorb (mqueue M) q' (mobjs M i))\<rparr>"

text \<open>The user of a channel registers its pause callback.\<close>

definition set_reader_callback :: "nat \<Rightarrow> mux \<Rightarrow> mux" where
  "set_reader_callback r M = M\<lparr>mobjs := (mobjs M)(r := set_pause_resume_reader_callback (mobjs M r))\<rparr>"

section \<open>Channels\<close>

definition delete_channel_and_queue :: "channel_id \<Rightarrow> mux \<Rightarrow> nat option \<times> mux" where
  "delete_channel_and_queue cid M =
     (let M1 = set_queue (delete_channel (mqueue M) cid) M in
      (map_of (mchannels M1) cid, M1\<lparr>mchannels := AList.delete cid (mchannels M1)\<rparr>))"

definition mux_delete_channel :: "nat \<Rightarrow> mux \<Rightarrow> mux" where
  "mux_delete_channel r M =
     (let c = mobjs M r in
      if map_of (mchannels M) (chid c) = None then set_queue (delete_channel (mqueue M) (chid c)) M
      else let M1 = (case put_nowait_force (mqueue M) (chid c) (Some (init_close c)) of
                       Inl e \<Rightarrow> M
                     | Inr q' \<Rightarrow> set_queue q' M)
           in snd (delete_channel_and_queue (chid c) M1))"

datatype create_outcome = Created nat | CreateWaits nat nat message

definition register :: "nat \<Rightarrow> mux \<Rightarrow> mux" where
  "register r M = M\<lparr>mchannels := AList.update (chid (mobjs M r)) r (mchannels M)\<rparr>"

text \<open>
  \<open>create_channel\<close>: the \<open>put\<close> of the NEW message may suspend; \<open>create_resume\<close> continues it and
  \<open>create_timeout\<close> gives up after five seconds.
\<close>

definition after_new_put :: "nat \<Rightarrow> message \<Rightarrow> put_outcome res \<times> mcq \<Rightarrow> mux \<Rightarrow> create_outcome res \<times> mux" where
  "after_new_put r m x M =
     (case x of
        (Inl e, q') \<Rightarrow> (Inl e, set_queue q' M)
      | (Inr PutDone, q') \<Rightarrow> (Inr (Created r), register r (set_queue q' M))
      | (Inr (PutWaits f _), q') \<Rightarrow> (Inr (CreateWaits r f m), set_queue q' M))"

definition mux_create_channel :: "ip_address \<Rightarrow> mux \<Rightarrow> create_outcome res \<times> mux" where
  "mux_create_channel ip M =
     (case new_channel (mconf M) (mqueue M) ip (mversion M) True None (mentropy M) of
        (Inl e, ent) \<Rightarrow> (Inl e, M\<lparr>mentropy := ent\<rparr>)
      | (Inr (q1, c), ent) \<Rightarrow>
          (case init_new c ent of
             (m, ent') \<Rightarrow>
               let M1 = (set_queue q1 M)\<lparr>mentropy := ent'\<rparr>;
                   M2 = M1\<lparr>mobjs := (mobjs M1)(oref c := c)\<rparr>
               in after_new_put (oref c) m (put_start (mqueue M2) (chid c) (Some m)) M2))"

definition create_resume :: "nat \<Rightarrow> message \<Rightarrow> mux \<Rightarrow> create_outcome res \<times> mux" where
  "create_resume r m M =
     (case put_resume (mqueue M) (chid (mobjs M r)) r (Some m) of (x, q') \<Rightarrow> after_new_put r m (Inr x, q') M)"

definition create_timeout :: "nat \<Rightarrow> nat \<Rightarrow> mux \<Rightarrow> create_outcome res \<times> mux" where
  "create_timeout r f M =
     (Inl MultiplexerTransportError, set_queue (put_cancel (mqueue M) (chid (mobjs M r)) r f) M)"

section \<open>Dispatch\<close>

definition mux_write :: "aes \<Rightarrow> message \<Rightarrow> mux \<Rightarrow> nat res \<times> mux" where
  "mux_write aes m M =
     (case write_message aes (mversion M) m (mcrypto M, mentropy M, mwriter M) of
        (x, (c, e, w)) \<Rightarrow> (x, M\<lparr>mcrypto := c, mentropy := e, mwriter := w\<rparr>))"

definition void :: "'a res \<times> 's \<Rightarrow> unit res \<times> 's" where
  "void x = (case x of (Inl e, s) \<Rightarrow> (Inl e, s) | (Inr _, s) \<Rightarrow> (Inr (), s))"

definition handle_data :: "message \<Rightarrow> mux \<Rightarrow> unit res \<times> mux" where
  "handle_data m M =
     (case map_of (mchannels M) (mid m) of
        None \<Rightarrow> (Inr (), M)
      | Some r \<Rightarrow>
          (let c = mobjs M r in
           if closing c then (Inr (), M)
           else if unhealthy c
           then (case with_channel r chan_close M of
                   (Inl e, M1) \<Rightarrow> (Inl e, M1)
                 | (Inr _, M1) \<Rightarrow> (Inr (), mux_delete_channel r M1))
           else with_channel r (message_transport m) M))"

text \<open>The source address of a NEW message; \<open>None\<close> rejects a truncated one.\<close>

definition new_address :: "nat \<Rightarrow> message \<Rightarrow> ip_address option" where
  "new_address v m =
     (if MIN_PROTOCOL_VERSION_FOR_ENCRYPTED_NEW \<le> v
      then let family = slice 0 1 (mdata m); packed = drop 1 (mdata m);
               expected = (if family = lit ''6'' then 16 else 4)
           in if length packed < expected then None else Some (bytes_to_ip_address (take expected packed))
      else Some (bytes_to_ip_address (slice 1 5 (extra m))))"

definition handle_new :: "message \<Rightarrow> mux \<Rightarrow> unit res \<times> mux" where
  "handle_new m M =
     (if \<not> accept_new M then (Inr (), M)
      else case new_address (mversion M) m of
             None \<Rightarrow> (Inr (), M)
           | Some ip \<Rightarrow>
               (case new_channel (mconf M) (mqueue M) ip (mversion M) False (Some (mid m)) (mentropy M) of
                  (Inl e, ent) \<Rightarrow> (Inl e, M\<lparr>mentropy := ent\<rparr>)
                | (Inr (q1, c), ent) \<Rightarrow>
                    (let M1 = (set_queue q1 M)\<lparr>mentropy := ent\<rparr>;
                         M2 = M1\<lparr>mobjs := (mobjs M1)(oref c := c)\<rparr>
                     in (Inr (), (register (oref c) M2)\<lparr>handlers := handlers M2 @ [oref c]\<rparr>))))"

definition handle_close :: "message \<Rightarrow> mux \<Rightarrow> unit res \<times> mux" where
  "handle_close m M =
     (case delete_channel_and_queue (mid m) M of
        (None, M1) \<Rightarrow> (Inr (), M1)
      | (Some r, M1) \<Rightarrow> with_channel r chan_close M1)"

definition handle_ping :: "aes \<Rightarrow> message \<Rightarrow> mux \<Rightarrow> unit res \<times> mux" where
  "handle_ping aes m M =
     (if startswith (extra m) (lit ''pong'') then (Inr (), M\<lparr>mhealthy := True\<rparr>)
      else void (mux_write aes (make_message (mid m) CHANNEL_FLOW_PING [] (lit ''pong'')) M))"

definition handle_pause :: "message \<Rightarrow> mux \<Rightarrow> unit res \<times> mux" where
  "handle_pause m M =
     (case map_of (mchannels M) (mid m) of
        None \<Rightarrow> (Inr (), M)
      | Some r \<Rightarrow> (Inr (), M\<lparr>mobjs := (mobjs M)
            (r := on_remote_input_under_water (flow_type m = CHANNEL_FLOW_PAUSE) (mobjs M r))\<rparr>))"

definition dispatch :: "aes \<Rightarrow> message \<Rightarrow> mux \<Rightarrow> unit res \<times> mux" where
  "dispatch aes m M =
     (if flow_type m = CHANNEL_FLOW_DATA then handle_data m M
      else if flow_type m = CHANNEL_FLOW_NEW then handle_new m M
      else if flow_type m = CHANNEL_FLOW_CLOSE then handle_close m M
      else if flow_type m = CHANNEL_FLOW_PING then handle_ping aes m M
      else if flow_type m = CHANNEL_FLOW_PAUSE \<or> flow_type m = CHANNEL_FLOW_RESUME then handle_pause m M
      else (Inr (), M))"

text \<open>\<open>_read_message\<close>: the stream reader is the one thing a message takes from outside the record.\<close>

definition mux_read_message :: "aes \<Rightarrow> mux \<times> reader \<Rightarrow> unit res \<times> mux \<times> reader" where
  "mux_read_message aes s =
     (case s of (M, r) \<Rightarrow>
        case read_frame aes (mversion M) (mcrypto M, r) of
          (x, (c, r')) \<Rightarrow>
            let M1 = M\<lparr>mcrypto := c\<rparr> in
            (case x of
               Inl e \<Rightarrow> (Inl e, (M1, r'))
             | Inr None \<Rightarrow> (Inr (), (M1, r'))
             | Inr (Some m) \<Rightarrow> (case dispatch aes m M1 of (y, M2) \<Rightarrow> (y, (M2, r')))))"

section \<open>Ping\<close>

text \<open>\<open>ping_start\<close> runs to the wait for the pong; the wait ends by \<open>ping_timeout\<close> or, with the event set, returns.\<close>

definition ping_start :: "aes \<Rightarrow> mux \<Rightarrow> unit res \<times> mux" where
  "ping_start aes M =
     (case urandom 16 (mentropy M) of
        (cid, ent) \<Rightarrow>
          void (mux_write aes (make_message cid CHANNEL_FLOW_PING [] (lit ''ping''))
                 (M\<lparr>mhealthy := False, mentropy := ent\<rparr>)))"

section \<open>Shutdown\<close>

fun graceful_loop :: "nat list \<Rightarrow> mux \<Rightarrow> unit res \<times> mux" where
  "graceful_loop [] M = (Inr (), M)"
| "graceful_loop (r # rs) M =
     (case with_channel r chan_close (set_queue (delete_channel (mqueue M) (chid (mobjs M r))) M) of
        (Inl e, M1) \<Rightarrow> (Inl e, M1)
      | (Inr _, M1) \<Rightarrow> graceful_loop rs M1)"

definition graceful_channel_shutdown :: "mux \<Rightarrow> unit res \<times> mux" where
  "graceful_channel_shutdown M =
     (case graceful_loop (map snd (mchannels M)) M of
        (Inl e, M1) \<Rightarrow> (Inl e, M1)
      | (Inr _, M1) \<Rightarrow> (Inr (), M1\<lparr>mchannels := []\<rparr>))"

definition shutdown :: "mux \<Rightarrow> unit res \<times> mux" where
  "shutdown M =
     (if write_done M then (Inr (), M)
      else graceful_channel_shutdown (M\<lparr>write_cancelled := True\<rparr>))"

text \<open>The timeout of a ping schedules \<open>shutdown\<close> and raises.\<close>

definition ping_timeout :: "mux \<Rightarrow> unit res \<times> mux" where
  "ping_timeout M = (Inl MultiplexerTransportError, snd (shutdown M))"

definition on_timeout :: "mux \<Rightarrow> mux" where "on_timeout M = M\<lparr>write_cancelled := True\<rparr>"

section \<open>The two loops\<close>

text \<open>One turn of the write loop: \<open>None\<close> when the queue has nothing and the loop waits.\<close>

definition write_turn :: "aes \<Rightarrow> mux \<Rightarrow> nat option res \<times> mux" where
  "write_turn aes M =
     (case get_start (mqueue M) of
        (Inl e, q') \<Rightarrow> (Inl e, set_queue q' M)
      | (Inr (GetWaits f), q') \<Rightarrow> (Inr None, set_queue q' M)
      | (Inr (GetDone None), q') \<Rightarrow> (Inr (Some 0), set_queue q' M)
      | (Inr (GetDone (Some m)), q') \<Rightarrow>
          (case mux_write aes m (set_queue q' M) of
             (Inl e, M1) \<Rightarrow> (Inl e, M1) | (Inr n, M1) \<Rightarrow> (Inr (Some n), M1)))"

text \<open>
  How the write loop ends: \<open>CancelledError\<close> sends the end of file, two exceptions are swallowed, any
  other one leaves the task; the \<^verbatim>\<open>finally\<close> block runs in every case.
\<close>

definition write_finally :: "mux \<Rightarrow> unit res \<times> mux" where
  "write_finally M = graceful_channel_shutdown (M\<lparr>read_cancelled := True, transport_closed := True, write_done := True\<rparr>)"

definition write_loop_exit :: "exn \<Rightarrow> mux \<Rightarrow> exn option \<times> mux" where
  "write_loop_exit e M =
     (if e = CancelledError
      then (Some CancelledError, snd (write_finally (M\<lparr>mwriter := (mwriter M)\<lparr>at_eof := True\<rparr>\<rparr>)))
      else if catches MultiplexerTransportClose e \<or> catches OSError e then (None, snd (write_finally M))
      else (Some e, snd (write_finally M)))"

definition read_loop_exit :: "exn \<Rightarrow> mux \<Rightarrow> exn option \<times> mux" where
  "read_loop_exit e M =
     (if catches MultiplexerTransportClose e \<or> catches IncompleteReadError e \<or> catches OSError e
      then (None, M\<lparr>write_cancelled := True\<rparr>)
      else (Some e, M\<lparr>write_cancelled := True\<rparr>))"

section \<open>Invariant\<close>

text \<open>Water marks that make sense and room for a NEW message; the defaults have both.\<close>

definition config_ok :: "config \<Rightarrow> bool" where
  "config_ok cfg \<longleftrightarrow> in_low cfg < in_high cfg \<and> 0 < in_high cfg \<and> out_low cfg < out_high cfg \<and> 0 < out_high cfg \<and>
     64 \<le> out_max cfg"

lemma default_config_ok: "config_ok default_config"
  by (simp add: config_ok_def default_config_def)

definition input_ok :: "channel \<Rightarrow> bool" where
  "input_ok c \<longleftrightarrow> scq_inv (input c) \<and> slow (input c) < shigh (input c)"

lemma input_ok_absorb [simp]: "input_ok (absorb q q' c) = input_ok c"
  by (simp add: input_ok_def)

text \<open>
  Every registered channel is open in the output queue, under its own id and reference, and its
  reader is paused exactly when it should be.
\<close>

definition registered_ok :: "mux \<Rightarrow> channel_id \<Rightarrow> nat \<Rightarrow> bool" where
  "registered_ok M cid r \<longleftrightarrow> open_channel (mqueue M) cid r \<and> chid (mobjs M r) = cid \<and>
     oref (mobjs M r) = r \<and> input_ok (mobjs M r) \<and> chan_inv (mqueue M, mobjs M r)"

definition mux_inv :: "mux \<Rightarrow> bool" where
  "mux_inv M \<longleftrightarrow> mcq_inv (mqueue M) \<and> marks_told (mqueue M) \<and> config_ok (mconf M) \<and>
     channel_size_limit (mqueue M) = out_max (mconf M) \<and> distinct (map fst (mchannels M)) \<and>
     (\<forall>cid r. map_of (mchannels M) cid = Some r \<longrightarrow> registered_ok M cid r)"

lemma mux_invI:
  "mcq_inv (mqueue M) \<Longrightarrow> marks_told (mqueue M) \<Longrightarrow> config_ok (mconf M) \<Longrightarrow>
   channel_size_limit (mqueue M) = out_max (mconf M) \<Longrightarrow> distinct (map fst (mchannels M)) \<Longrightarrow>
   (\<And>cid r. map_of (mchannels M) cid = Some r \<Longrightarrow> registered_ok M cid r) \<Longrightarrow> mux_inv M"
  by (simp add: mux_inv_def)

lemma mux_invD:
  assumes "mux_inv M"
  shows "mcq_inv (mqueue M)" "marks_told (mqueue M)"
    "map_of (mchannels M) cid = Some r \<Longrightarrow> registered_ok M cid r" "config_ok (mconf M)"
    "channel_size_limit (mqueue M) = out_max (mconf M)" "distinct (map fst (mchannels M))"
  using assms by (auto simp: mux_inv_def)

lemma mux_inv_fields [simp]:
  "mux_inv (M\<lparr>mhealthy := b\<rparr>) = mux_inv M" "mux_inv (M\<lparr>mentropy := e\<rparr>) = mux_inv M"
  "mux_inv (M\<lparr>mcrypto := c\<rparr>) = mux_inv M" "mux_inv (M\<lparr>mwriter := w\<rparr>) = mux_inv M"
  "mux_inv (M\<lparr>handlers := h\<rparr>) = mux_inv M" "mux_inv (M\<lparr>write_cancelled := b\<rparr>) = mux_inv M"
  "mux_inv (M\<lparr>write_done := b\<rparr>) = mux_inv M" "mux_inv (M\<lparr>read_cancelled := b\<rparr>) = mux_inv M"
  "mux_inv (M\<lparr>transport_closed := b\<rparr>) = mux_inv M"
  by (simp_all add: mux_inv_def registered_ok_def)

lemma set_queue_fields [simp]:
  "mqueue (set_queue q M) = q" "mchannels (set_queue q M) = mchannels M" "mversion (set_queue q M) = mversion M"
  "mconf (set_queue q M) = mconf M" "accept_new (set_queue q M) = accept_new M"
  "mobjs (set_queue q M) = (\<lambda>i. absorb (mqueue M) q (mobjs M i))" "handlers (set_queue q M) = handlers M"
  "mcrypto (set_queue q M) = mcrypto M" "mentropy (set_queue q M) = mentropy M"
  by (simp_all add: set_queue_def)

lemma registered_step:
  assumes "mux_inv M" and "map_of (mchannels M) cid = Some r" and "queue_step (mqueue M) q'"
  shows "open_channel q' cid r \<and> chid (absorb (mqueue M) q' (mobjs M r)) = cid \<and>
    oref (absorb (mqueue M) q' (mobjs M r)) = r \<and> input_ok (mobjs M r) \<and> chan_inv (q', absorb (mqueue M) q' (mobjs M r))"
  using mux_invD(1,2) [OF assms(1)] mux_invD(3) [OF assms(1,2)] assms(3) chan_inv_queue [of "mqueue M" "mobjs M r" q']
  by (auto simp: registered_ok_def queue_step_def)

lemma mux_inv_set_queue [inv_intros]:
  assumes "mux_inv M" and "queue_step (mqueue M) q'"
  shows "mux_inv (set_queue q' M)"
  using registered_step [OF assms(1) _ assms(2)] mux_invD(1,2,4-6) [OF assms(1)] assms(2)
  by (auto simp: mux_inv_def registered_ok_def queue_step_def params_def)

text \<open>
  What the multiplexer relies on of every operation of a channel: it keeps the identity of the
  channel, its invariant, and closes no channel of the queue.
\<close>

locale channel_operation =
  fixes run :: "cstate \<Rightarrow> 'a res \<times> cstate"
  assumes run_queue: "run (q, c) = (x, (q', c')) \<Longrightarrow> queue_step q q'"
    and run_identity: "run (q, c) = (x, (q', c')) \<Longrightarrow> chid c' = chid c \<and> oref c' = oref c"
    and run_input: "run (q, c) = (x, (q', c')) \<Longrightarrow> input_ok c \<Longrightarrow> input_ok c'"
    and run_inv: "chan_inv (q, c) \<Longrightarrow> run (q, c) = (x, (q', c')) \<Longrightarrow> chan_inv (q', c')"
begin

lemma mux_inv_with_channel:
  assumes "mux_inv M" and "with_channel r run M = (x, M')"
  shows "mux_inv M'"
proof -
  obtain q' c' where e: "run (mqueue M, mobjs M r) = (x, (q', c'))"
    and M': "M' = M\<lparr>mqueue := q', mobjs := (\<lambda>i. if i = r then c' else absorb (mqueue M) q' (mobjs M i))\<rparr>"
    using assms(2) by (auto simp: with_channel_def split: prod.splits)
  note step = run_queue [OF e]
  show ?thesis
  proof (rule mux_invI)
    fix cid i assume i: "map_of (mchannels M') cid = Some i"
    then have reg: "map_of (mchannels M) cid = Some i" by (simp add: M')
    from registered_step [OF assms(1) reg step] mux_invD(3) [OF assms(1) reg] run_identity [OF e]
      run_inv [OF _ e] run_input [OF e] show "registered_ok M' cid i"
      by (auto simp: M' registered_ok_def)
  qed (use mux_invD(1,2,4-6) [OF assms(1)] step in \<open>simp_all add: M' queue_step_def params_def\<close>)
qed

lemma mux_inv_run: "mux_inv M \<Longrightarrow> mux_inv (snd (with_channel r run M))"
  using mux_inv_with_channel prod.collapse by metis

lemma with_channel_keeps:
  "with_channel r run M = (x, M') \<Longrightarrow>
   mchannels M' = mchannels M \<and> mversion M' = mversion M \<and> mconf M' = mconf M \<and> accept_new M' = accept_new M \<and>
   chid (mobjs M' i) = chid (mobjs M i) \<and> oref (mobjs M' i) = oref (mobjs M i)"
  using run_identity by (auto simp: with_channel_def split: prod.splits)

end

lemma step_input_callback:
  "queue_step (fst s) (fst (snd (on_local_input_under_water b s))) \<and>
   chid (snd (snd (on_local_input_under_water b s))) = chid (snd s) \<and>
   oref (snd (snd (on_local_input_under_water b s))) = oref (snd s) \<and>
   input (snd (snd (on_local_input_under_water b s))) = input (snd s)"
  by (cases s) (auto simp: on_local_input_under_water_def queue_step_put_nowait split: sum.split)

definition steps :: "cstate \<Rightarrow> cstate \<Rightarrow> bool" where
  "steps s s' \<longleftrightarrow> queue_step (fst s) (fst s') \<and> chid (snd s') = chid (snd s) \<and> oref (snd s') = oref (snd s) \<and>
     (input_ok (snd s) \<longrightarrow> input_ok (snd s'))"

lemma steps_input:
  "steps s (snd (input_put m s))" "steps s (snd (input_get s))"
proof -
  obtain q c where s: "s = (q, c)" by fastforce
  have p: "input_ok c \<Longrightarrow> scq_put_nowait m (input c) = Inr i \<Longrightarrow> scq_inv i \<and> slow i < shigh i" for i
    by (auto simp: input_ok_def scq_put_nowait_def scq_inv_put split: if_splits)
  have g: "input_ok c \<Longrightarrow> scq_get_nowait (input c) = Inr (x, i) \<Longrightarrow> scq_inv i \<and> slow i < shigh i" for x i
  proof -
    assume ok: "input_ok c" and "scq_get_nowait (input c) = Inr (x, i)"
    then have "sitems (input c) \<noteq> []" and i: "i = snd (scq_get (input c))"
      by (auto simp: scq_get_nowait_def scq_empty_def split: if_splits)
    with ok scq_inv_get [of "input c"] show ?thesis by (simp add: input_ok_def)
  qed
  show "steps s (snd (input_put m s))"
  proof (cases "scq_put_nowait m (input c)")
    case (Inr i)
    with step_input_callback [of "(q, c\<lparr>input := i\<rparr>)" True] p [of i] show ?thesis
      by (simp add: s steps_def input_ok_def input_put_def)
  qed (simp add: s steps_def input_put_def)
  show "steps s (snd (input_get s))"
  proof (cases "scq_get_nowait (input c)")
    case (Inr mi)
    obtain x i where "mi = (x, i)" by fastforce
    with Inr step_input_callback [of "(q, c\<lparr>input := i\<rparr>)" False] g [of x i] show ?thesis
      by (simp add: s steps_def input_ok_def snd_input_get)
  qed (simp add: s steps_def snd_input_get)
qed

lemma steps_close: "steps s (snd (chan_close s))"
  using steps_input(1) [of "(fst s, (snd s)\<lparr>closing := True\<rparr>)" None]
  by (cases s) (simp add: chan_close_def steps_def input_ok_def)

lemma steps_transport: "steps s (snd (message_transport m s))"
  using steps_input(1) [of s "Some m"] by (simp add: message_transport_def) (simp add: steps_def)

lemma steps_read: "steps s (snd (read_chan s))"
  using steps_input(2) [of s]
  by (auto simp: read_chan_def split: prod.split sum.split option.split) (simp_all add: steps_def)

lemma steps_write: "steps s (snd (write_no_wait d s))"
  by (cases s) (auto simp: write_no_wait_def steps_def input_ok_def queue_step_put_nowait split: sum.split)

lemma channel_operationI:
  assumes "\<And>s. steps s (snd (f s))" and "\<And>s. chan_inv s \<Longrightarrow> chan_inv (snd (f s))"
  shows "channel_operation f"
proof
  fix q c x q' c'
  assume e: "f (q, c) = (x, q', c')"
  show "queue_step q q'" "chid c' = chid c \<and> oref c' = oref c" "input_ok c \<Longrightarrow> input_ok c'"
    using assms(1) [of "(q, c)"] by (auto simp: steps_def e)
  show "chan_inv (q', c')" if "chan_inv (q, c)" using assms(2) [OF that] by (simp add: e)
qed

interpretation close_op: channel_operation chan_close
  by (rule channel_operationI [OF steps_close]) (rule chan_inv_close)

interpretation transport_op: channel_operation "message_transport m" for m
  by (rule channel_operationI [OF steps_transport]) (rule chan_inv_transport)

interpretation read_op: channel_operation read_chan
  by (rule channel_operationI [OF steps_read]) (rule chan_inv_read)

interpretation write_op: channel_operation "write_no_wait d" for d
  by (rule channel_operationI [OF steps_write]) (rule chan_inv_write_no_wait)

text \<open>The write that waits for room: its start, its resumption while the channel is open, and its timeout.\<close>

lemma chan_inv_step: "chan_inv (q, c) \<Longrightarrow> queue_step q q' \<Longrightarrow> chan_inv (q', absorb q q' c)"
  using chan_inv_queue [of q c q'] by (auto simp: queue_step_def chan_inv_def)

lemma after_put_result:
  "queue_step q (snd x) \<Longrightarrow> steps (q, c) (snd (after_put (q, c) m x))"
  "queue_step q (snd x) \<Longrightarrow> chan_inv (q, c) \<Longrightarrow> chan_inv (snd (after_put (q, c) m x))"
  using chan_inv_step [of q c "snd x"]
  by (auto simp: after_put_def steps_def input_ok_def split: prod.splits sum.splits put_outcome.splits)

lemma write_start_steps:
  "steps s (snd (write_start d s))" "chan_inv s \<Longrightarrow> chan_inv (snd (write_start d s))"
  using after_put_result [OF queue_step_put_start] chan_inv_step
  by (cases s, auto simp: write_start_def steps_def input_ok_def queue_step_put_nowait split: sum.split)+

definition write_resume_open :: "message \<Rightarrow> nat \<Rightarrow> cstate \<Rightarrow> write_outcome res \<times> cstate" where
  "write_resume_open m r s = (if channels (fst s) (chid (snd s)) = Some r then write_resume m r s else (Inr WriteDone, s))"

lemma write_resume_steps:
  "steps s (snd (write_resume_open m r s))" "chan_inv s \<Longrightarrow> chan_inv (snd (write_resume_open m r s))"
proof -
  obtain q c where s: "s = (q, c)" by fastforce
  have q: "queue_step q (snd (put_resume q (chid c) r (Some m)))" if "channels q (chid c) = Some r"
    using queue_step_put_resume [OF that] .
  show "steps s (snd (write_resume_open m r s))"
    using after_put_result(1) [of q "(Inr (fst (put_resume q (chid c) r (Some m))), snd (put_resume q (chid c) r (Some m)))" c m] q
    by (simp add: s write_resume_open_def write_resume_def case_prod_beta) (simp add: steps_def)
  show "chan_inv s \<Longrightarrow> chan_inv (snd (write_resume_open m r s))"
    using after_put_result(2) [of q "(Inr (fst (put_resume q (chid c) r (Some m))), snd (put_resume q (chid c) r (Some m)))" c m] q
    by (simp add: s write_resume_open_def write_resume_def case_prod_beta)
qed

lemma absorb_cancel: "absorb q (put_cancel q cid r f) c = c"
  using put_cancel_same [of q cid r f] by (simp add: absorb_def same_data_def)

lemma write_timeout_steps:
  "steps s (snd (write_timeout f r s))" "chan_inv s \<Longrightarrow> chan_inv (snd (write_timeout f r s))"
  using chan_inv_step [OF _ queue_step_put_cancel] absorb_cancel queue_step_put_cancel
  by (cases s, simp add: write_timeout_def steps_def; metis)+

interpretation write_start_op: channel_operation "write_start d" for d
  by (rule channel_operationI [OF write_start_steps])

interpretation write_resume_op: channel_operation "write_resume_open m r" for m r
  by (rule channel_operationI [OF write_resume_steps])

interpretation write_timeout_op: channel_operation "write_timeout f r" for f r
  by (rule channel_operationI [OF write_timeout_steps])

text \<open>The callback is set while the channel has no reason to be paused, as every handler does on a new channel.\<close>

definition calm :: "channel \<Rightarrow> bool" where
  "calm c \<longleftrightarrow> \<not> local_output_under_water c \<and> \<not> remote_input_under_water c \<and> \<not> reader_paused c \<and> calls c = []"

lemma mux_inv_set_callback:
  assumes "mux_inv M" and "calm (mobjs M r)"
  shows "mux_inv (set_reader_callback r M)"
proof (rule mux_invI)
  fix cid i assume "map_of (mchannels (set_reader_callback r M)) cid = Some i"
  then have "registered_ok M cid i" using mux_invD(3) [OF assms(1)] by (simp add: set_reader_callback_def)
  with assms(2) show "registered_ok (set_reader_callback r M) cid i"
    by (cases "i = r") (auto simp: registered_ok_def set_reader_callback_def set_pause_resume_reader_callback_def input_ok_def
      chan_inv_def pause_ok_def calm_def)
qed (use mux_invD [OF assms(1)] in \<open>simp_all add: set_reader_callback_def\<close>)

lemma mux_inv_write_resume:
  assumes "mux_inv M" and "channels (mqueue M) (chid (mobjs M r)) = Some k"
  shows "mux_inv (snd (with_channel r (write_resume m k) M))"
  using write_resume_op.mux_inv_run [OF assms(1), of r m k] assms(2) by (simp add: with_channel_def write_resume_open_def)

section \<open>Preservation\<close>

lemma mux_inv_new: "config_ok cfg \<Longrightarrow> mux_inv (new_mux cfg v c e a)"
  by (simp add: mux_inv_def new_mux_def mcq_inv_new config_ok_def)
     (simp add: marks_told_def new_mcq_def)

lemma map_of_delete: "map_of (AList.delete k xs) c = (if c = k then None else map_of xs c)"
  by (simp add: delete_conv')

lemma map_of_update: "map_of (AList.update k v xs) c = (if c = k then Some v else map_of xs c)"
  by (simp add: update_conv')

lemma delete_step:
  assumes "mcq_inv q"
  shows "mcq_inv (delete_channel q cid)" "marks_told q \<Longrightarrow> marks_told (delete_channel q cid)"
    "calls_extend q (delete_channel q cid)" "c \<noteq> cid \<Longrightarrow> open_channel q c r \<Longrightarrow> open_channel (delete_channel q cid) c r"
    "channel_size_limit (delete_channel q cid) = channel_size_limit q"
  using assms qexec_params [of q "QDelete cid"] mcq_inv_delete qexec_told [OF assms, of "QDelete cid"] qexec_calls_extend [of q "QDelete cid"]
    qexec_open [OF assms, of "QDelete cid" c r] by (auto simp: params_def)

lemma mux_inv_delete_queue:
  assumes "mux_inv M"
  shows "mux_inv ((set_queue (delete_channel (mqueue M) cid) M)\<lparr>mchannels := AList.delete cid (mchannels M)\<rparr>)"
proof (rule mux_invI)
  fix c r
  let ?q = "delete_channel (mqueue M) cid"
  assume "map_of (mchannels ((set_queue ?q M)\<lparr>mchannels := AList.delete cid (mchannels M)\<rparr>)) c = Some r"
  then have c: "c \<noteq> cid" and reg: "map_of (mchannels M) c = Some r" by (auto simp: map_of_delete split: if_splits)
  note I = mux_invD [OF assms]
  from mux_invD(3) [OF assms reg] chan_inv_queue [of "mqueue M" "mobjs M r" ?q] delete_step [OF I(1)] I(2) c
  show "registered_ok ((set_queue ?q M)\<lparr>mchannels := AList.delete cid (mchannels M)\<rparr>) c r"
    by (auto simp: registered_ok_def)
qed (use mux_invD(1,2,4-6) [OF assms] delete_step in \<open>auto simp: distinct_delete\<close>)

lemma mux_inv_delete_channel_and_queue [inv_intros]:
  "mux_inv M \<Longrightarrow> mux_inv (snd (delete_channel_and_queue cid M))"
  using mux_inv_delete_queue [of M cid] by (simp add: delete_channel_and_queue_def Let_def)

lemma mux_inv_delete_only:
  assumes "mux_inv M" and "map_of (mchannels M) cid = None"
  shows "mux_inv (set_queue (delete_channel (mqueue M) cid) M)"
proof -
  have "AList.delete cid (mchannels M) = mchannels M"
    using assms(2) by (simp add: map_of_eq_None_iff delete_idem)
  with mux_inv_delete_queue [OF assms(1), of cid] show ?thesis
    by (simp add: set_queue_def)
qed

lemma mux_inv_mux_delete_channel [inv_intros]: "mux_inv M \<Longrightarrow> mux_inv (mux_delete_channel r M)"
  using mux_inv_delete_only [of M] mux_inv_set_queue [of M] mux_inv_delete_channel_and_queue
    queue_step_put_force
  by (auto simp: mux_delete_channel_def Let_def split: sum.split)

lemma registered_set_queue:
  assumes "mux_inv M" and "registered_ok M cid r" and "queue_step (mqueue M) q'"
  shows "registered_ok (set_queue q' M) cid r"
  using mux_invD(1,2) [OF assms(1)] assms(2,3) chan_inv_queue [of "mqueue M" "mobjs M r" q']
  by (auto simp: registered_ok_def queue_step_def)

lemma mux_inv_register: "mux_inv M \<Longrightarrow> registered_ok M (chid (mobjs M r)) r \<Longrightarrow> mux_inv (register r M)"
  by (auto simp: mux_inv_def register_def map_of_update distinct_update registered_ok_def split: if_splits)

text \<open>The state after \<open>MultiplexerChannel.__init__\<close>: the new object, not yet registered.\<close>

definition add_object :: "mcq \<Rightarrow> channel \<Rightarrow> entropy \<Rightarrow> mux \<Rightarrow> mux" where
  "add_object q c ent M =
     (let M1 = (set_queue q M)\<lparr>mentropy := ent\<rparr> in M1\<lparr>mobjs := (mobjs M1)(oref c := c)\<rparr>)"

lemma add_object_fields [simp]:
  "mqueue (add_object q c ent M) = q" "mchannels (add_object q c ent M) = mchannels M"
  "mobjs (add_object q c ent M) (oref c) = c" "accept_new (add_object q c ent M) = accept_new M"
  "mconf (add_object q c ent M) = mconf M"
  "handlers (add_object q c ent M) = handlers M" "mversion (add_object q c ent M) = mversion M"
  by (simp_all add: add_object_def Let_def)

lemma new_channel_created:
  assumes "new_channel cfg q ip v cb i e = (Inr (q1, c), ent)"
  shows "create_channel q (chid c) = Inr q1 \<and> oref c = next_ref q \<and> channels q1 (chid c) = Some (oref c) \<and>
    \<not> pending_close (heap q1 (oref c)) \<and> chan_ip c = ip \<and> peer_version c = v \<and> has_callback c = cb \<and>
    \<not> closing c \<and> input c = new_scq (if v = 0 then in_max_v0 cfg else in_max cfg) (in_low cfg) (in_high cfg) \<and>
    (i = Some (x # xs) \<longrightarrow> chid c = x # xs)"
  using assms
  by (auto simp: new_channel_def case_prod_unfold Let_def rbind_eq_Inr create_channel_def new_channel_queue_def
    split: if_splits)

lemma add_object_inv:
  assumes inv: "mux_inv M" and n: "new_channel (mconf M) (mqueue M) ip v cb i e = (Inr (q1, c), ent)"
  shows "mux_inv (add_object q1 c ent' M) \<and> registered_ok (add_object q1 c ent' M) (chid c) (oref c)"
proof
  note C = new_channel_created [OF n]
  have step: "queue_step (mqueue M) q1" using C queue_step_create by blast
  have ref: "r \<noteq> oref c" if "registered_ok M cid r" for cid r
    using that C mcq_invD(5) [OF mux_invD(1) [OF inv], of cid r] by (auto simp: registered_ok_def open_channel_def)
  show "mux_inv (add_object q1 c ent' M)"
  proof (rule mux_invI)
    fix cid r assume "map_of (mchannels (add_object q1 c ent' M)) cid = Some r"
    then have reg: "registered_ok M cid r" using mux_invD(3) [OF inv] by simp
    from registered_set_queue [OF inv reg step] ref [OF reg] show "registered_ok (add_object q1 c ent' M) cid r"
      by (simp add: registered_ok_def add_object_def Let_def)
  qed (use mux_invD(1,2,4-6) [OF inv] step in \<open>simp_all add: queue_step_def params_def\<close>)
  have "chan_inv (q1, c)"
    using chan_inv_new [OF mux_invD(1,2) [OF inv], of "mconf M" ip v cb i e q1 c] n by simp
  moreover have "input_ok c"
    using new_channel_created [OF n] mux_invD(4) [OF inv]
    by (simp add: input_ok_def scq_inv_new config_ok_def) (simp add: new_scq_def)
  ultimately show "registered_ok (add_object q1 c ent' M) (chid c) (oref c)"
    using C [THEN conjunct2, THEN conjunct2, THEN conjunct1]
      C [THEN conjunct2, THEN conjunct2, THEN conjunct2, THEN conjunct1]
    by (simp add: registered_ok_def open_channel_def)
qed

lemma handle_new_alt:
  "handle_new m M =
     (if \<not> accept_new M then (Inr (), M)
      else case new_address (mversion M) m of
             None \<Rightarrow> (Inr (), M)
           | Some ip \<Rightarrow>
               (case new_channel (mconf M) (mqueue M) ip (mversion M) False (Some (mid m)) (mentropy M) of
                  (Inl e, ent) \<Rightarrow> (Inl e, M\<lparr>mentropy := ent\<rparr>)
                | (Inr (q1, c), ent) \<Rightarrow>
                    (Inr (), (register (oref c) (add_object q1 c ent M))
                       \<lparr>handlers := handlers (add_object q1 c ent M) @ [oref c]\<rparr>)))"
  by (simp only: handle_new_def add_object_def Let_def)

lemma mux_inv_handle_new [inv_intros]: "mux_inv M \<Longrightarrow> mux_inv (snd (handle_new m M))"
  using add_object_inv [of M] mux_inv_register
  by (auto simp: handle_new_alt split: option.split prod.split sum.split)

lemma mux_inv_handle_close [inv_intros]:
  assumes "mux_inv M" shows "mux_inv (snd (handle_close m M))"
proof -
  note I = mux_inv_delete_channel_and_queue [OF assms, of "mid m"]
  from close_op.mux_inv_run [OF I] I show ?thesis
    by (auto simp: handle_close_def split: prod.split option.split)
qed

lemma mux_inv_handle_data [inv_intros]:
  assumes "mux_inv M" shows "mux_inv (snd (handle_data m M))"
  using assms close_op.mux_inv_with_channel [OF assms] transport_op.mux_inv_run [OF assms]
    mux_inv_mux_delete_channel
  by (auto simp: handle_data_def Let_def split: option.split prod.split sum.split)

lemma mux_inv_write [inv_intros]: "mux_inv M \<Longrightarrow> mux_inv (snd (mux_write aes m M))"
  by (simp add: mux_write_def split: prod.split)

lemma snd_void [simp]: "snd (void x) = snd x"
  by (auto simp: void_def split: prod.split sum.split)

lemma mux_inv_handle_ping [inv_intros]: "mux_inv M \<Longrightarrow> mux_inv (snd (handle_ping aes m M))"
  by (simp add: handle_ping_def mux_inv_write)

lemma mux_inv_handle_pause [inv_intros]: "mux_inv M \<Longrightarrow> mux_inv (snd (handle_pause m M))"
  using chan_inv_remote [of "mqueue M"]
  by (auto simp: handle_pause_def mux_inv_def registered_ok_def input_ok_def split: option.split)

lemma mux_inv_dispatch [inv_intros]: "mux_inv M \<Longrightarrow> mux_inv (snd (dispatch aes m M))"
  by (simp add: dispatch_def mux_inv_handle_data mux_inv_handle_new mux_inv_handle_close
    mux_inv_handle_ping mux_inv_handle_pause)

lemma mux_create_alt:
  "mux_create_channel ip M =
     (case new_channel (mconf M) (mqueue M) ip (mversion M) True None (mentropy M) of
        (Inl e, ent) \<Rightarrow> (Inl e, M\<lparr>mentropy := ent\<rparr>)
      | (Inr (q1, c), ent) \<Rightarrow>
          (case init_new c ent of
             (m, ent') \<Rightarrow> after_new_put (oref c) m (put_start q1 (chid c) (Some m)) (add_object q1 c ent' M)))"
  by (simp add: mux_create_channel_def add_object_def Let_def split: prod.split sum.split)

lemma mux_inv_after_new_put:
  assumes "mux_inv M" and "registered_ok M (chid (mobjs M r)) r" and "queue_step (mqueue M) (snd x)"
  shows "mux_inv (snd (after_new_put r m x M))"
proof -
  note I = mux_inv_set_queue [OF assms(1,3)]
  from registered_set_queue [OF assms(1,2,3)] mux_inv_register [OF I, of r] I show ?thesis
    by (auto simp: after_new_put_def split: prod.split sum.split put_outcome.split)
qed

lemma mux_inv_create [inv_intros]:
  assumes "mux_inv M" shows "mux_inv (snd (mux_create_channel ip M))"
proof (cases "new_channel (mconf M) (mqueue M) ip (mversion M) True None (mentropy M)")
  case (Pair x ent)
  show ?thesis
  proof (cases x)
    case (Inr s)
    obtain q1 c where s: "s = (q1, c)" by fastforce
    obtain m ent' where i: "init_new c ent = (m, ent')" by fastforce
    from Pair Inr s have n: "new_channel (mconf M) (mqueue M) ip (mversion M) True None (mentropy M) = (Inr (q1, c), ent)"
      by simp
    from add_object_inv [OF assms n] mux_inv_after_new_put [of "add_object q1 c ent' M" "oref c"
        "put_start q1 (chid c) (Some m)" m] queue_step_put_start n i
    show ?thesis by (simp add: mux_create_alt)
  qed (use Pair assms in \<open>simp add: mux_create_alt\<close>)
qed

lemma mux_inv_create_resume [inv_intros]:
  assumes "mux_inv M" and "registered_ok M (chid (mobjs M r)) r"
  shows "mux_inv (snd (create_resume r m M))"
proof -
  obtain x q' where p: "put_resume (mqueue M) (chid (mobjs M r)) r (Some m) = (x, q')" by fastforce
  have "queue_step (mqueue M) q'"
    using queue_step_put_resume [of "mqueue M" "chid (mobjs M r)" r "Some m"] assms(2) p
    by (simp add: registered_ok_def open_channel_def)
  with mux_inv_after_new_put [OF assms, of "(Inr x, q')" m] p show ?thesis by (simp add: create_resume_def)
qed

lemma mux_inv_create_timeout [inv_intros]: "mux_inv M \<Longrightarrow> mux_inv (snd (create_timeout r f M))"
  by (simp add: create_timeout_def mux_inv_set_queue queue_step_put_cancel)

lemma mux_inv_write_turn [inv_intros]:
  assumes "mux_inv M" shows "mux_inv (snd (write_turn aes M))"
proof -
  have "mux_inv (set_queue (snd (get_start (mqueue M))) M)"
    using mux_inv_set_queue [OF assms queue_step_get] .
  with mux_inv_write [of _ aes] show ?thesis
    by (auto simp: write_turn_def split: prod.split sum.split get_outcome.split option.split)
      (metis mux_inv_write snd_conv)+
qed

lemma mux_inv_ping_start [inv_intros]: "mux_inv M \<Longrightarrow> mux_inv (snd (ping_start aes M))"
  by (simp add: ping_start_def mux_inv_write split: prod.split)

text \<open>While the shutdown loop runs only the queue keeps its invariant; with the dictionary cleared all is well.\<close>

lemma with_close_queue:
  assumes "mcq_inv (mqueue M)" and "marks_told (mqueue M)" and "with_channel r chan_close M = (x, M')"
  shows "mcq_inv (mqueue M') \<and> marks_told (mqueue M')"
  using assms close_op.run_queue
  by (auto simp: with_channel_def queue_step_def split: prod.splits)

lemma graceful_loop_queue:
  "graceful_loop rs M = (x, M') \<Longrightarrow> mcq_inv (mqueue M) \<Longrightarrow> marks_told (mqueue M) \<Longrightarrow>
   mcq_inv (mqueue M') \<and> marks_told (mqueue M')"
proof (induction rs M rule: graceful_loop.induct)
  case (2 r rs M)
  let ?M = "set_queue (delete_channel (mqueue M) (chid (mobjs M r))) M"
  obtain y M1 where w: "with_channel r chan_close ?M = (y, M1)" by fastforce
  have "mcq_inv (mqueue M1) \<and> marks_told (mqueue M1)"
    using with_close_queue [OF _ _ w] delete_step(1,2) [OF "2.prems"(2)] "2.prems"(3) by simp
  with "2.IH" [OF w [symmetric]] "2.prems"(1) w show ?case by (cases y) auto
qed simp

lemma graceful_loop_fields:
  "graceful_loop rs M = (x, M') \<Longrightarrow>
   mchannels M' = mchannels M \<and> chid (mobjs M' i) = chid (mobjs M i)"
proof (induction rs M rule: graceful_loop.induct)
  case (2 r rs M)
  let ?M = "set_queue (delete_channel (mqueue M) (chid (mobjs M r))) M"
  obtain y M1 where w: "with_channel r chan_close ?M = (y, M1)" by fastforce
  have "mchannels M1 = mchannels M \<and> chid (mobjs M1 i) = chid (mobjs M i)"
    using close_op.with_channel_keeps [OF w] by simp
  with "2.IH" [OF w [symmetric]] "2.prems"(1) w show ?case by (cases y) auto
qed simp

text \<open>Closing a channel with a sound input queue raises nothing: the end mark has no size.\<close>

lemma chan_close_ok:
  assumes "input_ok c"
  shows "\<exists>i. chan_close (q, c) = (Inr (), (q, c\<lparr>closing := True, input := i\<rparr>)) \<and> (scq_full (input c) \<and> i = input c \<or>
    \<not> scq_full (input c) \<and> sitems i = sitems (input c) @ [None])"
  using assms
  by (auto simp: chan_close_def input_put_def suppress_def scq_put_nowait_def input_ok_def scq_inv_def
    catches_def scq_put_def effective_size_def Let_def split: if_splits)

lemma with_close:
  assumes "input_ok (mobjs M r)"
  shows "\<exists>M'. with_channel r chan_close M = (Inr (), M') \<and> closing (mobjs M' r) \<and> mqueue M' = mqueue M \<and>
    (\<forall>i. (closing (mobjs M i) \<longrightarrow> closing (mobjs M' i)) \<and> chid (mobjs M' i) = chid (mobjs M i) \<and>
         (input_ok (mobjs M i) \<longrightarrow> input_ok (mobjs M' i))) \<and>
    mchannels M' = mchannels M \<and> mconf M' = mconf M"
proof -
  from chan_close_ok [OF assms, of "mqueue M"] obtain i where
    c: "chan_close (mqueue M, mobjs M r) = (Inr (), (mqueue M, (mobjs M r)\<lparr>closing := True, input := i\<rparr>))" by blast
  from close_op.run_input [OF c] assms c show ?thesis
    by (auto simp: with_channel_def)
qed

lemma graceful_loop_ok:
  assumes "\<forall>r \<in> set rs. input_ok (mobjs M r)" and "mcq_inv (mqueue M)" and "marks_told (mqueue M)"
  shows "\<exists>M'. graceful_loop rs M = (Inr (), M') \<and> (\<forall>r \<in> set rs. closing (mobjs M' r)) \<and>
    (\<forall>i. closing (mobjs M i) \<longrightarrow> closing (mobjs M' i)) \<and> mcq_inv (mqueue M') \<and> marks_told (mqueue M') \<and>
    channel_size_limit (mqueue M') = channel_size_limit (mqueue M) \<and> mconf M' = mconf M"
  using assms
proof (induction rs arbitrary: M)
  case (Cons r rs)
  let ?M = "set_queue (delete_channel (mqueue M) (chid (mobjs M r))) M"
  have "input_ok (mobjs ?M r)" using Cons.prems(1) by simp
  from with_close [OF this] obtain M1 where w: "with_channel r chan_close ?M = (Inr (), M1)" "closing (mobjs M1 r)"
    "mqueue M1 = mqueue ?M" "mconf M1 = mconf M"
    and keep: "\<And>i. closing (mobjs M i) \<Longrightarrow> closing (mobjs M1 i)" "\<And>i. input_ok (mobjs M i) \<Longrightarrow> input_ok (mobjs M1 i)"
    by auto
  have "\<forall>r \<in> set rs. input_ok (mobjs M1 r)" "mcq_inv (mqueue M1)" "marks_told (mqueue M1)"
    using Cons.prems keep(2) w(3) delete_step [OF Cons.prems(2)] by auto
  from Cons.IH [OF this] w keep(1) delete_step(5) [OF Cons.prems(2)] show ?case by fastforce
qed auto

lemma graceful_ok:
  assumes "mux_inv M"
  shows "\<exists>M'. graceful_channel_shutdown M = (Inr (), M') \<and> mchannels M' = [] \<and> mux_inv M' \<and>
    (\<forall>cid r. map_of (mchannels M) cid = Some r \<longrightarrow> closing (mobjs M' r))"
proof -
  have "\<forall>r \<in> set (map snd (mchannels M)). input_ok (mobjs M r)"
    using mux_invD(3) [OF assms] mux_invD(6) [OF assms] by (auto simp: registered_ok_def)
  from graceful_loop_ok [OF this mux_invD(1,2) [OF assms]] obtain M1 where
    M1: "graceful_loop (map snd (mchannels M)) M = (Inr (), M1)"
    "\<forall>r \<in> set (map snd (mchannels M)). closing (mobjs M1 r)" "mcq_inv (mqueue M1)" "marks_told (mqueue M1)"
    "channel_size_limit (mqueue M1) = channel_size_limit (mqueue M)" "mconf M1 = mconf M" by blast
  have "closing (mobjs M1 r)" if "map_of (mchannels M) cid = Some r" for cid r
    using M1(2) map_of_SomeD [OF that] by force
  with M1 mux_invD(4,5) [OF assms] show ?thesis by (simp add: graceful_channel_shutdown_def mux_inv_def)
qed

text \<open>
  C34: Shutting down closes every channel: it never raises, and afterwards no channel is registered, every
  channel that was is closing, so that its readers get the remaining data and then the close exception.
\<close>
theorem shutdown_closes_channels:
  assumes "mux_inv M" and "\<not> write_done M"
  shows "\<exists>M'. shutdown M = (Inr (), M') \<and> mchannels M' = [] \<and> mux_inv M' \<and>
    (\<forall>cid r. map_of (mchannels M) cid = Some r \<longrightarrow> closing (mobjs M' r))"
  using graceful_ok [of "M\<lparr>write_cancelled := True\<rparr>"] assms by (simp add: shutdown_def)

section \<open>Reachable multiplexers\<close>

text \<open>A fresh channel always has room for its NEW message.\<close>

lemma put_start_fits:
  "channels q cid = Some r \<Longrightarrow> \<not> over_limit q r m \<Longrightarrow> put_start q cid m = (Inr PutDone, q_put q cid r m)"
  by (simp add: put_start_def put_loop_def)

lemma init_new_size: "effective_size (Some (fst (init_new c e))) \<le> 64"
  by (auto simp: init_new_def effective_size_def HEADER_SIZE_def pad_len_def AES_BLOCK_SIZE_def
    ip_address_to_bytes_def lit_def Let_def split: prod.split if_splits dest: urandom_length)

lemma create_never_waits:
  assumes "mux_inv M"
  shows "(\<exists>r. fst (mux_create_channel ip M) = Inr (Created r)) \<or> fst (mux_create_channel ip M) = Inl RuntimeError"
proof (cases "new_channel (mconf M) (mqueue M) ip (mversion M) True None (mentropy M)")
  case (Pair x ent)
  show ?thesis
  proof (cases x)
    case (Inl e)
    with Pair show ?thesis
      by (auto simp: mux_create_alt new_channel_def create_channel_def case_prod_unfold Let_def rbind_eq_Inl
        split: if_splits)
  next
    case (Inr s)
    obtain q1 c where s: "s = (q1, c)" by fastforce
    obtain m ent' where i: "init_new c ent = (m, ent')" by fastforce
    from Pair Inr s have n: "new_channel (mconf M) (mqueue M) ip (mversion M) True None (mentropy M) = (Inr (q1, c), ent)"
      by simp
    note C = new_channel_created [OF n]
    have "\<not> over_limit q1 (oref c) (Some m)"
      using C mux_invD(4,5) [OF assms] init_new_size [of c ent] i
      by (auto simp: over_limit_def create_channel_def new_channel_queue_def config_ok_def split: if_splits)
    with put_start_fits [of q1 "chid c" "oref c" "Some m"] C n i show ?thesis
      by (simp add: mux_create_alt after_new_put_def)
  qed
qed

text \<open>Everything that can happen to a multiplexer, in any order.\<close>

inductive mux_reach :: "aes \<Rightarrow> mux \<Rightarrow> mux \<Rightarrow> bool" for aes M0 where
  reach_start: "mux_reach aes M0 M0"
| reach_message: "mux_reach aes M0 M \<Longrightarrow> mux_reach aes M0 (snd (dispatch aes m M))"
| reach_create: "mux_reach aes M0 M \<Longrightarrow> mux_reach aes M0 (snd (mux_create_channel ip M))"
| reach_delete: "mux_reach aes M0 M \<Longrightarrow> mux_reach aes M0 (mux_delete_channel r M)"
| reach_read: "mux_reach aes M0 M \<Longrightarrow> mux_reach aes M0 (snd (with_channel r read_chan M))"
| reach_write: "mux_reach aes M0 M \<Longrightarrow> mux_reach aes M0 (snd (with_channel r (write_no_wait d) M))"
| reach_callback: "mux_reach aes M0 M \<Longrightarrow> calm (mobjs M r) \<Longrightarrow> mux_reach aes M0 (set_reader_callback r M)"
| reach_write_start: "mux_reach aes M0 M \<Longrightarrow> mux_reach aes M0 (snd (with_channel r (write_start d) M))"
| reach_write_resume: "mux_reach aes M0 M \<Longrightarrow> channels (mqueue M) (chid (mobjs M r)) = Some k \<Longrightarrow>
    mux_reach aes M0 (snd (with_channel r (write_resume m k) M))"
| reach_write_timeout: "mux_reach aes M0 M \<Longrightarrow> mux_reach aes M0 (snd (with_channel r (write_timeout f k) M))"
| reach_close: "mux_reach aes M0 M \<Longrightarrow> mux_reach aes M0 (snd (with_channel r chan_close M))"
| reach_turn: "mux_reach aes M0 M \<Longrightarrow> mux_reach aes M0 (snd (write_turn aes M))"
| reach_ping: "mux_reach aes M0 M \<Longrightarrow> mux_reach aes M0 (snd (ping_start aes M))"
| reach_crypto: "mux_reach aes M0 M \<Longrightarrow> mux_reach aes M0 (M\<lparr>mcrypto := c\<rparr>)"
| reach_shutdown: "mux_reach aes M0 M \<Longrightarrow> mux_reach aes M0 (snd (shutdown M))"
| reach_write_end: "mux_reach aes M0 M \<Longrightarrow> mux_reach aes M0 (snd (write_loop_exit e M))"
| reach_read_end: "mux_reach aes M0 M \<Longrightarrow> mux_reach aes M0 (snd (read_loop_exit e M))"

lemma mux_inv_graceful: "mux_inv M \<Longrightarrow> mux_inv (snd (graceful_channel_shutdown M))"
  using graceful_ok by fastforce

lemma mux_inv_shutdown [inv_intros]: "mux_inv M \<Longrightarrow> mux_inv (snd (shutdown M))"
  by (simp add: shutdown_def mux_inv_graceful)

lemma mux_inv_exits [inv_intros]:
  "mux_inv M \<Longrightarrow> mux_inv (snd (write_loop_exit e M))" "mux_inv M \<Longrightarrow> mux_inv (snd (read_loop_exit e M))"
  by (simp_all add: write_loop_exit_def read_loop_exit_def write_finally_def mux_inv_graceful)

lemma mux_reach_inv: "mux_reach aes M0 M \<Longrightarrow> mux_inv M0 \<Longrightarrow> mux_inv M"
  by (induction rule: mux_reach.induct)
     (simp_all add: inv_intros read_op.mux_inv_run write_op.mux_inv_run close_op.mux_inv_run mux_inv_set_callback
       write_start_op.mux_inv_run mux_inv_write_resume write_timeout_op.mux_inv_run)

text \<open>
  C17: A registered channel is alive: in every reachable multiplexer a channel of the dictionary has its
  own entry in the output queue, so that neither a write, nor a read, nor the forced CLOSE message of
  \<open>delete_channel\<close> can fail with the \<open>RuntimeError\<close> of a missing entry; and if the channel has a pause
  callback, its reader is paused exactly when output queue or peer are under water.
\<close>
theorem registered_channel_alive:
  assumes "config_ok cfg" and "mux_reach aes (new_mux cfg v c e a) M" and "map_of (mchannels M) cid = Some r"
  shows "channels (mqueue M) cid = Some r \<and> chid (mobjs M r) = cid \<and>
    (\<exists>q'. put_nowait_force (mqueue M) cid m = Inr q') \<and>
    fst (with_channel r (write_no_wait d) M) \<noteq> Inl RuntimeError \<and>
    fst (with_channel r read_chan M) \<noteq> Inl RuntimeError \<and>
    (has_callback (mobjs M r) \<longrightarrow> reader_paused (mobjs M r) =
       (under_water (heap (mqueue M) r) \<or> remote_input_under_water (mobjs M r)))"
proof -
  let ?q = "mqueue M" and ?c = "mobjs M r"
  have inv: "mux_inv M" using mux_reach_inv [OF assms(2)] mux_inv_new [OF assms(1)] by blast
  from mux_invD(3) [OF inv assms(3)] have reg: "channels ?q cid = Some r" "chid ?c = cid" "oref ?c = r"
    "chan_inv (?q, ?c)" by (auto simp: registered_ok_def open_channel_def)
  have put: "put_nowait ?q cid m' \<noteq> Inl RuntimeError" for m' using reg(1) by (simp add: put_nowait_def)
  have "fst (with_channel r (write_no_wait d) M) \<noteq> Inl RuntimeError"
    using reg(2) put by (auto simp: with_channel_def write_no_wait_def make_message_or_raise_def
      split: prod.splits sum.splits)
  moreover have "fst (with_channel r read_chan M) \<noteq> Inl RuntimeError"
  proof (cases "sitems (input ?c)")
    case Nil
    then show ?thesis by (simp add: with_channel_def read_chan_def scq_empty_def)
  next
    case (Cons m' rest)
    have "can_resume (?q, ?c)" using reg(1,2) by (simp add: can_resume_def)
    from input_get_next [OF this Cons] Cons show ?thesis
      by (cases m') (auto simp: with_channel_def read_chan_def scq_empty_def)
  qed
  ultimately show ?thesis using reg by (auto simp: put_nowait_force_def chan_inv_def pause_ok_def)
qed

section \<open>Source addresses\<close>

definition shown_address :: "nat \<Rightarrow> ip_address \<Rightarrow> ip_address" where
  "shown_address v ip =
     (if MIN_PROTOCOL_VERSION_FOR_ENCRYPTED_NEW \<le> v then drop_scope ip
      else if is_v6 ip then EMPTY_IP_ADDRESS else ip)"

lemma new_address_of_init:
  assumes "sees (fst (init_new c e)) m"
  shows "new_address (peer_version c) m = Some (shown_address (peer_version c) (chan_ip c))"
proof (cases "MIN_PROTOCOL_VERSION_FOR_ENCRYPTED_NEW \<le> peer_version c")
  case True
  let ?a = "chan_ip c"
  obtain pad where d: "mdata m = (if is_v6 ?a then lit ''6'' else lit ''4'') @ ip_address_to_bytes ?a @ pad"
    using assms True by (auto simp: sees_def init_new_def Let_def split: prod.splits)
  have "take (length (packed ?a)) (packed ?a @ pad) = packed ?a" by simp
  with d True bytes_to_ip_address_packed [of ?a] show ?thesis
    by (auto simp: new_address_def shown_address_def Let_def lit_def slice_def ip_address_to_bytes_def)
next
  case False
  let ?a = "if is_v6 (chan_ip c) then EMPTY_IP_ADDRESS else chan_ip c"
  have l: "length (packed ?a) = 4" by (auto simp: EMPTY_IP_ADDRESS_def)
  have "take 5 (extra m) = lit ''4'' @ packed ?a"
    using assms False l by (auto simp: sees_def init_new_def ip_address_to_bytes_def lit_def Let_def)
  moreover have "slice 1 5 (extra m) = drop 1 (take 5 (extra m))" by (simp add: slice_def drop_take)
  ultimately have "slice 1 5 (extra m) = packed ?a" by (simp add: lit_def)
  with False bytes_to_ip_address_packed [of ?a] show ?thesis
    by (cases "chan_ip c") (auto simp: new_address_def shown_address_def ip_address_to_bytes_def EMPTY_IP_ADDRESS_def)
qed

text \<open>
  The connector sees who is connecting: when the NEW message an endpoint makes for a channel arrives
  at a peer of the same protocol version that accepts connections, the peer opens exactly one channel
  with the same id and the caller's address and starts its handler. From protocol version 2 the
  address is the caller's IPv4 or IPv6 address (without an interface scope); older versions carry an
  IPv4 address and replace an IPv6 one by the empty address.
\<close>
lemma new_channel_keeps_address:
  assumes inv: "mux_inv M" and "accept_new M" and "mversion M = peer_version c" and "chid c \<noteq> []"
    and "channels (mqueue M) (chid c) = None" and m: "sees (fst (init_new c e)) m"
  shows "\<exists>M' r. dispatch aes m M = (Inr (), M') \<and> mux_inv M' \<and> handlers M' = handlers M @ [r] \<and>
    mchannels M' = AList.update (chid c) r (mchannels M) \<and>
    chan_ip (mobjs M' r) = shown_address (peer_version c) (chan_ip c) \<and> chid (mobjs M' r) = chid c"
proof -
  have flow: "flow_type m = CHANNEL_FLOW_NEW" "mid m = chid c"
    using m by (auto simp: sees_def init_new_def Let_def split: prod.splits if_splits)
  obtain b bs where b: "chid c = b # bs" using assms(4) by (cases "chid c") auto
  let ?ip = "shown_address (peer_version c) (chan_ip c)"
  obtain q1 c1 ent where n: "new_channel (mconf M) (mqueue M) ?ip (mversion M) False (Some (mid m)) (mentropy M) =
      (Inr (q1, c1), ent)"
    using assms(5) flow b by (auto simp: new_channel_def create_channel_def Let_def split: prod.splits)
  note C = new_channel_created [OF n, of b bs]
  have d: "dispatch aes m M = (Inr (), (register (oref c1) (add_object q1 c1 ent M))
      \<lparr>handlers := handlers M @ [oref c1]\<rparr>)"
    using new_address_of_init [OF m] assms(2,3) n flow(1)
    by (simp add: dispatch_def flow_consts handle_new_alt)
  have "chid c1 = chid c" and "chan_ip c1 = ?ip" using C flow(2) b by simp_all
  with d mux_inv_dispatch [OF inv, of aes m] show ?thesis
    by (intro exI [of _ "(register (oref c1) (add_object q1 c1 ent M))\<lparr>handlers := handlers M @ [oref c1]\<rparr>"]
      exI [of _ "oref c1"]) (simp add: register_def)
qed

section \<open>Ping and pong\<close>

lemma ping_not_pong: "\<not> startswith (lit ''ping'' @ x) (lit ''pong'')"
  by (simp add: startswith_def lit_def)

lemma sees_extra: "sees m m' \<Longrightarrow> \<exists>x. extra m' = extra m @ x"
  unfolding sees_def by (metis append_take_drop_id)

text \<open>What a multiplexer has written since it was in state \<open>M\<close>.\<close>

definition written_since :: "mux \<Rightarrow> mux \<Rightarrow> bytes" where
  "written_since M M' = drop (length (sent (mwriter M))) (sent (mwriter M'))"

lemma mux_write_frame:
  assumes "mux_write aes m M = (Inr k, M')"
  shows "write_message aes (mversion M) m (mcrypto M, mentropy M, mwriter M) = (Inr k, (mcrypto M', mentropy M', mwriter M'))"
    "mversion M' = mversion M" "mhealthy M' = mhealthy M" "handlers M' = handlers M"
  using assms by (auto simp: mux_write_def split: prod.splits)

lemma void_Inr: "void x = (Inr (), s) \<longleftrightarrow> (\<exists>k. x = (Inr k, s))"
  by (auto simp: void_def split: prod.splits sum.splits)

text \<open>Reading one message that the peer has just written, at the dispatcher's door.\<close>

lemma mux_read_written:
  assumes ok: "aes_ok aes" and sync: "synced (mcrypto A) (mcrypto B)" and v: "mversion A = mversion B"
    and m: "wire_ok (mversion A) (mcrypto A) m" and w: "mux_write aes m A = (Inr k, A')"
    and r: "pending r = written_since A A'"
  shows "\<exists>m' c r'. sees m m' \<and> synced (mcrypto A') c \<and> pending r' = [] \<and>
    (\<forall>t. synced (mcrypto B) t \<longrightarrow> synced c t) \<and> (\<forall>n. room n (mcrypto B) \<longrightarrow> room n c) \<and>
    mux_read_message aes (B, r) =
      (case dispatch aes m' (B\<lparr>mcrypto := c\<rparr>) of (y, M) \<Rightarrow> (y, (M, r')))"
proof -
  note W = mux_write_frame(1) [OF w]
  from frame_roundtrip [OF ok sync m W, of r "[]"] r obtain m' c r' where
    f: "read_frame aes (mversion B) (mcrypto B, r) = (Inr (Some m'), (c, r'))" "sees m m'"
    "synced (mcrypto A') c" "pending r' = []" by (auto simp: written_since_def v)
  from read_keeps_sending [OF f(1)] read_keeps_room [OF f(1)] f show ?thesis
    by (auto simp: mux_read_message_def Let_def)
qed

lemma mux_write_total:
  assumes "wire_ok (mversion M) (mcrypto M) m" and "room 2 (mcrypto M)" and "\<not> at_eof (mwriter M)"
  shows "\<exists>k M'. mux_write aes m M = (Inr k, M')"
  using write_message_total [OF assms(1) _ assms(3), of 0 aes "mentropy M"] assms(2)
  by (auto simp: mux_write_def numeral_2_eq_2)

lemma wire_ok_ping: "length i = 16 \<Longrightarrow> length x \<le> 11 \<Longrightarrow> wire_ok v c (make_message i CHANNEL_FLOW_PING [] x)"
  by (simp add: wire_ok_def flow_consts encrypted_data_def)

lemma pong_heals:
  assumes ok: "aes_ok aes" and sync: "synced (mcrypto B) (mcrypto A)" and v: "mversion B = mversion A"
    and m: "wire_ok (mversion B) (mcrypto B) (make_message i CHANNEL_FLOW_PING [] (lit ''pong''))"
    and w: "mux_write aes (make_message i CHANNEL_FLOW_PING [] (lit ''pong'')) B = (Inr k, B1)"
    and ab: "synced (mcrypto A) (mcrypto B1)" and r: "pending ra = written_since B B1"
  shows "\<exists>A2 ra'. mux_read_message aes (A, ra) = (Inr (), (A2, ra')) \<and> mhealthy A2 \<and> pending ra' = [] \<and>
    synced (mcrypto A2) (mcrypto B1) \<and> synced (mcrypto B1) (mcrypto A2)"
proof -
  from mux_read_written [OF ok sync v m w r] obtain m' c ra' where
    m': "sees (make_message i CHANNEL_FLOW_PING [] (lit ''pong'')) m'" and c: "synced (mcrypto B1) c"
    "pending ra' = []" "synced c (mcrypto B1)"
    and d: "mux_read_message aes (A, ra) = (case dispatch aes m' (A\<lparr>mcrypto := c\<rparr>) of (y, M) \<Rightarrow> (y, (M, ra')))"
    using ab by blast
  have "flow_type m' = CHANNEL_FLOW_PING" "startswith (extra m') (lit ''pong'')"
    using m' sees_extra [OF m'] by (auto simp: sees_def)
  then have "dispatch aes m' (A\<lparr>mcrypto := c\<rparr>) = (Inr (), A\<lparr>mcrypto := c, mhealthy := True\<rparr>)"
    by (simp add: dispatch_def handle_ping_def flow_consts)
  with d c show ?thesis by auto
qed

text \<open>The other side reads the ping and answers it, and the answer is read.\<close>

lemma ping_gets_pong:
  assumes ok: "aes_ok aes" and ab: "synced (mcrypto A) (mcrypto B)" and ba: "synced (mcrypto B) (mcrypto A)"
    and v: "mversion A = mversion B" and room: "room 2 (mcrypto B)" and eof: "\<not> at_eof (mwriter B)" and i: "length i = 16"
    and w: "mux_write aes (make_message i CHANNEL_FLOW_PING [] (lit ''ping'')) A = (Inr k, A1)"
    and rb: "pending rb = written_since A A1"
  shows "\<exists>B1 rb'. mux_read_message aes (B, rb) = (Inr (), (B1, rb')) \<and> pending rb' = [] \<and>
        (\<forall>ra. pending ra = written_since B B1 \<longrightarrow>
          (\<exists>A2 ra'. mux_read_message aes (A1, ra) = (Inr (), (A2, ra')) \<and> mhealthy A2 \<and> pending ra' = [] \<and>
             synced (mcrypto A2) (mcrypto B1) \<and> synced (mcrypto B1) (mcrypto A2)))"
proof -
  let ?ping = "make_message i CHANNEL_FLOW_PING [] (lit ''ping'')"
  let ?pong = "make_message i CHANNEL_FLOW_PING [] (lit ''pong'')"
  note okA = wire_ok_ping [OF i, of "lit ''ping''"] and okB = wire_ok_ping [OF i, of "lit ''pong''"]
  have l: "length (lit ''ping'') \<le> 11" "length (lit ''pong'') \<le> 11" by (simp_all add: lit_def)
  from mux_read_written [OF ok _ _ okA [OF l(1)] w, of B rb] ab v rb obtain m' c rb' where
    m': "sees ?ping m'" and c: "synced (mcrypto A1) c" "pending rb' = []" "synced c (mcrypto A)" "room 2 c"
    and d: "mux_read_message aes (B, rb) = (case dispatch aes m' (B\<lparr>mcrypto := c\<rparr>) of (y, M) \<Rightarrow> (y, (M, rb')))"
    using ba room by (simp, blast)
  let ?B = "B\<lparr>mcrypto := c\<rparr>"
  obtain k' B1 where w': "mux_write aes ?pong ?B = (Inr k', B1)"
    using mux_write_total [OF okB [OF l(2)], of ?B aes] c(4) eof by auto
  have "flow_type m' = CHANNEL_FLOW_PING" "mid m' = i" "\<not> startswith (extra m') (lit ''pong'')"
    using m' sees_extra [OF m'] ping_not_pong by (auto simp: sees_def)
  then have "dispatch aes m' ?B = (Inr (), B1)"
    using w' by (simp add: dispatch_def handle_ping_def void_def flow_consts)
  with d have B1: "mux_read_message aes (B, rb) = (Inr (), (B1, rb'))" by simp
  have "synced (mcrypto A1) (mcrypto B1)" "synced c (mcrypto A1)"
    using write_keeps_receiving [OF mux_write_frame(1) [OF w']] write_keeps_receiving [OF mux_write_frame(1) [OF w]] c(1,3)
    by simp_all
  moreover have "written_since B B1 = written_since ?B B1" by (simp add: written_since_def)
  moreover have "mversion A1 = mversion B" using mux_write_frame [OF w] v by simp
  ultimately show ?thesis using B1 c(2) pong_heals [OF ok _ _ okB [OF l(2)] w', of A1] v by auto
qed

text \<open>
  C35: A ping is answered: when one end of a session sends a ping, the other end, reading it, answers
  with one pong, and the first end, reading that, is marked healthy again. It holds for every cipher
  and leaves the session in step in both directions.
\<close>
theorem ping_is_answered:
  assumes ok: "aes_ok aes" and ab: "synced (mcrypto A) (mcrypto B)" and ba: "synced (mcrypto B) (mcrypto A)"
    and v: "mversion A = mversion B" and room: "room 2 (mcrypto A)" "room 2 (mcrypto B)"
    and eof: "\<not> at_eof (mwriter A)" "\<not> at_eof (mwriter B)"
  shows "\<exists>A1. ping_start aes A = (Inr (), A1) \<and> \<not> mhealthy A1 \<and>
    (\<forall>rb. pending rb = written_since A A1 \<longrightarrow>
      (\<exists>B1 rb'. mux_read_message aes (B, rb) = (Inr (), (B1, rb')) \<and> pending rb' = [] \<and>
        (\<forall>ra. pending ra = written_since B B1 \<longrightarrow>
          (\<exists>A2 ra'. mux_read_message aes (A1, ra) = (Inr (), (A2, ra')) \<and> mhealthy A2 \<and> pending ra' = [] \<and>
             synced (mcrypto A2) (mcrypto B1) \<and> synced (mcrypto B1) (mcrypto A2)))))"
proof -
  obtain i ent where i: "urandom 16 (mentropy A) = (i, ent)" "length i = 16"
    using urandom_length by (metis surj_pair)
  let ?A = "A\<lparr>mhealthy := False, mentropy := ent\<rparr>"
  have l: "length (lit ''ping'') \<le> 11" by (simp add: lit_def)
  obtain k A1 where w: "mux_write aes (make_message i CHANNEL_FLOW_PING [] (lit ''ping'')) ?A = (Inr k, A1)"
    using mux_write_total [OF wire_ok_ping [OF i(2) l], of ?A aes] room(1) eof(1) by auto
  have p: "ping_start aes A = (Inr (), A1)" using i(1) w by (simp add: ping_start_def void_def)
  have A1: "written_since A A1 = written_since ?A A1" "\<not> mhealthy A1"
    using mux_write_frame [OF w] by (simp_all add: written_since_def)
  from ping_gets_pong [OF ok _ _ _ room(2) eof(2) i(2) w] ab ba v p A1 show ?thesis by simp
qed

section \<open>Data\<close>

lemma transport_accepts:
  assumes "channels q (chid c) \<noteq> None" and "\<not> scq_full (input c)" and "\<not> closing c"
  shows "\<exists>q' c'. message_transport m (q, c) = (Inr (), (q', c')) \<and> input c' = scq_put (Some m) (input c) \<and>
    closing c' = closing c"
  using peer_told [of c q True "scq_put (Some m) (input c)"] assms
  by (auto simp: message_transport_def suppress_def input_put_def scq_put_nowait_def)

lemma data_dispatched:
  assumes inv: "mux_inv M" and "flow_type m = CHANNEL_FLOW_DATA" and reg: "map_of (mchannels M) (mid m) = Some r"
    and "\<not> closing (mobjs M r)" and "\<not> unhealthy (mobjs M r)"
  shows "\<exists>M'. dispatch aes m M = (Inr (), M') \<and> mchannels M' = mchannels M \<and>
    input (mobjs M' r) = scq_put (Some m) (input (mobjs M r)) \<and> \<not> closing (mobjs M' r) \<and>
    (\<forall>i. i \<noteq> r \<longrightarrow> input (mobjs M' i) = input (mobjs M i))"
proof -
  let ?c = "mobjs M r"
  have "channels (mqueue M) (chid ?c) \<noteq> None"
    using mux_invD(3) [OF inv reg] by (simp add: registered_ok_def open_channel_def)
  from transport_accepts [OF this, of m] assms(4,5) obtain q' c' where
    t: "message_transport m (mqueue M, ?c) = (Inr (), (q', c'))" "input c' = scq_put (Some m) (input ?c)" "\<not> closing c'"
    by (auto simp: unhealthy_def)
  then show ?thesis using assms by (auto simp: dispatch_def handle_data_def with_channel_def)
qed

text \<open>
  Data reaches its channel and no other: a DATA message for a registered channel that is open and
  below its byte limit is appended to the input of exactly that channel, the byte count grows by the
  message, staying below the limit plus this one message, and no other channel's input changes.
\<close>
theorem data_goes_to_its_channel:
  assumes inv: "mux_inv M" and "flow_type m = CHANNEL_FLOW_DATA" and reg: "map_of (mchannels M) (mid m) = Some r"
    and "\<not> closing (mobjs M r)" and "\<not> unhealthy (mobjs M r)"
  shows "\<exists>M'. dispatch aes m M = (Inr (), M') \<and> mchannels M' = mchannels M \<and>
    sitems (input (mobjs M' r)) = sitems (input (mobjs M r)) @ [Some m] \<and>
    (0 < maxsize (input (mobjs M r)) \<longrightarrow>
       qsize (input (mobjs M' r)) < maxsize (input (mobjs M r)) + effective_size (Some m)) \<and>
    (\<forall>i. i \<noteq> r \<longrightarrow> input (mobjs M' i) = input (mobjs M i))"
  using data_dispatched [OF assms, of aes] assms(5)
  by (auto simp: unhealthy_def scq_full_def qsize_def)


section \<open>End to end\<close>

text \<open>An accepted write is in the output queue of its channel.\<close>

lemma write_accepted:
  assumes inv: "mux_inv A" and reg: "map_of (mchannels A) cid = Some r" and "\<not> closing (mobjs A r)" and "d \<noteq> []"
    and fits: "mcq_size (mqueue A) cid + effective_size (Some (make_message cid CHANNEL_FLOW_DATA d [])) \<le> out_max (mconf A)"
  shows "\<exists>A1. with_channel r (write_no_wait d) A = (Inr (), A1) \<and> mux_inv A1 \<and>
    mqueue A1 = q_put (mqueue A) cid r (Some (make_message cid CHANNEL_FLOW_DATA d [])) \<and>
    mcrypto A1 = mcrypto A \<and> mversion A1 = mversion A \<and> mwriter A1 = mwriter A"
proof -
  let ?m = "make_message cid CHANNEL_FLOW_DATA d []"
  have ok: "channels (mqueue A) cid = Some r" "chid (mobjs A r) = cid"
    using mux_invD(3) [OF inv reg] by (auto simp: registered_ok_def open_channel_def)
  have "\<not> over_limit (mqueue A) r (Some ?m)"
    using fits ok(1) mux_invD(5) [OF inv] by (simp add: over_limit_def mcq_size_def)
  with ok assms(3,4) have w: "write_no_wait d (mqueue A, mobjs A r) =
      (Inr (), (q_put (mqueue A) cid r (Some ?m), absorb (mqueue A) (q_put (mqueue A) cid r (Some ?m)) (mobjs A r)))"
    by (simp add: write_no_wait_def make_message_or_raise_def put_nowait_def)
  obtain x A1 where A1: "with_channel r (write_no_wait d) A = (x, A1)" by fastforce
  with w write_op.mux_inv_with_channel [OF inv A1] show ?thesis by (auto simp: with_channel_def)
qed

text \<open>A turn of the write loop sends the message at the head of the queue.\<close>

lemma write_turn_sends:
  assumes inv: "mux_inv A" and o: "order (mqueue A) = cid # os" and h: "hd (contents (mqueue A) cid) = Some m"
    and "wire_ok (mversion A) (mcrypto A) m" and "room 2 (mcrypto A)" and "\<not> at_eof (mwriter A)"
  shows "\<exists>k A1 A2. mux_write aes m A1 = (Inr k, A2) \<and> write_turn aes A = (Inr (Some k), A2) \<and>
    mcrypto A1 = mcrypto A \<and> mversion A1 = mversion A \<and> mwriter A1 = mwriter A"
proof -
  obtain q' where g: "get_nowait (mqueue A) = (Inr (Some m), q')"
    using get_nowait_cons(1) [OF mux_invD(1) [OF inv] o] h by (metis prod.collapse)
  then have s: "get_start (mqueue A) = (Inr (GetDone (Some m)), q')" using o by (simp add: get_start_def get_loop_def)
  let ?A = "set_queue q' A"
  have w: "mwriter ?A = mwriter A" by (simp add: set_queue_def)
  from mux_write_total [of ?A m aes] assms(4-6) w obtain k A2 where "mux_write aes m ?A = (Inr k, A2)" by auto
  with s w show ?thesis by (intro exI [of _ k] exI [of _ ?A] exI [of _ A2]) (simp add: write_turn_def)
qed

text \<open>Reading a channel with one message returns it.\<close>

lemma read_delivers:
  assumes inv: "mux_inv B" and reg: "map_of (mchannels B) cid = Some r" and i: "sitems (input (mobjs B r)) = Some m # rest"
  shows "fst (with_channel r read_chan B) = Inr (ReadData (mdata m))"
proof -
  have "can_resume (mqueue B, mobjs B r)"
    using mux_invD(3) [OF inv reg] by (auto simp: registered_ok_def open_channel_def can_resume_def)
  from input_get_next [OF this i] i show ?thesis
    by (auto simp: with_channel_def read_chan_def scq_empty_def)
qed

text \<open>
  C1: End-to-end delivery: what one side writes to a channel the other side reads from it. With both ends
  of a session in step and the channel registered on both, a write of \<open>d\<close> that fits the output queue, one
  turn of the write loop, one message read at the other end and one read of its channel return \<open>d\<close>,
  with any of the three ciphers.
\<close>
theorem end_to_end_delivery:
  assumes ok: "aes_ok aes" and sync: "synced (mcrypto A) (mcrypto B)" and v: "mversion A = mversion B"
    and inv: "mux_inv A" "mux_inv B" and regA: "map_of (mchannels A) cid = Some r" and regB: "map_of (mchannels B) cid = Some r'"
    and open_ends: "\<not> closing (mobjs A r)" "\<not> closing (mobjs B r')" "\<not> unhealthy (mobjs B r')"
    and idle: "order (mqueue A) = []" "sitems (input (mobjs B r')) = []"
    and d: "d \<noteq> []" "int (length d) + 32 \<le> out_max (mconf A)" "length d < 2 ^ 32" "length cid = 16"
    and room: "room 2 (mcrypto A)" and eof: "\<not> at_eof (mwriter A)"
  shows "\<exists>A1 k A2. with_channel r (write_no_wait d) A = (Inr (), A1) \<and> write_turn aes A1 = (Inr (Some k), A2) \<and>
    (\<forall>rb. pending rb = written_since A A2 \<longrightarrow>
      (\<exists>B1 rb'. mux_read_message aes (B, rb) = (Inr (), (B1, rb')) \<and> pending rb' = [] \<and>
        fst (with_channel r' read_chan B1) = Inr (ReadData d)))"
proof -
  let ?m = "make_message cid CHANNEL_FLOW_DATA d []"
  have chan: "channels (mqueue A) cid = Some r" using mux_invD(3) [OF inv(1) regA] by (auto simp: registered_ok_def open_channel_def)
  have empty: "contents (mqueue A) cid = []" using contents_not_ordered [OF mux_invD(1) [OF inv(1)]] idle(1) by simp
  have "mcq_size (mqueue A) cid = 0" using size_contents [OF mux_invD(1) [OF inv(1)]] empty by simp
  with write_accepted [OF inv(1) regA open_ends(1) d(1)] d(2) obtain A1 where
    A1: "with_channel r (write_no_wait d) A = (Inr (), A1)" "mux_inv A1" "mqueue A1 = q_put (mqueue A) cid r (Some ?m)"
    "mcrypto A1 = mcrypto A" "mversion A1 = mversion A" "mwriter A1 = mwriter A"
    by (auto simp: effective_size_def HEADER_SIZE_def)
  have q: "order (mqueue A1) = [cid]" "contents (mqueue A1) cid = [Some ?m]"
    using A1(3) order_q_put contents_q_put [OF mux_invD(1) [OF inv(1)] chan] empty idle(1) by (simp_all add: order_add_def)
  have wok: "wire_ok (mversion A1) (mcrypto A1) ?m"
    using d by (simp add: wire_ok_def encrypted_data_def flow_consts)
  from write_turn_sends [OF A1(2) q(1) _ wok, where aes = aes] q(2) room eof A1 obtain k A' A2 where
    A2: "mux_write aes ?m A' = (Inr k, A2)" "write_turn aes A1 = (Inr (Some k), A2)"
    "mcrypto A' = mcrypto A" "mversion A' = mversion A" "mwriter A' = mwriter A" by auto
  have "\<exists>B1 rb'. mux_read_message aes (B, rb) = (Inr (), (B1, rb')) \<and> pending rb' = [] \<and>
        fst (with_channel r' read_chan B1) = Inr (ReadData d)" if rb: "pending rb = written_since A A2" for rb
  proof -
    have "pending rb = written_since A' A2" using rb A2(5) by (simp add: written_since_def)
    from mux_read_written [OF ok _ _ _ A2(1) this] sync v wok A1(4,5) A2(3,4) obtain m' c rb' where
      m': "sees ?m m'" "pending rb' = []"
      "mux_read_message aes (B, rb) = (case dispatch aes m' (B\<lparr>mcrypto := c\<rparr>) of (y, M) \<Rightarrow> (y, (M, rb')))"
      by (simp, blast)
    have f: "flow_type m' = CHANNEL_FLOW_DATA" "mid m' = cid" "mdata m' = d" using m'(1) by (auto simp: sees_def)
    have invB: "mux_inv (B\<lparr>mcrypto := c\<rparr>)" using inv(2) by simp
    from data_dispatched [OF invB f(1), of r' aes] f(2) regB open_ends(2,3) obtain B1 where
      B1: "dispatch aes m' (B\<lparr>mcrypto := c\<rparr>) = (Inr (), B1)" "mchannels B1 = mchannels B"
      "input (mobjs B1 r') = scq_put (Some m') (input (mobjs B r'))" by auto
    have "mux_inv B1" using mux_inv_dispatch [OF invB, of aes m'] B1(1) by simp
    from read_delivers [OF this, of cid r' m' "[]"] B1 regB idle(2) f(3) m' show ?thesis by simp
  qed
  with A1(1) A2(2) show ?thesis by blast
qed

section \<open>Writing and the contents of the queue\<close>

abbreviation data_message :: "channel_id \<Rightarrow> bytes \<Rightarrow> message" where
  "data_message cid d \<equiv> make_message cid CHANNEL_FLOW_DATA d []"

lemma data_messages_inj:
  "map (\<lambda>d. Some (data_message c d)) xs = map (\<lambda>d. Some (data_message c d)) ys \<Longrightarrow> xs = ys"
  by (rule map_injective) (auto intro!: injI)

lemma registered_facts:
  assumes "mux_inv M" and "map_of (mchannels M) cid = Some r"
  shows "mcq_inv (mqueue M)" "chid (mobjs M r) = cid" "channels (mqueue M) cid = Some r"
  using mux_invD(1,3) [OF assms(1)] assms(2) by (auto simp: registered_ok_def open_channel_def)

lemma with_channel_fields:
  "with_channel r f M = (x, M') \<Longrightarrow> f (mqueue M, mobjs M r) = (x, (mqueue M', mobjs M' r))"
  by (auto simp: with_channel_def split: prod.splits)

lemma put_loop_contents:
  assumes "mcq_inv q" and "channels q cid = Some r" and "put_loop q cid r m = (x, q')"
  shows "contents q' cid = contents q cid @ (case x of PutDone \<Rightarrow> [m] | PutWaits _ _ \<Rightarrow> [])"
    and "\<And>f k. x = PutWaits f k \<Longrightarrow> k = r"
proof -
  have "contents q' cid = contents q cid" if "over_limit q r m"
    using that assms(2,3) by (auto simp: put_loop_def contents_def)
  then show "contents q' cid = contents q cid @ (case x of PutDone \<Rightarrow> [m] | PutWaits _ _ \<Rightarrow> [])"
    using assms contents_q_put [OF assms(1,2), of m] by (cases "over_limit q r m") (auto simp: put_loop_def)
  show "\<And>f k. x = PutWaits f k \<Longrightarrow> k = r" using assms(3) by (auto simp: put_loop_def split: if_splits)
qed

text \<open>One call of \<open>write\<close>: the message is queued, or it waits and is kept.\<close>

lemma write_start_contents:
  assumes "mcq_inv q" and "channels q (chid c) = Some r" and "write_start d (q, c) = (Inr x, (q', c'))"
  shows "d \<noteq> [] \<and> contents q' (chid c) = contents q (chid c) @ (case x of WriteDone \<Rightarrow> [Some (data_message (chid c) d)] | _ \<Rightarrow> []) \<and>
    (\<forall>m f k. x = WriteWaits m f k \<longrightarrow> m = data_message (chid c) d \<and> k = r) \<and> chid c' = chid c"
proof -
  obtain m where m: "make_message_or_raise c d = Inr m" "m = data_message (chid c) d" "d \<noteq> []"
    using assms(3) by (auto simp: write_start_def make_message_or_raise_def split: if_splits)
  show ?thesis
  proof (cases "over_limit q r (Some m)")
    case False
    with assms m contents_q_put [OF assms(1,2), of "Some m"] show ?thesis
      by (auto simp: write_start_def put_nowait_def)
  next
    case True
    obtain y q1 where l: "put_loop q (chid c) r (Some m) = (y, q1)" by fastforce
    from True assms m l have "after_put (q, c) m (Inr y, q1) = (Inr x, (q', c'))"
      by (simp add: write_start_def put_nowait_def put_start_def)
    with put_loop_contents [OF assms(1,2) l] m show ?thesis
      by (cases y) (auto simp: after_put_def)
  qed
qed

lemma write_resume_contents:
  assumes "mcq_inv q" and "channels q (chid c) = Some r" and "write_resume m r (q, c) = (Inr x, (q', c'))"
  shows "contents q' (chid c) = contents q (chid c) @ (case x of WriteDone \<Rightarrow> [Some m] | _ \<Rightarrow> []) \<and>
    (\<forall>m' f k. x = WriteWaits m' f k \<longrightarrow> m' = m \<and> k = r) \<and> chid c' = chid c"
proof -
  obtain y q1 where l: "put_loop q (chid c) r (Some m) = (y, q1)" by fastforce
  with assms(3) have "after_put (q, c) m (Inr y, q1) = (Inr x, (q', c'))"
    by (simp add: write_resume_def put_resume_def)
  with put_loop_contents [OF assms(1,2) l] show ?thesis by (cases y) (auto simp: after_put_def)
qed

lemma write_start_accepted:
  assumes "mux_inv M" and "map_of (mchannels M) cid = Some r" and "\<not> closing (mobjs M r)" and "d \<noteq> []"
  shows "\<exists>x M'. with_channel r (write_start d) M = (Inr x, M')"
  using registered_facts [OF assms(1,2)] assms(3,4)
  by (auto simp: with_channel_def write_start_def make_message_or_raise_def put_nowait_def put_start_def after_put_def
    split: prod.split put_outcome.split)

section \<open>Witnesses\<close>

text \<open>Two ends of a session, and the server's end after it has accepted a channel.\<close>

definition demo_id :: channel_id where "demo_id = 3 # replicate 15 0"

definition demo_client :: mux where "demo_client = new_mux demo_config 2 (CBC [] [9] [5]) (\<lambda>_. 1) False"

definition demo_server :: mux where "demo_server = new_mux demo_config 2 (CBC [] [5] [9]) (\<lambda>_. 2) True"

definition demo_caller :: channel where
  "demo_caller = blank_channel\<lparr>chid := demo_id, chan_ip := IPv4Address 0x01020304, peer_version := 2\<rparr>"

definition demo_new :: message where
  "demo_new = (fst (init_new demo_caller (\<lambda>_. 7)))\<lparr>extra := replicate 11 0\<rparr>"

definition demo_open_mux :: mux where "demo_open_mux = snd (dispatch demo_aes demo_new demo_server)"

lemma demo_config_ok: "config_ok demo_config"
  by (simp add: config_ok_def demo_config_def)

lemma demo_server_inv: "mux_inv demo_server"
  unfolding demo_server_def by (rule mux_inv_new [OF demo_config_ok])

lemma demo_open_inv: "mux_inv demo_open_mux"
  unfolding demo_open_mux_def by (rule mux_inv_dispatch [OF demo_server_inv])

lemma demo_new_seen: "sees (fst (init_new demo_caller (\<lambda>_. 7))) demo_new"
  by (simp add: sees_def demo_new_def demo_caller_def init_new_def Let_def MIN_PROTOCOL_VERSION_FOR_ENCRYPTED_NEW_def
    split: prod.split)

lemma demo_open_channel: "map_of (mchannels demo_open_mux) demo_id = Some 0" "\<not> write_done demo_open_mux"
  by (simp_all add: demo_open_mux_def demo_new_def dispatch_def handle_new_def new_address_def new_channel_def
    create_channel_def demo_server_def new_mux_def new_mcq_def demo_caller_def init_new_def flow_consts register_def
    set_queue_def demo_id_def MIN_PROTOCOL_VERSION_FOR_ENCRYPTED_NEW_def Let_def lit_def slice_def
    ip_address_to_bytes_def split: prod.split)

theorem shutdown_closes_channels_witness:
  "map_of (mchannels demo_open_mux) demo_id = Some 0 \<and>
   (\<exists>M'. shutdown demo_open_mux = (Inr (), M') \<and> mchannels M' = [] \<and> closing (mobjs M' 0))"
  using shutdown_closes_channels [OF demo_open_inv demo_open_channel(2)] demo_open_channel(1) by blast

theorem registered_channel_alive_witness:
  "channels (mqueue demo_open_mux) demo_id = Some 0 \<and>
   fst (with_channel 0 (write_no_wait [1]) demo_open_mux) \<noteq> Inl RuntimeError"
proof -
  have "mux_reach demo_aes demo_server demo_open_mux"
    unfolding demo_open_mux_def by (rule reach_message [OF reach_start])
  from registered_channel_alive [OF demo_config_ok this [unfolded demo_server_def] demo_open_channel(1),
      of None "[1]"] show ?thesis by blast
qed

theorem ping_is_answered_witness:
  "\<exists>A1 B1 rb' A2 ra'. ping_start demo_aes demo_client = (Inr (), A1) \<and>
     mux_read_message demo_aes (demo_server, \<lparr>chunks = [written_since demo_client A1], ending = Eof\<rparr>) = (Inr (), (B1, rb')) \<and>
     mux_read_message demo_aes (A1, \<lparr>chunks = [written_since demo_server B1], ending = Eof\<rparr>) = (Inr (), (A2, ra')) \<and>
     \<not> mhealthy A1 \<and> mhealthy A2"
proof -
  have "synced (mcrypto demo_client) (mcrypto demo_server)" "synced (mcrypto demo_server) (mcrypto demo_client)"
    "mversion demo_client = mversion demo_server" "room 2 (mcrypto demo_client)" "room 2 (mcrypto demo_server)"
    "\<not> at_eof (mwriter demo_client)" "\<not> at_eof (mwriter demo_server)"
    by (simp_all add: demo_client_def demo_server_def new_mux_def room_def)
  from ping_is_answered [OF demo_aes_ok this] obtain A1 where p: "ping_start demo_aes demo_client = (Inr (), A1)"
    "\<not> mhealthy A1" and b: "\<And>rb. pending rb = written_since demo_client A1 \<Longrightarrow>
      (\<exists>B1 rb'. mux_read_message demo_aes (demo_server, rb) = (Inr (), (B1, rb')) \<and> pending rb' = [] \<and>
        (\<forall>ra. pending ra = written_since demo_server B1 \<longrightarrow>
          (\<exists>A2 ra'. mux_read_message demo_aes (A1, ra) = (Inr (), (A2, ra')) \<and> mhealthy A2 \<and> pending ra' = [] \<and>
             synced (mcrypto A2) (mcrypto B1) \<and> synced (mcrypto B1) (mcrypto A2))))" by blast
  have pend: "pending \<lparr>chunks = [x], ending = Eof\<rparr> = x" for x by (simp add: pending_def)
  from b [OF pend] p pend show ?thesis by blast
qed

definition demo_data :: "nat \<Rightarrow> message" where
  "demo_data n = make_message demo_id CHANNEL_FLOW_DATA (replicate n 0) []"

lemma demo_open_fresh: "\<not> closing (mobjs demo_open_mux 0)" "\<not> unhealthy (mobjs demo_open_mux 0)"
    "mid (demo_data n) = demo_id" "flow_type (demo_data n) = CHANNEL_FLOW_DATA"
  by (simp_all add: demo_open_mux_def demo_new_def dispatch_def handle_new_def new_address_def new_channel_def
    create_channel_def demo_server_def new_mux_def new_mcq_def demo_caller_def init_new_def flow_consts register_def
    set_queue_def demo_id_def MIN_PROTOCOL_VERSION_FOR_ENCRYPTED_NEW_def Let_def lit_def slice_def demo_data_def
    unhealthy_def scq_full_def new_scq_def qsize_def demo_config_def ip_address_to_bytes_def split: prod.split)

theorem data_goes_to_its_channel_witness:
  "\<exists>M'. dispatch demo_aes (demo_data 300) demo_open_mux = (Inr (), M') \<and>
     last (sitems (input (mobjs M' 0))) = Some (demo_data 300)"
proof -
  have "map_of (mchannels demo_open_mux) (mid (demo_data 300)) = Some 0"
    using demo_open_channel(1) by (simp add: demo_open_fresh)
  from data_goes_to_its_channel [OF demo_open_inv demo_open_fresh(4) this demo_open_fresh(1,2), of demo_aes]
  show ?thesis by auto
qed

definition demo_full_mux :: mux where "demo_full_mux = snd (dispatch demo_aes (demo_data 300) demo_open_mux)"

lemma demo_open_input: "input (mobjs demo_open_mux 0) = new_scq 300 40 80"
  by (simp add: demo_open_mux_def demo_new_def dispatch_def handle_new_def new_address_def new_channel_def
    create_channel_def demo_server_def new_mux_def new_mcq_def demo_caller_def init_new_def flow_consts register_def
    set_queue_def demo_id_def MIN_PROTOCOL_VERSION_FOR_ENCRYPTED_NEW_def Let_def lit_def slice_def
    demo_config_def ip_address_to_bytes_def split: prod.split)

lemma demo_full: "map_of (mchannels demo_full_mux) demo_id = Some 0" "\<not> closing (mobjs demo_full_mux 0)"
    "unhealthy (mobjs demo_full_mux 0)"
proof -
  have reg: "map_of (mchannels demo_open_mux) (mid (demo_data 300)) = Some 0"
    using demo_open_channel(1) by (simp add: demo_open_fresh)
  from data_dispatched [OF demo_open_inv demo_open_fresh(4) reg demo_open_fresh(1,2), of demo_aes]
  have f: "mchannels demo_full_mux = mchannels demo_open_mux" "\<not> closing (mobjs demo_full_mux 0)"
    "input (mobjs demo_full_mux 0) = scq_put (Some (demo_data 300)) (new_scq 300 40 80)"
    by (auto simp: demo_full_mux_def demo_open_input)
  from f demo_open_channel(1) show "map_of (mchannels demo_full_mux) demo_id = Some 0" "\<not> closing (mobjs demo_full_mux 0)"
    by simp_all
  show "unhealthy (mobjs demo_full_mux 0)" using f(3)
    by (simp add: unhealthy_def scq_full_def qsize_def new_scq_def effective_size_def demo_data_def HEADER_SIZE_def)
qed


text \<open>The server writes to the accepted channel; the client's end of it is accepted the same way.\<close>

definition demo_peer_mux :: mux where
  "demo_peer_mux = demo_open_mux\<lparr>mcrypto := CBC [] [9] [5], mentropy := (\<lambda>_. 1)\<rparr>"

lemma demo_idle: "order (mqueue demo_open_mux) = []" "sent (mwriter demo_open_mux) = []" "mconf demo_open_mux = demo_config"
    "mcrypto demo_open_mux = CBC [] [5] [9]" "\<not> at_eof (mwriter demo_open_mux)" "mversion demo_open_mux = 2"
  by (simp_all add: demo_open_mux_def demo_new_def dispatch_def handle_new_def new_address_def new_channel_def
    create_channel_def demo_server_def new_mux_def new_mcq_def demo_caller_def init_new_def flow_consts register_def
    set_queue_def demo_id_def MIN_PROTOCOL_VERSION_FOR_ENCRYPTED_NEW_def Let_def lit_def slice_def
    ip_address_to_bytes_def split: prod.split)

theorem end_to_end_delivery_witness:
  "\<exists>A1 k A2 B1 rb'. with_channel 0 (write_no_wait [1, 2, 3]) demo_open_mux = (Inr (), A1) \<and>
     write_turn demo_aes A1 = (Inr (Some k), A2) \<and>
     mux_read_message demo_aes (demo_peer_mux, \<lparr>chunks = [sent (mwriter A2)], ending = Eof\<rparr>) = (Inr (), (B1, rb')) \<and>
     fst (with_channel 0 read_chan B1) = Inr (ReadData [1, 2, 3])"
proof -
  have "synced (mcrypto demo_open_mux) (mcrypto demo_peer_mux)" "mversion demo_open_mux = mversion demo_peer_mux"
    "mux_inv demo_peer_mux" "map_of (mchannels demo_peer_mux) demo_id = Some 0"
    "\<not> closing (mobjs demo_peer_mux 0)" "\<not> unhealthy (mobjs demo_peer_mux 0)"
    "sitems (input (mobjs demo_peer_mux 0)) = []" "room 2 (mcrypto demo_open_mux)"
    using demo_open_inv demo_idle demo_open_channel demo_open_fresh(1,2) demo_open_input
    by (simp_all add: demo_peer_mux_def new_scq_def room_def)
  note P = this
  have "int (length [1, 2, 3 :: byte]) + 32 \<le> out_max (mconf demo_open_mux)" "length demo_id = 16"
    by (simp_all add: demo_idle demo_config_def demo_id_def)
  from end_to_end_delivery [OF demo_aes_ok P(1,2) demo_open_inv P(3) demo_open_channel(1) P(4) demo_open_fresh(1) P(5,6)
      demo_idle(1) P(7) _ this(1) _ this(2) P(8) demo_idle(5)]
  obtain A1 k A2 where "with_channel 0 (write_no_wait [1, 2, 3]) demo_open_mux = (Inr (), A1)"
    "write_turn demo_aes A1 = (Inr (Some k), A2)" and
    b: "\<And>rb. pending rb = written_since demo_open_mux A2 \<Longrightarrow>
      (\<exists>B1 rb'. mux_read_message demo_aes (demo_peer_mux, rb) = (Inr (), (B1, rb')) \<and> pending rb' = [] \<and>
        fst (with_channel 0 read_chan B1) = Inr (ReadData [1, 2, 3]))" by auto
  moreover have "pending \<lparr>chunks = [sent (mwriter A2)], ending = Eof\<rparr> = written_since demo_open_mux A2"
    by (simp add: pending_def written_since_def demo_idle)
  ultimately show ?thesis by blast
qed

end
