(* ===== verification/PeerManager.thy ===== *)
theory PeerManager
  imports Core Text "HOL-Library.Countable"
begin

text \<open>
  Peers and their registry: \<^verbatim>\<open>snitun/server/peer.py\<close>, \<^verbatim>\<open>snitun/server/peer_manager.py\<close> and the tokens
  of \<^verbatim>\<open>snitun/utils/server.py\<close>. Peer objects live in a heap of references, because the registry
  compares them by identity; the dictionary \<open>_peers\<close> is an association list in insertion order.
  Points in time are integers. Fernet encryption comes from the \<open>cryptography\<close> package and is, with the
  JSON codec, a parameter.
\<close>

section \<open>Tokens\<close>

definition PROTOCOL_VERSION :: nat where "PROTOCOL_VERSION = 2"
definition DEFAULT_PROTOCOL_VERSION :: nat where "DEFAULT_PROTOCOL_VERSION = 0"

text \<open>A decoded token: a key that the JSON object may lack is an option.\<close>

record token_data =
  td_valid :: "int option"
  td_hostname :: "pystr option"
  td_aes_key :: "pystr option"
  td_aes_iv :: "pystr option"
  td_version :: "nat option"
  td_cipher :: "cipher_name option"
  td_alias :: "pystr list option"

record token_codec =
  fernet_encrypt :: "bytes \<Rightarrow> bytes"
  fernet_decrypt :: "bytes \<Rightarrow> bytes res"
  json_dumps :: "token_data \<Rightarrow> pystr"
  json_loads :: "pystr \<Rightarrow> token_data res"

text \<open>What the code relies on: decryption opens what encryption made, the JSON codec likewise, and its text is valid.\<close>

definition codec_ok :: "token_codec \<Rightarrow> bool" where
  "codec_ok k \<longleftrightarrow> (\<forall>d. fernet_decrypt k (fernet_encrypt k d) = Inr d) \<and>
     (\<forall>t. json_loads k (json_dumps k t) = Inr t \<and> (\<forall>c \<in> set (json_dumps k t). scalar c))"

definition generate_client_token ::
  "token_codec \<Rightarrow> int \<Rightarrow> int \<Rightarrow> pystr \<Rightarrow> bytes \<Rightarrow> bytes \<Rightarrow> cipher_name \<Rightarrow> bytes" where
  "generate_client_token k now valid_delta hostname aes_key aes_iv cipher =
     fernet_encrypt k (encode_utf8 (json_dumps k
       \<lparr>td_valid = Some (now + valid_delta), td_hostname = Some hostname,
        td_aes_key = Some (bytes_hex aes_key), td_aes_iv = Some (bytes_hex aes_iv),
        td_version = Some PROTOCOL_VERSION,
        td_cipher = (if cipher \<noteq> DEFAULT_CIPHER then Some cipher else None), td_alias = None\<rparr>))"

section \<open>Peers\<close>

record peer =
  phost :: pystr
  pvalid :: int
  palias :: "pystr list"
  pmux :: "mux option"
  pcrypto :: crypto
  pversion :: nat

definition new_peer ::
  "aes \<Rightarrow> pystr \<Rightarrow> int \<Rightarrow> bytes \<Rightarrow> bytes \<Rightarrow> nat \<Rightarrow> cipher_name \<Rightarrow> pystr list option \<Rightarrow> peer res" where
  "new_peer aes hostname valid aes_key aes_iv version cipher alias =
     rbind (create_crypto_transport aes cipher aes_key aes_iv False) (\<lambda>c.
       Inr \<lparr>phost = hostname, pvalid = valid, palias = (case alias of None \<Rightarrow> [] | Some a \<Rightarrow> a),
            pmux = None, pcrypto = c, pversion = version\<rparr>)"

definition all_hostnames :: "peer \<Rightarrow> pystr list" where "all_hostnames p = phost p # palias p"

definition peer_is_connected :: "peer \<Rightarrow> bool" where
  "peer_is_connected p = (case pmux p of None \<Rightarrow> False | Some m \<Rightarrow> is_connected m)"

definition is_ready :: "peer \<Rightarrow> bool" where
  "is_ready p = (case pmux p of None \<Rightarrow> False | Some m \<Rightarrow> is_connected m)"

definition is_valid :: "int \<Rightarrow> peer \<Rightarrow> bool" where "is_valid now p \<longleftrightarrow> now < pvalid p"

text \<open>\<open>wait_disconnect\<close>: the future to wait for, done when the write task of the multiplexer is.\<close>

definition wait_disconnect :: "peer \<Rightarrow> bool res" where
  "wait_disconnect p = (case pmux p of None \<Rightarrow> Inl RuntimeError | Some m \<Rightarrow> Inr (write_done m))"

section \<open>The registry\<close>

datatype PeerManagerEvent = CONNECTED | DISCONNECTED

record manager =
  mpeers :: "(pystr \<times> nat) list"
  pobjs :: "nat \<Rightarrow> peer"
  pnext :: nat
  event_callback :: bool
  mevents :: "(nat \<times> PeerManagerEvent) list"

text \<open>References no peer was created for.\<close>

definition no_peer :: peer where
  "no_peer = \<lparr>phost = [], pvalid = 0, palias = [], pmux = None, pcrypto = GCMSIV [], pversion = 0\<rparr>"

definition new_manager :: "bool \<Rightarrow> manager" where
  "new_manager cb = \<lparr>mpeers = [], pobjs = (\<lambda>_. no_peer), pnext = 0, event_callback = cb, mevents = []\<rparr>"

definition connections :: "manager \<Rightarrow> nat" where "connections M = length (mpeers M)"

definition iter_peers :: "manager \<Rightarrow> nat list" where "iter_peers M = map snd (mpeers M)"

text \<open>\<^verbatim>\<open>config[key]\<close>.\<close>

definition item :: "'a option \<Rightarrow> 'a res" where
  "item x = (case x of None \<Rightarrow> Inl KeyError | Some v \<Rightarrow> Inr v)"

text \<open>\<^verbatim>\<open>except (InvalidToken, JSONDecodeError, UnicodeDecodeError)\<close>.\<close>

definition invalid_token :: "'a res \<Rightarrow> 'a res" where
  "invalid_token x =
     (case x of
        Inr v \<Rightarrow> Inr v
      | Inl e \<Rightarrow> (if catches InvalidToken e \<or> catches JSONDecodeError e \<or> catches UnicodeDecodeError e
                  then Inl SniTunInvalidPeer else Inl e))"

definition read_token :: "token_codec \<Rightarrow> bytes \<Rightarrow> token_data res" where
  "read_token k fernet_data =
     invalid_token (rbind (fernet_decrypt k fernet_data) (\<lambda>d. rbind (decode_utf8 d) (json_loads k)))"

definition unsupported_cipher :: "'a res \<Rightarrow> 'a res" where
  "unsupported_cipher x =
     (case x of Inr v \<Rightarrow> Inr v
      | Inl e \<Rightarrow> (if catches MultiplexerTransportError e then Inl SniTunInvalidPeer else Inl e))"

definition create_peer :: "aes \<Rightarrow> token_codec \<Rightarrow> int \<Rightarrow> bytes \<Rightarrow> peer res" where
  "create_peer aes k now fernet_data =
     rbind (read_token k fernet_data) (\<lambda>config.
     rbind (item (td_valid config)) (\<lambda>valid.
     if valid < now then Inl SniTunInvalidPeer
     else rbind (item (td_hostname config)) (\<lambda>hostname.
          rbind (rbind (item (td_aes_key config)) bytes_fromhex) (\<lambda>aes_key.
          rbind (rbind (item (td_aes_iv config)) bytes_fromhex) (\<lambda>aes_iv.
          unsupported_cipher (new_peer aes hostname valid aes_key aes_iv
            (case td_version config of None \<Rightarrow> 0 | Some v \<Rightarrow> v)
            (case td_cipher config of None \<Rightarrow> DEFAULT_CIPHER | Some c \<Rightarrow> c) (td_alias config)))))))"

text \<open>A new object on the heap.\<close>

definition alloc_peer :: "peer \<Rightarrow> manager \<Rightarrow> nat \<times> manager" where
  "alloc_peer p M = (pnext M, M\<lparr>pobjs := (pobjs M)(pnext M := p), pnext := pnext M + 1\<rparr>)"

definition peer_available :: "manager \<Rightarrow> pystr \<Rightarrow> bool" where
  "peer_available M h = (case map_of (mpeers M) h of Some r \<Rightarrow> is_ready (pobjs M r) | None \<Rightarrow> False)"

definition get_peer :: "manager \<Rightarrow> pystr \<Rightarrow> nat option" where "get_peer M h = map_of (mpeers M) h"

definition send_event :: "nat \<Rightarrow> PeerManagerEvent \<Rightarrow> manager \<Rightarrow> manager" where
  "send_event r e M = (if event_callback M then M\<lparr>mevents := mevents M @ [(r, e)]\<rparr> else M)"

text \<open>Shut down the multiplexer of a peer.\<close>

definition shutdown_peer :: "nat \<Rightarrow> manager \<Rightarrow> unit res \<times> manager" where
  "shutdown_peer r M =
     (case pmux (pobjs M r) of
        None \<Rightarrow> (Inr (), M)
      | Some m \<Rightarrow> (case shutdown m of (x, m') \<Rightarrow>
                     (x, M\<lparr>pobjs := (pobjs M)(r := (pobjs M r)\<lparr>pmux := Some m'\<rparr>)\<rparr>)))"

definition enter_peer :: "nat \<Rightarrow> manager \<Rightarrow> manager" where
  "enter_peer r M =
     M\<lparr>mpeers := fold (\<lambda>h ps. AList.update h r ps) (all_hostnames (pobjs M r)) (mpeers M)\<rparr>"

definition add_peer :: "nat \<Rightarrow> manager \<Rightarrow> unit res \<times> manager" where
  "add_peer r M =
     (case (if peer_available M (phost (pobjs M r))
            then shutdown_peer (the (map_of (mpeers M) (phost (pobjs M r)))) M else (Inr (), M)) of
        (Inl e, M1) \<Rightarrow> (Inl e, M1)
      | (Inr _, M1) \<Rightarrow> (Inr (), send_event r CONNECTED (enter_peer r M1)))"

definition remove_peer :: "nat \<Rightarrow> manager \<Rightarrow> manager" where
  "remove_peer r M =
     (if map_of (mpeers M) (phost (pobjs M r)) \<noteq> Some r then M
      else send_event r DISCONNECTED
             (M\<lparr>mpeers := fold AList.delete (all_hostnames (pobjs M r)) (mpeers M)\<rparr>))"

fun shutdown_peers :: "nat list \<Rightarrow> manager \<Rightarrow> unit res \<times> manager" where
  "shutdown_peers [] M = (Inr (), M)"
| "shutdown_peers (r # rs) M =
     (case (if peer_is_connected (pobjs M r) then shutdown_peer r M else (Inr (), M)) of
        (Inl e, M1) \<Rightarrow> (Inl e, M1)
      | (Inr _, M1) \<Rightarrow> shutdown_peers rs M1)"

text \<open>
  \<open>close_connections\<close> up to the wait: the peers whose end it waits for. The wait itself is bounded by
  the timeout and ends either way.
\<close>

definition close_connections :: "manager \<Rightarrow> bool list res \<times> manager" where
  "close_connections M =
     (case shutdown_peers (iter_peers M) M of
        (Inl e, M1) \<Rightarrow> (Inl e, M1)
      | (Inr _, M1) \<Rightarrow>
          (foldr (\<lambda>r xs. rbind (wait_disconnect (pobjs M1 r)) (\<lambda>x. rbind xs (\<lambda>ys. Inr (x # ys)))) (iter_peers M) (Inr []), M1))"

section \<open>Lookup after each operation\<close>

lemma map_of_fold_update:
  "map_of (fold (\<lambda>h ps. AList.update h r ps) hs ps) k = (if k \<in> set hs then Some r else map_of ps k)"
  by (induction hs arbitrary: ps) (auto simp: update_conv')

lemma map_of_fold_delete:
  "map_of (fold AList.delete hs ps) k = (if k \<in> set hs then None else map_of ps k)"
  by (induction hs arbitrary: ps) (auto simp: delete_conv')

lemma shutdown_peer_fields [simp]:
  "mpeers (snd (shutdown_peer r M)) = mpeers M" "pnext (snd (shutdown_peer r M)) = pnext M"
  "phost (pobjs (snd (shutdown_peer r M)) i) = phost (pobjs M i)"
  "palias (pobjs (snd (shutdown_peer r M)) i) = palias (pobjs M i)"
  "mevents (snd (shutdown_peer r M)) = mevents M" "event_callback (snd (shutdown_peer r M)) = event_callback M"
  by (auto simp: shutdown_peer_def split: option.split prod.split)

lemma all_hostnames_shutdown [simp]:
  "all_hostnames (pobjs (snd (shutdown_peer r M)) i) = all_hostnames (pobjs M i)"
  by (simp add: all_hostnames_def)

lemma send_event_fields [simp]:
  "mpeers (send_event r e M) = mpeers M" "pobjs (send_event r e M) = pobjs M" "pnext (send_event r e M) = pnext M"
  "event_callback (send_event r e M) = event_callback M"
  by (simp_all add: send_event_def)

lemma enter_peer_fields [simp]:
  "pobjs (enter_peer r M) = pobjs M" "pnext (enter_peer r M) = pnext M"
  "event_callback (enter_peer r M) = event_callback M" "mevents (enter_peer r M) = mevents M"
  by (simp_all add: enter_peer_def)

text \<open>What \<open>add_peer\<close> does when the old multiplexer shuts down, which it always does when it is sound.\<close>

lemma add_peer_cases:
  assumes "add_peer r M = (x, M')"
  obtains (raised) e where "x = Inl e" and "mpeers M' = mpeers M" and "pnext M' = pnext M"
      and "\<And>i. all_hostnames (pobjs M' i) = all_hostnames (pobjs M i)" and "mevents M' = mevents M"
      and "event_callback M' = event_callback M"
  | (added) M1 where "x = Inr ()" and "M' = send_event r CONNECTED (enter_peer r M1)" and "mpeers M1 = mpeers M"
      and "pnext M1 = pnext M" and "\<And>i. all_hostnames (pobjs M1 i) = all_hostnames (pobjs M i)"
      and "mevents M1 = mevents M" and "event_callback M1 = event_callback M"
proof -
  let ?old = "the (map_of (mpeers M) (phost (pobjs M r)))"
  obtain y M1 where s: "(if peer_available M (phost (pobjs M r)) then shutdown_peer ?old M else (Inr (), M)) = (y, M1)"
    by fastforce
  then have "M1 = M \<or> M1 = snd (shutdown_peer ?old M)" by (metis snd_conv)
  then have f: "mpeers M1 = mpeers M" "pnext M1 = pnext M" "mevents M1 = mevents M" "event_callback M1 = event_callback M"
    "\<And>i. all_hostnames (pobjs M1 i) = all_hostnames (pobjs M i)" by auto
  from assms s f that show ?thesis by (cases y) (auto simp: add_peer_def)
qed

lemma get_peer_added:
  assumes "add_peer r M = (Inr (), M')"
  shows "get_peer M' h = (if h \<in> set (all_hostnames (pobjs M r)) then Some r else get_peer M h)"
  using assms by (rule add_peer_cases) (auto simp: get_peer_def enter_peer_def map_of_fold_update)

lemma get_peer_removed:
  "get_peer (remove_peer r M) h =
     (if get_peer M (phost (pobjs M r)) = Some r \<and> h \<in> set (all_hostnames (pobjs M r)) then None else get_peer M h)"
  by (simp add: remove_peer_def get_peer_def map_of_fold_delete)

section \<open>Reachable registries\<close>

text \<open>New peers, peers whose multiplexer starts or changes, and the operations of the registry, in any order.\<close>

inductive man_step :: "manager \<Rightarrow> manager \<Rightarrow> bool" where
  man_create: "man_step M (snd (alloc_peer p M))"
| man_mux: "man_step M (M\<lparr>pobjs := (pobjs M)(r := (pobjs M r)\<lparr>pmux := m\<rparr>)\<rparr>)"
| man_add: "r < pnext M \<Longrightarrow> man_step M (snd (add_peer r M))"
| man_remove: "r < pnext M \<Longrightarrow> man_step M (remove_peer r M)"
| man_shutdown: "man_step M (snd (shutdown_peer r M))"

inductive_cases man_stepE: "man_step M M'"

lemma reach_create: "man_step\<^sup>*\<^sup>* M0 M \<Longrightarrow> man_step\<^sup>*\<^sup>* M0 (snd (alloc_peer p M))"
  by (rule rtranclp.rtrancl_into_rtrancl) (auto intro: man_create)

lemma reach_add: "man_step\<^sup>*\<^sup>* M0 M \<Longrightarrow> r < pnext M \<Longrightarrow> man_step\<^sup>*\<^sup>* M0 (snd (add_peer r M))"
  by (rule rtranclp.rtrancl_into_rtrancl) (auto intro: man_add)

lemma reach_remove: "man_step\<^sup>*\<^sup>* M0 M \<Longrightarrow> r < pnext M \<Longrightarrow> man_step\<^sup>*\<^sup>* M0 (remove_peer r M)"
  by (rule rtranclp.rtrancl_into_rtrancl) (auto intro: man_remove)

definition route_ok :: "manager \<Rightarrow> bool" where
  "route_ok M \<longleftrightarrow> (\<forall>h r. get_peer M h = Some r \<longrightarrow> r < pnext M \<and> h \<in> set (all_hostnames (pobjs M r)))"

lemma route_ok_add: "route_ok M \<Longrightarrow> r < pnext M \<Longrightarrow> route_ok (snd (add_peer r M))"
proof -
  assume ok: "route_ok M" and r: "r < pnext M"
  obtain x M' where a: "add_peer r M = (x, M')" by fastforce
  then show ?thesis
  proof (rule add_peer_cases)
    fix e assume "x = Inl e" and f: "mpeers M' = mpeers M" "pnext M' = pnext M"
      "\<And>i. all_hostnames (pobjs M' i) = all_hostnames (pobjs M i)"
    then show ?thesis using ok a by (simp add: route_ok_def get_peer_def)
  next
    fix M1 assume "x = Inr ()" and M': "M' = send_event r CONNECTED (enter_peer r M1)" and f: "mpeers M1 = mpeers M"
      "pnext M1 = pnext M" "\<And>i. all_hostnames (pobjs M1 i) = all_hostnames (pobjs M i)"
    with a have "add_peer r M = (Inr (), M')" by simp
    from get_peer_added [OF this] ok r M' f a show ?thesis by (auto simp: route_ok_def split: if_splits)
  qed
qed

lemma route_ok_step: "man_step M M' \<Longrightarrow> route_ok M \<Longrightarrow> route_ok M'"
proof (induction rule: man_step.induct)
  case (man_create M p)
  then show ?case by (fastforce simp: route_ok_def alloc_peer_def get_peer_def)
next
  case (man_mux M r m)
  then show ?case by (auto simp: route_ok_def get_peer_def all_hostnames_def)
next
  case (man_add r M)
  then show ?case by (simp add: route_ok_add)
next
  case (man_remove r M)
  have "pobjs (remove_peer r M) = pobjs M" "pnext (remove_peer r M) = pnext M" by (simp_all add: remove_peer_def)
  with man_remove show ?case by (simp add: route_ok_def get_peer_removed)
next
  case (man_shutdown M r)
  then show ?case by (simp add: route_ok_def get_peer_def)
qed

lemma route_ok_new [simp]: "route_ok (new_manager cb)"
  by (simp add: route_ok_def new_manager_def get_peer_def)

text \<open>
  C4: Traffic goes only to its own device: whatever peers connect, reconnect, overlap in their aliases and
  disconnect, a hostname is only ever routed to a peer whose authenticated token lists this hostname as
  its own or as an alias.
\<close>
theorem routing_sound:
  assumes "man_step\<^sup>*\<^sup>* (new_manager cb) M" and "get_peer M h = Some r"
  shows "h \<in> set (all_hostnames (pobjs M r))"
proof -
  have "route_ok M" using assms(1) by (induction rule: rtranclp_induct) (auto intro: route_ok_step)
  with assms(2) show ?thesis by (auto simp: route_ok_def)
qed

text \<open>
  C29: The newest connection of a device wins: adding a peer routes all its hostnames to it and changes no
  other route, an older connection of the same hostname that was ready is shut down, and when the
  older connection's handler ends later and removes its peer, nothing happens to the new one.
\<close>
theorem newest_connection_wins:
  assumes "add_peer r M = (Inr (), M')"
  shows "get_peer M' h = (if h \<in> set (all_hostnames (pobjs M r)) then Some r else get_peer M h) \<and>
    (\<forall>old. old \<noteq> r \<and> phost (pobjs M old) = phost (pobjs M r) \<longrightarrow>
       (get_peer M (phost (pobjs M r)) = Some old \<and> is_ready (pobjs M old) \<longrightarrow>
          pmux (pobjs M' old) = Some (snd (shutdown (the (pmux (pobjs M old)))))) \<and>
       remove_peer old M' = M')"
proof (intro conjI allI impI)
  show "get_peer M' h = (if h \<in> set (all_hostnames (pobjs M r)) then Some r else get_peer M h)"
    using get_peer_added [OF assms] .
  fix old assume o: "old \<noteq> r \<and> phost (pobjs M old) = phost (pobjs M r)"
  have "phost (pobjs M' old) = phost (pobjs M old)"
    using assms by (rule add_peer_cases) (auto simp: all_hostnames_def)
  with o get_peer_added [OF assms, of "phost (pobjs M r)"] show "remove_peer old M' = M'"
    by (simp add: remove_peer_def get_peer_def all_hostnames_def)
  assume "get_peer M (phost (pobjs M r)) = Some old \<and> is_ready (pobjs M old)"
  then show "pmux (pobjs M' old) = Some (snd (shutdown (the (pmux (pobjs M old)))))"
    using assms by (auto simp: add_peer_def peer_available_def get_peer_def shutdown_peer_def is_ready_def
      split: option.splits prod.splits sum.splits)
qed

text \<open>
  C39: Aliases outlive or lose their owner: when two peers list the same alias, removing the first one also
  removes the route of the alias to the second one; and when a device reconnects with fewer aliases, the
  dropped alias stays routed to the old, closed connection, since the old peer can no longer be removed.
\<close>
theorem alias_routes_lost_or_stale:
  assumes "get_peer M (phost (pobjs M r1)) = Some r1" and "x \<in> set (palias (pobjs M r1))"
    and "add_peer r2 M = (Inr (), M')" and "r2 \<noteq> r1"
  shows "(x \<in> set (palias (pobjs M r2)) \<and> phost (pobjs M r1) \<notin> set (all_hostnames (pobjs M r2)) \<longrightarrow>
      get_peer M' x = Some r2 \<and> get_peer (remove_peer r1 M') x = None) \<and>
    (get_peer M x = Some r1 \<and> phost (pobjs M r2) = phost (pobjs M r1) \<and> x \<notin> set (all_hostnames (pobjs M r2)) \<longrightarrow>
      get_peer (remove_peer r1 M') x = Some r1)"
proof -
  have h: "all_hostnames (pobjs M' i) = all_hostnames (pobjs M i)" for i
    using assms(3) by (rule add_peer_cases) auto
  then have "phost (pobjs M' r1) = phost (pobjs M r1)" by (metis all_hostnames_def list.inject)
  with assms h [of r1] show ?thesis
    by (auto simp: get_peer_removed get_peer_added [OF assms(3)] all_hostnames_def)
qed

text \<open>Two devices, one of which drops an alias when it reconnects.\<close>

definition demo_peer :: "nat \<Rightarrow> nat list \<Rightarrow> peer" where
  "demo_peer h as = no_peer\<lparr>phost := [h], palias := map (\<lambda>a. [a]) as\<rparr>"

definition demo_manager :: manager where
  "demo_manager = snd (add_peer 0 (snd (alloc_peer (demo_peer 1 []) (snd (alloc_peer (demo_peer 2 [9])
     (snd (alloc_peer (demo_peer 1 [9]) (new_manager True))))))))"

lemmas manager_eval = demo_manager_def demo_peer_def no_peer_def alloc_peer_def new_manager_def add_peer_def
  peer_available_def is_ready_def enter_peer_def send_event_def all_hostnames_def get_peer_def remove_peer_def

theorem routing_sound_witness: "[9] \<in> set (all_hostnames (pobjs demo_manager 0))"
proof (rule routing_sound [of True])
  show "man_step\<^sup>*\<^sup>* (new_manager True) demo_manager"
    unfolding demo_manager_def
    by (intro reach_add reach_create rtranclp.rtrancl_refl) (simp add: alloc_peer_def new_manager_def)
  show "get_peer demo_manager [9] = Some 0" by (simp add: manager_eval)
qed

theorem newest_connection_wins_witness:
  "get_peer (snd (add_peer 2 demo_manager)) [1] = Some 2 \<and>
   remove_peer 0 (snd (add_peer 2 demo_manager)) = snd (add_peer 2 demo_manager)"
proof -
  have "add_peer 2 demo_manager = (Inr (), snd (add_peer 2 demo_manager))" by (simp add: manager_eval)
  from newest_connection_wins [OF this, of "[1]"] show ?thesis by (simp add: manager_eval)
qed

theorem alias_routes_lost_or_stale_witness:
  "get_peer (remove_peer 0 (snd (add_peer 1 demo_manager))) [9] = None \<and>
   get_peer (remove_peer 0 (snd (add_peer 2 demo_manager))) [9] = Some 0"
proof -
  have "add_peer r demo_manager = (Inr (), snd (add_peer r demo_manager))" for r by (simp add: manager_eval)
  note A = this
  have p: "get_peer demo_manager (phost (pobjs demo_manager 0)) = Some 0" "[9] \<in> set (palias (pobjs demo_manager 0))"
    by (simp_all add: manager_eval)
  from alias_routes_lost_or_stale [OF p A [of 1]] alias_routes_lost_or_stale [OF p A [of 2]]
  show ?thesis by (simp add: manager_eval)
qed

section \<open>Tokens\<close>

lemma create_peer_of_token:
  assumes "codec_ok k"
  shows "create_peer aes k t (generate_client_token k now delta hostname key iv cipher) =
    (if now + delta < t then Inl SniTunInvalidPeer
     else unsupported_cipher (new_peer aes hostname (now + delta) key iv PROTOCOL_VERSION cipher None))"
proof -
  have "read_token k (generate_client_token k now delta hostname key iv cipher) =
     Inr \<lparr>td_valid = Some (now + delta), td_hostname = Some hostname,
        td_aes_key = Some (bytes_hex key), td_aes_iv = Some (bytes_hex iv), td_version = Some PROTOCOL_VERSION,
        td_cipher = (if cipher \<noteq> DEFAULT_CIPHER then Some cipher else None), td_alias = None\<rparr>"
    using assms by (simp add: read_token_def generate_client_token_def codec_ok_def decode_encode_utf8 invalid_token_def)
  then show ?thesis by (simp add: create_peer_def item_def fromhex_hex)
qed

text \<open>
  A token carries a session: a peer created from a token that was issued for a device, before the token
  expires, has the device's hostname and protocol version 2, and its transport is in step in both
  directions with the one the device creates from the same cipher, key and IV; an expired token is
  refused.
\<close>
theorem token_opens_session:
  assumes "codec_ok k" and "create_crypto_transport aes cipher key iv True = Inr client"
    and "create_crypto_transport aes cipher key iv False = Inr server"
  shows "create_peer aes k t (generate_client_token k now delta hostname key iv cipher) =
      (if now + delta < t then Inl SniTunInvalidPeer
       else Inr \<lparr>phost = hostname, pvalid = now + delta, palias = [], pmux = None, pcrypto = server, pversion = 2\<rparr>) \<and>
    synced client server \<and> synced server client"
proof -
  have "synced client server \<and> synced server client"
    using endpoints_synced [OF assms(2,3)] by simp
  then show ?thesis using create_peer_of_token [OF assms(1)] assms(3)
    by (simp add: new_peer_def unsupported_cipher_def PROTOCOL_VERSION_def)
qed

text \<open>A step of \<open>create_peer\<close> that succeeds.\<close>

lemma accepted_simps:
  "invalid_token x = Inr v \<longleftrightarrow> x = Inr v" "unsupported_cipher x = Inr v \<longleftrightarrow> x = Inr v" "item y = Inr v \<longleftrightarrow> y = Some v"
  "new_peer aes h val key iv ver cip al = Inr p \<longleftrightarrow>
     (\<exists>c. create_crypto_transport aes cip key iv False = Inr c \<and>
       p = \<lparr>phost = h, pvalid = val, palias = (case al of None \<Rightarrow> [] | Some a \<Rightarrow> a), pmux = None, pcrypto = c, pversion = ver\<rparr>)"
  by (auto simp: invalid_token_def unsupported_cipher_def item_def new_peer_def rbind_eq_Inr split: sum.split option.split)

text \<open>
  No peer without a token: a peer exists only for data that Fernet authenticates under one of the
  server's keys and that decodes to a token which is not expired; its hostnames are the ones the token lists.
\<close>
theorem peer_needs_valid_token:
  assumes "create_peer aes k now fernet_data = Inr p"
  shows "\<exists>plain s0 config valid. fernet_decrypt k fernet_data = Inr plain \<and> decode_utf8 plain = Inr s0 \<and>
    json_loads k s0 = Inr config \<and> td_valid config = Some valid \<and> now \<le> valid \<and> pvalid p = valid \<and>
    td_hostname config = Some (phost p) \<and> palias p = (case td_alias config of None \<Rightarrow> [] | Some a \<Rightarrow> a)"
  using assms by (auto simp: create_peer_def read_token_def rbind_eq_Inr accepted_simps split: if_splits)

section \<open>A concrete codec\<close>

text \<open>For witnesses: tokens are numbered, and the number is written in decimal; encryption is the identity.\<close>

type_synonym flat_token =
  "int option \<times> pystr option \<times> pystr option \<times> pystr option \<times> nat option \<times> (nat + pystr) option \<times> pystr list option"

fun cipher_code :: "cipher_name \<Rightarrow> nat + pystr" where
  "cipher_code CIPHER_CBC = Inl 0"
| "cipher_code CIPHER_GCM = Inl 1"
| "cipher_code CIPHER_GCM_SIV = Inl 2"
| "cipher_code (OtherCipher s) = Inr s"

fun cipher_of :: "nat + pystr \<Rightarrow> cipher_name" where
  "cipher_of (Inl n) = (if n = 0 then CIPHER_CBC else if n = 1 then CIPHER_GCM else CIPHER_GCM_SIV)"
| "cipher_of (Inr s) = OtherCipher s"

lemma cipher_of_code [simp]: "cipher_of (cipher_code c) = c"
  by (cases c) simp_all

definition flat_of :: "token_data \<Rightarrow> flat_token" where
  "flat_of t = (td_valid t, td_hostname t, td_aes_key t, td_aes_iv t, td_version t, map_option cipher_code (td_cipher t), td_alias t)"

definition token_of :: "flat_token \<Rightarrow> token_data" where
  "token_of f = (case f of (v, h, k, i, n, c, a) \<Rightarrow>
     \<lparr>td_valid = v, td_hostname = h, td_aes_key = k, td_aes_iv = i, td_version = n, td_cipher = map_option cipher_of c, td_alias = a\<rparr>)"

lemma token_of_flat [simp]: "token_of (flat_of t) = t"
  by (simp add: token_of_def flat_of_def option.map_comp comp_def option.map_ident)

definition demo_codec :: token_codec where
  "demo_codec = \<lparr>fernet_encrypt = (\<lambda>d. d), fernet_decrypt = (\<lambda>d. Inr d),
     json_dumps = (\<lambda>t. dec_str (to_nat (flat_of t))), json_loads = (\<lambda>s. Inr (token_of (from_nat (dec_value s))))\<rparr>"

lemma demo_codec_ok: "codec_ok demo_codec"
  using dec_str_digits by (fastforce simp: codec_ok_def demo_codec_def dec_value_str scalar_def is_digit_def)

theorem token_opens_session_witness:
  "create_peer demo_aes demo_codec 50 (generate_client_token demo_codec 10 100 [104, 97] (replicate 32 7) (replicate 16 8) CIPHER_GCM) =
     Inr \<lparr>phost = [104, 97], pvalid = 110, palias = [], pmux = None,
          pcrypto = GCM (replicate 32 7) [0, 0, 0, 1] 0, pversion = 2\<rparr>"
proof -
  have "create_crypto_transport demo_aes CIPHER_GCM (replicate 32 7) (replicate 16 8) True = Inr (GCM (replicate 32 7) [0, 0, 0, 0] 0)"
    "create_crypto_transport demo_aes CIPHER_GCM (replicate 32 7) (replicate 16 8) False = Inr (GCM (replicate 32 7) [0, 0, 0, 1] 0)"
    by (simp_all add: create_crypto_transport_def new_gcm_def demo_aes_def GCM_PREFIX_SIZE_def to_bytes_be_4)
  from token_opens_session [OF demo_codec_ok this, of 50 10 100 "[104, 97]"] show ?thesis by simp
qed

definition demo_token :: bytes where
  "demo_token = generate_client_token demo_codec 10 100 [104, 97] (replicate 32 7) (replicate 16 8) CIPHER_GCM"

theorem peer_needs_valid_token_witness:
  "\<exists>plain s0 config. fernet_decrypt demo_codec demo_token = Inr plain \<and> decode_utf8 plain = Inr s0 \<and>
     json_loads demo_codec s0 = Inr config \<and> td_valid config = Some 110 \<and> td_hostname config = Some [104, 97]"
proof -
  have "create_peer demo_aes demo_codec 50 demo_token =
     Inr \<lparr>phost = [104, 97], pvalid = 110, palias = [], pmux = None,
          pcrypto = GCM (replicate 32 7) [0, 0, 0, 1] 0, pversion = 2\<rparr>"
    unfolding demo_token_def create_peer_of_token [OF demo_codec_ok]
    by (simp add: new_peer_def unsupported_cipher_def PROTOCOL_VERSION_def create_crypto_transport_def new_gcm_def
      demo_aes_def GCM_PREFIX_SIZE_def to_bytes_be_4)
  from peer_needs_valid_token [OF this] show ?thesis by auto
qed

end
