(* ===== verification/Handshake.thy ===== *)
theory Handshake
  imports PeerManager
begin

text \<open>
  How a session starts and ends: the challenge of \<^verbatim>\<open>snitun/server/peer.py\<close>, the connection handler of
  \<^verbatim>\<open>snitun/server/listener_peer.py\<close> and the client of \<^verbatim>\<open>snitun/client/client_peer.py\<close>. The hash
  function of \<open>hashlib\<close> is the parameter \<open>sha\<close>; what \<open>drain\<close> and \<open>open_connection\<close> do is an argument,
  since it depends on the network. A handler that waits for its peer is a value, and each wake-up is a step.
\<close>

section \<open>The challenge of the server\<close>

type_synonym sha256 = "bytes \<Rightarrow> bytes"

text \<open>A random token, encrypted: the token, the frame, and the state of the transport after it.\<close>

definition make_challenge :: "sha256 \<Rightarrow> aes \<Rightarrow> crypto \<Rightarrow> entropy \<Rightarrow> (bytes \<times> bytes) res \<times> crypto \<times> entropy" where
  "make_challenge sha aes c ent =
     (case urandom 40 ent of (seed, ent1) \<Rightarrow>
        case encrypt aes c ent1 (sha seed) of
          (Inl e, c1, ent2) \<Rightarrow> (Inl e, c1, ent2)
        | (Inr f, c1, ent2) \<Rightarrow> (Inr (sha seed, f), c1, ent2))"

definition check_answer :: "sha256 \<Rightarrow> aes \<Rightarrow> bytes \<Rightarrow> crypto \<Rightarrow> reader \<Rightarrow> unit res \<times> crypto \<times> reader" where
  "check_answer sha aes token c r =
     (case readexactly (32 + overhead c) r of
        (Inl e, r1) \<Rightarrow> (Inl e, c, r1)
      | (Inr data, r1) \<Rightarrow>
          (case decrypt aes c data of
             (Inl e, c1) \<Rightarrow> (Inl e, c1, r1)
           | (Inr d, c1) \<Rightarrow> (if sha token = d then Inr () else Inl AssertionError, c1, r1)))"

text \<open>The \<^verbatim>\<open>except\<close> clause around the challenge.\<close>

definition challenge_error :: "exn \<Rightarrow> exn" where
  "challenge_error e =
     (if catches TimeoutError e \<or> catches IncompleteReadError e \<or> catches MultiplexerTransportDecrypt e \<or>
         catches AssertionError e \<or> catches OSError e
      then SniTunChallengeError else e)"

record conn =
  crd :: reader
  cwr :: writer
  cclosed :: bool

definition init_multiplexer_challenge ::
    "sha256 \<Rightarrow> aes \<Rightarrow> config \<Rightarrow> unit res \<Rightarrow> peer \<Rightarrow> entropy \<Rightarrow> conn \<Rightarrow> unit res \<times> peer \<times> entropy \<times> conn" where
  "init_multiplexer_challenge sha aes cfg drained p ent k =
     (case make_challenge sha aes (pcrypto p) ent of
        (Inl e, c1, ent1) \<Rightarrow> (Inl (challenge_error e), p\<lparr>pcrypto := c1\<rparr>, ent1, k)
      | (Inr (token, f), c1, ent1) \<Rightarrow>
          (case writer_write f (cwr k) of
             Inl e \<Rightarrow> (Inl (challenge_error e), p\<lparr>pcrypto := c1\<rparr>, ent1, k)
           | Inr w \<Rightarrow>
               (case drained of
                  Inl e \<Rightarrow> (Inl (challenge_error e), p\<lparr>pcrypto := c1\<rparr>, ent1, k\<lparr>cwr := w\<rparr>)
                | Inr _ \<Rightarrow>
                    (case check_answer sha aes token c1 (crd k) of
                       (Inl e, c2, r) \<Rightarrow> (Inl (challenge_error e), p\<lparr>pcrypto := c2\<rparr>, ent1, k\<lparr>cwr := w, crd := r\<rparr>)
                     | (Inr _, c2, r) \<Rightarrow>
                         (Inr (), p\<lparr>pcrypto := c2, pmux := Some (new_mux cfg (pversion p) c2 ent1 False)\<rparr>,
                          ent1, k\<lparr>cwr := w, crd := r\<rparr>)))))"

section \<open>The connection handler of the server\<close>

datatype auth_metric = AuthStarted | AuthSuccess | AuthInvalidToken | AuthChallengeFailed

text \<open>A handler has returned, has raised, or waits for the end of the peer it registered.\<close>

datatype handling = Returned | Raised exn | Serving nat

record server_state =
  sman :: manager
  has_metrics :: bool
  sent_metrics :: "auth_metric list"
  sentropy :: entropy

definition metric :: "auth_metric \<Rightarrow> server_state \<Rightarrow> server_state" where
  "metric a S = (if has_metrics S then S\<lparr>sent_metrics := sent_metrics S @ [a]\<rparr> else S)"

text \<open>The two \<^verbatim>\<open>except\<close> clauses and the \<^verbatim>\<open>finally\<close> block.\<close>

definition handle_error :: "exn \<Rightarrow> server_state \<Rightarrow> handling \<times> server_state" where
  "handle_error e S =
     (if catches SniTunInvalidPeer e then (Returned, metric AuthInvalidToken S)
      else if catches SniTunChallengeError e then (Returned, metric AuthChallengeFailed S)
      else (Raised e, S))"

definition handle_finally :: "nat option \<Rightarrow> server_state \<times> conn \<Rightarrow> server_state \<times> conn" where
  "handle_finally peer s =
     (case s of (S, k) \<Rightarrow>
        (case peer of None \<Rightarrow> S | Some r \<Rightarrow> S\<lparr>sman := remove_peer r (sman S)\<rparr>, k\<lparr>cclosed := True\<rparr>))"

definition handle_failed :: "nat option \<Rightarrow> exn \<Rightarrow> server_state \<times> conn \<Rightarrow> handling \<times> server_state \<times> conn" where
  "handle_failed peer e s =
     (case s of (S, k) \<Rightarrow> case handle_error e S of (h, S1) \<Rightarrow> (h, handle_finally peer (S1, k)))"

text \<open>The loop condition, evaluated when the peer was added and after every wake-up.\<close>

definition serve :: "nat \<Rightarrow> server_state \<times> conn \<Rightarrow> handling \<times> server_state \<times> conn" where
  "serve r s =
     (if peer_is_connected (pobjs (sman (fst s)) r) then (Serving r, s) else (Returned, handle_finally (Some r) s))"

definition handle_token ::
    "sha256 \<Rightarrow> aes \<Rightarrow> token_codec \<Rightarrow> config \<Rightarrow> int \<Rightarrow> unit res \<Rightarrow> bytes \<Rightarrow> server_state \<times> conn \<Rightarrow>
     handling \<times> server_state \<times> conn" where
  "handle_token sha aes codec cfg now drained fernet_data s =
     (case s of (S, k) \<Rightarrow>
        if fernet_data = [] then (Returned, handle_finally None s)
        else let S = metric AuthStarted S in
          case create_peer aes codec now fernet_data of
            Inl e \<Rightarrow> handle_failed None e (S, k)
          | Inr p \<Rightarrow>
              (case alloc_peer p (sman S) of (r, M) \<Rightarrow>
                 case init_multiplexer_challenge sha aes cfg drained p (sentropy S) k of
                   (x, p1, ent1, k1) \<Rightarrow>
                     let S = S\<lparr>sman := M\<lparr>pobjs := (pobjs M)(r := p1)\<rparr>, sentropy := ent1\<rparr> in
                     (case x of
                        Inl e \<Rightarrow> handle_failed (Some r) e (S, k1)
                      | Inr _ \<Rightarrow>
                          (case add_peer r (sman S) of
                             (Inl e, M2) \<Rightarrow> handle_failed (Some r) e (metric AuthSuccess (S\<lparr>sman := M2\<rparr>), k1)
                           | (Inr _, M2) \<Rightarrow> serve r (metric AuthSuccess (S\<lparr>sman := M2\<rparr>), k1)))))"

definition handle_connection ::
    "sha256 \<Rightarrow> aes \<Rightarrow> token_codec \<Rightarrow> config \<Rightarrow> int \<Rightarrow> unit res \<Rightarrow> bytes option \<Rightarrow> server_state \<times> conn \<Rightarrow>
     handling \<times> server_state \<times> conn" where
  "handle_connection sha aes codec cfg now drained data s =
     (let d = (case data of None \<Rightarrow> [] | Some d \<Rightarrow> d) in
      if d \<noteq> [] then handle_token sha aes codec cfg now drained d s
      else case s of (S, k) \<Rightarrow>
        case read 2048 (crd k) of
          (Inl e, r) \<Rightarrow>
            (if catches TimeoutError e then (Returned, S, k\<lparr>crd := r, cclosed := True\<rparr>)
             else if catches OSError e then (Returned, S, k\<lparr>crd := r\<rparr>) else (Raised e, S, k\<lparr>crd := r\<rparr>))
        | (Inr fernet_data, r) \<Rightarrow> handle_token sha aes codec cfg now drained fernet_data (S, k\<lparr>crd := r\<rparr>))"

definition CHECK_VALID_EXPIRE :: int where "CHECK_VALID_EXPIRE = 14400"

text \<open>A wake-up of the waiting handler: the write task ended, or the wait timed out at the time \<open>now\<close>.\<close>

datatype wakeup = Disconnected | Expired int

fun serve_turn :: "nat \<Rightarrow> wakeup \<Rightarrow> server_state \<times> conn \<Rightarrow> handling \<times> server_state \<times> conn" where
  "serve_turn r Disconnected s = serve r s"
| "serve_turn r (Expired now) s =
     (if \<not> is_valid now (pobjs (sman (fst s)) r) then (Returned, handle_finally (Some r) s) else serve r s)"

section \<open>The client\<close>

text \<open>\<open>handler_task\<close>: none, or a task and whether it is done.\<close>

record client =
  cmux :: "mux option"
  handler_task :: "bool option"

definition new_client :: client where "new_client = \<lparr>cmux = None, handler_task = None\<rparr>"

definition client_is_connected :: "client \<Rightarrow> bool" where "client_is_connected C \<longleftrightarrow> cmux C \<noteq> None"

definition client_wait :: "client \<Rightarrow> bool res" where
  "client_wait C = (case (cmux C, handler_task C) of (Some _, Some d) \<Rightarrow> Inr d | _ \<Rightarrow> Inl RuntimeError)"

text \<open>The answer to the challenge, up to the \<open>drain\<close>.\<close>

definition answer_challenge ::
    "sha256 \<Rightarrow> aes \<Rightarrow> crypto \<Rightarrow> entropy \<Rightarrow> conn \<Rightarrow> unit res \<times> crypto \<times> entropy \<times> conn" where
  "answer_challenge sha aes c ent k =
     (case readexactly (32 + overhead c) (crd k) of
        (Inl e, r) \<Rightarrow> (Inl e, c, ent, k\<lparr>crd := r\<rparr>)
      | (Inr challenge, r) \<Rightarrow>
          (case decrypt aes c challenge of
             (Inl e, c1) \<Rightarrow> (Inl e, c1, ent, k\<lparr>crd := r\<rparr>)
           | (Inr d, c1) \<Rightarrow>
               (case encrypt aes c1 ent (sha d) of
                  (Inl e, c2, ent2) \<Rightarrow> (Inl e, c2, ent2, k\<lparr>crd := r\<rparr>)
                | (Inr f, c2, ent2) \<Rightarrow>
                    (case writer_write f (cwr k) of
                       Inl e \<Rightarrow> (Inl e, c2, ent2, k\<lparr>crd := r\<rparr>)
                     | Inr w \<Rightarrow> (Inr (), c2, ent2, k\<lparr>crd := r, cwr := w\<rparr>)))))"

definition connection_error :: "exn list \<Rightarrow> exn \<Rightarrow> exn" where
  "connection_error caught e = (if \<exists>c \<in> set caught. catches c e then SniTunConnectionError else e)"

record client_args =
  ca_token :: bytes
  ca_key :: bytes
  ca_iv :: bytes
  ca_version :: nat
  ca_cipher :: cipher_name

text \<open>What the network does to the client: the connection, and the two \<open>drain\<close> calls.\<close>

record client_net =
  cn_open :: "conn res"
  cn_drain1 :: "unit res"
  cn_drain2 :: "unit res"

definition client_start ::
    "sha256 \<Rightarrow> aes \<Rightarrow> config \<Rightarrow> client_args \<Rightarrow> client_net \<Rightarrow> entropy \<Rightarrow> client \<Rightarrow> unit res \<times> client \<times> conn option" where
  "client_start sha aes cfg a net ent C =
     (if cmux C \<noteq> None then (Inl RuntimeError, C, None)
      else case cn_open net of
        Inl e \<Rightarrow> (Inl (connection_error [TimeoutError, OSError] e), C, None)
      | Inr k0 \<Rightarrow>
          (case writer_write (ca_token a) (cwr k0) of
             Inl e \<Rightarrow> (Inl e, C, Some k0)
           | Inr w \<Rightarrow>
               let k = k0\<lparr>cwr := w\<rparr> in
               (case cn_drain1 net of
                  Inl e \<Rightarrow> (Inl (connection_error [TimeoutError] e), C, Some k)
                | Inr _ \<Rightarrow>
                    (case create_crypto_transport aes (ca_cipher a) (ca_key a) (ca_iv a) True of
                       Inl e \<Rightarrow> (Inl e, C, Some k)
                     | Inr c \<Rightarrow>
                         (case answer_challenge sha aes c ent k of (x, c1, ent1, k1) \<Rightarrow>
                            case rbind x (\<lambda>_. cn_drain2 net) of
                              Inl e \<Rightarrow>
                                (Inl (connection_error [TimeoutError, MultiplexerTransportDecrypt, IncompleteReadError, OSError] e),
                                 C, Some k1)
                            | Inr _ \<Rightarrow>
                                let C1 = C\<lparr>cmux := Some (new_mux cfg (ca_version a) c1 ent1 True)\<rparr> in
                                if handler_task C = Some False then (Inl AssertionError, C1, Some k1)
                                else (Inr (), C1\<lparr>handler_task := Some False\<rparr>, Some k1))))))"

text \<open>
  The handler task waits on the multiplexer for 50 seconds at a time and pings when the wait times out; it
  ends when the multiplexer is gone or the ping fails, and then forgets the multiplexer.
\<close>

datatype client_event = WriteTaskDone | WaitTimedOut | PongReceived | PingTimedOut

text \<open>A step of the handler: it goes on, or ends with an exception or without one.\<close>

datatype handler_state = HandlerRuns | HandlerEnds "exn option"

definition handler_finally :: "exn option \<Rightarrow> client \<Rightarrow> handler_state \<times> client" where
  "handler_finally x C =
     (case cmux C of
        None \<Rightarrow> (HandlerEnds x, C\<lparr>handler_task := Some True\<rparr>)
      | Some m \<Rightarrow>
          (case shutdown m of
             (Inl e, m1) \<Rightarrow> (HandlerEnds (Some e), C\<lparr>cmux := Some m1, handler_task := Some True\<rparr>)
           | (Inr _, m1) \<Rightarrow> (HandlerEnds x, C\<lparr>cmux := None, handler_task := Some True\<rparr>)))"

definition handler_raises :: "exn \<Rightarrow> client \<Rightarrow> handler_state \<times> client" where
  "handler_raises e C = handler_finally (if catches MultiplexerTransportError e then None else Some e) C"

definition handler_loop :: "client \<Rightarrow> handler_state \<times> client" where
  "handler_loop C =
     (case cmux C of
        None \<Rightarrow> handler_finally None C
      | Some m \<Rightarrow> if is_connected m then (HandlerRuns, C) else handler_finally None C)"

fun client_handler :: "aes \<Rightarrow> client_event \<Rightarrow> client \<Rightarrow> handler_state \<times> client" where
  "client_handler aes WriteTaskDone C = handler_loop C"
| "client_handler aes PongReceived C = handler_loop C"
| "client_handler aes WaitTimedOut C =
     (case cmux C of
        None \<Rightarrow> handler_loop C
      | Some m \<Rightarrow>
          (case ping_start aes m of
             (Inl e, m1) \<Rightarrow> handler_raises e (C\<lparr>cmux := Some m1\<rparr>)
           | (Inr _, m1) \<Rightarrow> (HandlerRuns, C\<lparr>cmux := Some m1\<rparr>)))"
| "client_handler aes PingTimedOut C =
     (case cmux C of
        None \<Rightarrow> handler_loop C
      | Some m \<Rightarrow> handler_raises MultiplexerTransportError (C\<lparr>cmux := Some (snd (ping_timeout m))\<rparr>))"

text \<open>\<open>_stop_handler\<close> cancels the task, whose \<^verbatim>\<open>finally\<close> block runs if it was still going.\<close>

definition stop_handler :: "client \<Rightarrow> unit res \<times> client" where
  "stop_handler C =
     (case handler_task C of
        None \<Rightarrow> (Inl AssertionError, C)
      | Some over \<Rightarrow>
          (let C1 = (if over then C else snd (handler_finally (Some CancelledError) C)) in
           (Inr (), C1\<lparr>handler_task := None\<rparr>)))"

definition client_stop :: "client \<Rightarrow> unit res \<times> client" where
  "client_stop C =
     (case cmux C of
        None \<Rightarrow> (Inl RuntimeError, C)
      | Some m \<Rightarrow>
          (case shutdown m of
             (Inl e, m1) \<Rightarrow> (Inl e, C\<lparr>cmux := Some m1\<rparr>)
           | (Inr _, m1) \<Rightarrow> stop_handler (C\<lparr>cmux := Some m1\<rparr>)))"

section \<open>Each side of the challenge\<close>

definition hash_ok :: "sha256 \<Rightarrow> bool" where "hash_ok sha \<longleftrightarrow> (\<forall>x. length (sha x) = 32)"

lemma aligned_hash: "hash_ok sha \<Longrightarrow> aligned c (sha x)"
  by (simp add: hash_ok_def aligned_def split: crypto.split)

lemma challenge_succeeds:
  assumes "init_multiplexer_challenge sha aes cfg drained p ent k = (Inr (), p1, ent1, k1)"
  obtains t f c1 answer c2 w r where "make_challenge sha aes (pcrypto p) ent = (Inr (t, f), c1, ent1)"
    and "writer_write f (cwr k) = Inr w" and "drained = Inr ()"
    and "readexactly (32 + overhead c1) (crd k) = (Inr answer, r)" and "decrypt aes c1 answer = (Inr (sha t), c2)"
    and "p1 = p\<lparr>pcrypto := c2, pmux := Some (new_mux cfg (pversion p) c2 ent1 False)\<rparr>" and "k1 = k\<lparr>cwr := w, crd := r\<rparr>"
  using assms
  by (auto simp: init_multiplexer_challenge_def check_answer_def split: prod.splits sum.splits if_splits)

lemma challenge_fails:
  assumes "init_multiplexer_challenge sha aes cfg drained p ent k = (Inl e, p1, ent1, k1)"
  shows "all_hostnames p1 = all_hostnames p \<and> pmux p1 = pmux p"
  using assms
  by (auto simp: init_multiplexer_challenge_def all_hostnames_def split: prod.splits sum.splits if_splits)

lemma encrypt_raises:
  assumes "encrypt aes c ent d = (Inl e, s)"
  shows "e = MultiplexerTransportError \<and> (\<exists>key pre n. c = GCM key pre n \<and> 2 ^ 64 \<le> n)"
proof (cases c)
  case (GCM key pre n)
  with assms have "\<not> n < 256 ^ 8" using next_nonce_gcm_total [of n pre] by auto
  with assms GCM next_nonce_gcm_exhausted [of n pre] show ?thesis by simp
qed (use assms in \<open>auto split: prod.splits\<close>)

text \<open>The exceptions of a challenge, when the transports work.\<close>

lemma challenge_exceptions:
  assumes "aes_ok aes" and "init_multiplexer_challenge sha aes cfg drained p ent k = (Inl e, p1, ent1, k1)"
    and "\<And>d. drained = Inl d \<Longrightarrow> catches OSError d" and "\<not> at_eof (cwr k)"
  shows "e = SniTunChallengeError \<or> (e = MultiplexerTransportError \<and> (\<exists>key pre n. pcrypto p = GCM key pre n \<and> 2 ^ 64 \<le> n))"
proof -
  have rd: "e' = IncompleteReadError \<or> e' = OSError \<or> e' = TimeoutError" if "readexactly n r = (Inl e', r')" for e' n r r'
    using that by (auto simp: readexactly_def split: if_splits stream_end.splits)
  have dec: "e' = MultiplexerTransportDecrypt" if "decrypt aes c d = (Inl e', c')" for e' c d c'
    using decrypt_raises [OF assms(1) that] .
  have "challenge_error e' = SniTunChallengeError" if "e' \<in> {IncompleteReadError, OSError, TimeoutError, MultiplexerTransportDecrypt, AssertionError}" for e'
    using that by (auto simp: challenge_error_def catches_def)
  moreover have "challenge_error MultiplexerTransportError = MultiplexerTransportError"
    by (simp add: challenge_error_def catches_def)
  moreover have "challenge_error d = SniTunChallengeError" if "drained = Inl d" for d
    using assms(3) [OF that] by (simp add: challenge_error_def)
  ultimately show ?thesis using assms(2,4) encrypt_raises rd dec
    by (auto simp: init_multiplexer_challenge_def make_challenge_def check_answer_def writer_write_def
      split: prod.splits sum.splits if_splits) blast+
qed

section \<open>Both sides together\<close>

lemma fresh_transport:
  assumes "create_crypto_transport aes cipher key iv b = Inr c"
  shows "room (Suc 0) c"
  using assms by (auto simp: create_crypto_transport_def new_gcm_def room_def split: if_splits)

lemma answer_fits:
  assumes "aes_ok aes" and "hash_ok sha" and "synced cc cs" and "synced cs cc" and "room (Suc 0) cc"
    and challenge: "make_challenge sha aes cs ent = (Inr (t, f), cs1, ent1)"
    and "pending (crd k) = f @ rest" and "\<not> at_eof (cwr k)"
  obtains g cc1 entc1 k1 cs2 where "answer_challenge sha aes cc entc k = (Inr (), cc1, entc1, k1)"
    and "cwr k1 = (cwr k)\<lparr>sent := sent (cwr k) @ g\<rparr>" and "pending (crd k1) = rest"
    and "length g = 32 + overhead cs1" and "decrypt aes cs1 g = (Inr (sha t), cs2)"
    and "synced cc1 cs2" and "synced cs2 cc1"
proof -
  obtain seed ent0 where u: "urandom 40 ent = (seed, ent0)" by fastforce
  with challenge have e: "encrypt aes cs ent0 (sha seed) = (Inr f, cs1, ent1)" and t: "t = sha seed"
    by (auto simp: make_challenge_def split: prod.splits sum.splits)
  from encrypt_decrypt [OF assms(1,4) aligned_hash [OF assms(2)] e] obtain cc0 where
    d: "decrypt aes cc f = (Inr t, cc0)" "synced cs1 cc0" "length f = 32 + overhead cs"
    using assms(2) t by (auto simp: hash_ok_def)
  have o: "overhead cs = overhead cc" using synced_overhead [OF assms(4)] .
  from readexactly_append [OF assms(7)] d(3) o obtain r where
    r: "readexactly (32 + overhead cc) (crd k) = (Inr f, r)" "pending r = rest" by auto
  have s0: "synced cc0 cs1" using decrypt_keeps_sending [OF d(1)] encrypt_keeps_receiving [OF e] assms(3) by blast
  have "room (Suc 0) cc0" using assms(5) d(1) by (cases cc) (auto simp: room_def split: prod.splits)
  from encrypt_total [OF this] obtain g cc1 entc1 where g: "encrypt aes cc0 entc (sha t) = (Inr g, cc1, entc1)" by blast
  from encrypt_decrypt [OF assms(1) s0 aligned_hash [OF assms(2)] g] obtain cs2 where
    h: "decrypt aes cs1 g = (Inr (sha t), cs2)" "synced cc1 cs2" "length g = 32 + overhead cc0"
    using assms(2) by (auto simp: hash_ok_def)
  have "overhead cc0 = overhead cs1" using synced_overhead [OF s0] .
  moreover have "synced cs2 cc1" using decrypt_keeps_sending [OF h(1)] encrypt_keeps_receiving [OF g] d(2) by blast
  moreover have "answer_challenge sha aes cc entc k =
      (Inr (), cc1, entc1, k\<lparr>crd := r, cwr := (cwr k)\<lparr>sent := sent (cwr k) @ g\<rparr>\<rparr>)"
    using r d(1) g assms(8) by (simp add: answer_challenge_def writer_write_def)
  ultimately show thesis using that h r(2) by simp
qed

definition muxes_ok :: "manager \<Rightarrow> bool" where
  "muxes_ok M \<longleftrightarrow> (\<forall>r m. pmux (pobjs M r) = Some m \<longrightarrow> mux_inv m)"

lemma shutdown_ok: "mux_inv m \<Longrightarrow> \<exists>m'. shutdown m = (Inr (), m') \<and> mux_inv m'"
  using graceful_ok [of "m\<lparr>write_cancelled := True\<rparr>"] by (auto simp: shutdown_def)

lemma add_peer_total: "muxes_ok M \<Longrightarrow> fst (add_peer r M) = Inr ()"
  using shutdown_ok by (auto simp: add_peer_def shutdown_peer_def muxes_ok_def split: option.split prod.split sum.split)
    (metis Inl_Inr_False fst_conv)

text \<open>A new peer whose hostname is not the one that is shut down keeps its multiplexer.\<close>

lemma add_peer_keeps_mux:
  assumes "get_peer M (phost (pobjs M r)) \<noteq> Some r"
  shows "pobjs (snd (add_peer r M)) r = pobjs M r"
  using assms by (auto simp: add_peer_def shutdown_peer_def get_peer_def peer_available_def
    split: option.split prod.split sum.split)

text \<open>The registry in which the new peer \<open>p\<close> is an object but not routed yet.\<close>

definition with_peer :: "peer \<Rightarrow> manager \<Rightarrow> manager" where
  "with_peer p M = M\<lparr>pnext := pnext M + 1, pobjs := (pobjs M)(pnext M := p)\<rparr>"

lemma with_peer_simps [simp]:
  "get_peer (with_peer p M) = get_peer M" "pnext (with_peer p M) = pnext M + 1"
  "pobjs (with_peer p M) = (pobjs M)(pnext M := p)"
  by (simp_all add: with_peer_def get_peer_def fun_eq_iff)

lemma metric_sman [simp]: "sman (metric a S) = sman S" "sentropy (metric a S) = sentropy S"
  by (simp_all add: metric_def)

lemma handle_token_alt:
  "fernet_data \<noteq> [] \<Longrightarrow> create_peer aes codec now fernet_data = Inr p \<Longrightarrow>
   init_multiplexer_challenge sha aes cfg drained p (sentropy S) k = (x, p1, ent1, k1) \<Longrightarrow>
   handle_token sha aes codec cfg now drained fernet_data (S, k) =
     (let r = pnext (sman S); S1 = (metric AuthStarted S)\<lparr>sman := with_peer p1 (sman S), sentropy := ent1\<rparr> in
      case x of
        Inl e \<Rightarrow> handle_failed (Some r) e (S1, k1)
      | Inr _ \<Rightarrow> (case add_peer r (sman S1) of
                   (Inl e, M2) \<Rightarrow> handle_failed (Some r) e (metric AuthSuccess (S1\<lparr>sman := M2\<rparr>), k1)
                 | (Inr _, M2) \<Rightarrow> serve r (metric AuthSuccess (S1\<lparr>sman := M2\<rparr>), k1)))"
  by (cases x) (auto simp: handle_token_def alloc_peer_def Let_def with_peer_def split: prod.split sum.split)

lemma fresh_not_routed: "route_ok M \<Longrightarrow> get_peer M h \<noteq> Some (pnext M)"
  by (auto simp: route_ok_def)

lemma handle_token_serves:
  assumes "fernet_data \<noteq> []" and "create_peer aes codec now fernet_data = Inr p"
    and "init_multiplexer_challenge sha aes cfg drained p (sentropy S) k = (Inr (), p1, ent1, k1)"
    and "route_ok (sman S)" and "fst (add_peer (pnext (sman S)) (with_peer p1 (sman S))) = Inr ()"
  obtains S' where "handle_token sha aes codec cfg now drained fernet_data (S, k) = (Serving (pnext (sman S)), S', k1)"
    and "\<And>h. get_peer (sman S') h = (if h \<in> set (all_hostnames p) then Some (pnext (sman S)) else get_peer (sman S) h)"
    and "pobjs (sman S') (pnext (sman S)) = p1"
proof -
  let ?r = "pnext (sman S)" and ?M = "with_peer p1 (sman S)"
  obtain M2 where M2: "add_peer ?r ?M = (Inr (), M2)" using assms(5) by (metis prod.collapse)
  from assms(3) have p1: "all_hostnames p1 = all_hostnames p" "peer_is_connected p1"
    by (auto elim!: challenge_succeeds simp: all_hostnames_def peer_is_connected_def is_connected_def new_mux_def)
  have o: "pobjs M2 ?r = p1" using add_peer_keeps_mux [of ?M ?r] fresh_not_routed [OF assms(4)] M2 by simp
  let ?S = "metric AuthSuccess ((metric AuthStarted S)\<lparr>sman := M2, sentropy := ent1\<rparr>)"
  show thesis
  proof (rule that [of ?S])
    show "handle_token sha aes codec cfg now drained fernet_data (S, k) = (Serving ?r, ?S, k1)"
      using M2 o p1(2) by (simp add: handle_token_alt [OF assms(1-3)] serve_def metric_def)
    show "get_peer (sman ?S) h = (if h \<in> set (all_hostnames p) then Some ?r else get_peer (sman S) h)" for h
      using get_peer_added [OF M2, of h] p1(1) by simp
    show "pobjs (sman ?S) ?r = p1" using o by simp
  qed
qed

text \<open>
  C2: A handshake opens a session: a device that presents the token issued for it, within its validity, and
  a server that share cipher, key and IV authenticate each other over any chunking of the two byte
  streams; the device is then routed, both ends have a multiplexer, and the two transports are in step in
  both directions, with nothing of the streams consumed beyond the handshake.
\<close>
theorem handshake_opens_session:
  assumes crypto: "aes_ok aes" "hash_ok sha" "codec_ok codec"
    and "create_crypto_transport aes cipher key iv True = Inr cc" and "create_crypto_transport aes cipher key iv False = Inr cs"
    and token: "token = generate_client_token codec issued delta hostname key iv cipher" "token \<noteq> []" "now \<le> issued + delta"
    and registry: "route_ok (sman S)" "muxes_ok (sman S)" "config_ok cfg"
    and challenge: "make_challenge sha aes cs (sentropy S) = (Inr (t, f), cs1, ent1)"
    and client: "cmux C = None" "handler_task C \<noteq> Some False"
      "client_start sha aes cfg \<lparr>ca_token = token, ca_key = key, ca_iv = iv, ca_version = v, ca_cipher = cipher\<rparr>
         \<lparr>cn_open = Inr kc, cn_drain1 = Inr (), cn_drain2 = Inr ()\<rparr> entc C = (x, C', Some kc')"
    and streams: "pending (crd kc) = f @ restc" "\<not> at_eof (cwr kc)" "\<not> at_eof (cwr ks)"
      "pending (crd ks) = drop (length (sent (cwr kc) @ token)) (sent (cwr kc')) @ rests"
  shows "x = Inr () \<and> (\<exists>mc ms S' ks'. cmux C' = Some mc \<and>
    handle_connection sha aes codec cfg now (Inr ()) (Some token) (S, ks) = (Serving (pnext (sman S)), S', ks') \<and>
    get_peer (sman S') hostname = Some (pnext (sman S)) \<and> pmux (pobjs (sman S') (pnext (sman S))) = Some ms \<and>
    synced (mcrypto mc) (mcrypto ms) \<and> synced (mcrypto ms) (mcrypto mc) \<and> mversion mc = v \<and> mversion ms = 2 \<and>
    pending (crd kc') = restc \<and> pending (crd ks') = rests)"
proof -
  let ?k = "kc\<lparr>cwr := (cwr kc)\<lparr>sent := sent (cwr kc) @ token\<rparr>\<rparr>"
  have k: "pending (crd ?k) = f @ restc" "\<not> at_eof (cwr ?k)" using streams by simp_all
  have sync: "synced cc cs" "synced cs cc" using endpoints_synced [OF assms(4,5)] by simp_all
  from answer_fits [OF crypto(1,2) sync fresh_transport [OF assms(4)] challenge k, where entc = entc]
  obtain g cc1 entc1 k1 cs2 where a: "answer_challenge sha aes cc entc ?k = (Inr (), cc1, entc1, k1)"
    "cwr k1 = (cwr ?k)\<lparr>sent := sent (cwr ?k) @ g\<rparr>" "pending (crd k1) = restc"
    "length g = 32 + overhead cs1" "decrypt aes cs1 g = (Inr (sha t), cs2)" "synced cc1 cs2" "synced cs2 cc1" .
  have c: "x = Inr ()" "cmux C' = Some (new_mux cfg v cc1 entc1 True)" "kc' = k1"
    using client a(1) streams(2) assms(4) by (auto simp: client_start_def writer_write_def)
  have "pending (crd ks) = g @ rests" using streams(4) a(2) c(3) by simp
  from readexactly_append [OF this a(4)] obtain r where r: "readexactly (32 + overhead cs1) (crd ks) = (Inr g, r)" "pending r = rests"
    by blast
  let ?p = "\<lparr>phost = hostname, pvalid = issued + delta, palias = [], pmux = None, pcrypto = cs, pversion = 2\<rparr>"
  let ?p1 = "?p\<lparr>pcrypto := cs2, pmux := Some (new_mux cfg 2 cs2 ent1 False)\<rparr>"
  let ?ks = "ks\<lparr>cwr := (cwr ks)\<lparr>sent := sent (cwr ks) @ f\<rparr>, crd := r\<rparr>"
  have p: "create_peer aes codec now token = Inr ?p"
    using create_peer_of_token [OF crypto(3), of aes now issued] token assms(5)
    by (simp add: new_peer_def unsupported_cipher_def PROTOCOL_VERSION_def)
  have i: "init_multiplexer_challenge sha aes cfg (Inr ()) ?p (sentropy S) ks = (Inr (), ?p1, ent1, ?ks)"
    using challenge streams(3) r a(5) by (simp add: init_multiplexer_challenge_def writer_write_def check_answer_def)
  have "muxes_ok (with_peer ?p1 (sman S))"
    using registry(2) mux_inv_new [OF registry(3)] by (simp add: muxes_ok_def)
  from handle_token_serves [OF token(2) p i registry(1) add_peer_total [OF this]] obtain S' where
    S': "handle_token sha aes codec cfg now (Inr ()) token (S, ks) = (Serving (pnext (sman S)), S', ?ks)"
    "\<And>h. get_peer (sman S') h = (if h \<in> set (all_hostnames ?p) then Some (pnext (sman S)) else get_peer (sman S) h)"
    "pobjs (sman S') (pnext (sman S)) = ?p1" by blast
  from S' token(2) have "handle_connection sha aes codec cfg now (Inr ()) (Some token) (S, ks) = (Serving (pnext (sman S)), S', ?ks)"
    by (simp add: handle_connection_def)
  with c S' a r(2) show ?thesis by (simp add: all_hostnames_def new_mux_def)
qed

lemma handle_failed_routes:
  assumes "case peer of None \<Rightarrow> True | Some r \<Rightarrow> get_peer (sman S) (phost (pobjs (sman S) r)) \<noteq> Some r"
    and "handle_failed peer e (S, k) = (h, S', k')"
  shows "get_peer (sman S') host = get_peer (sman S) host"
  using assms by (auto simp: handle_failed_def handle_error_def handle_finally_def get_peer_removed
    split: if_splits option.splits)

lemma handle_token_routes:
  assumes ok: "route_ok (sman S)" and h: "handle_token sha aes codec cfg now drained fd (S, k) = (h, S', k')"
    and change: "get_peer (sman S') host \<noteq> get_peer (sman S) host"
  obtains p t f c1 ent1 answer c2 r1 where "h = Serving (pnext (sman S))" and "create_peer aes codec now fd = Inr p"
    and "host \<in> set (all_hostnames p)" and "make_challenge sha aes (pcrypto p) (sentropy S) = (Inr (t, f), c1, ent1)"
    and "readexactly (32 + overhead c1) (crd k) = (Inr answer, r1)" and "decrypt aes c1 answer = (Inr (sha t), c2)"
    and "get_peer (sman S') host = Some (pnext (sman S))"
proof -
  let ?r = "pnext (sman S)"
  have fd: "fd \<noteq> []" using h change by (auto simp: handle_token_def handle_finally_def)
  obtain p where p: "create_peer aes codec now fd = Inr p"
  proof (cases "create_peer aes codec now fd")
    case (Inl e)
    with fd h have "handle_failed None e (metric AuthStarted S, k) = (h, S', k')" by (simp add: handle_token_def Let_def)
    from handle_failed_routes [OF _ this] change show ?thesis by simp
  qed
  obtain x p1 ent1 k1 where i: "init_multiplexer_challenge sha aes cfg drained p (sentropy S) k = (x, p1, ent1, k1)"
    by (metis surj_pair)
  note alt = handle_token_alt [OF fd p i]
  have nr: "get_peer (sman S) a \<noteq> Some ?r" for a using fresh_not_routed [OF ok] .
  have x: "x = Inr ()"
  proof (cases x)
    case (Inl e)
    with alt h have "handle_failed (Some ?r) e
      ((metric AuthStarted S)\<lparr>sman := with_peer p1 (sman S), sentropy := ent1\<rparr>, k1) = (h, S', k')" by (simp add: Let_def)
    from handle_failed_routes [OF _ this] nr change show ?thesis by simp
  qed simp
  have a: "fst (add_peer ?r (with_peer p1 (sman S))) = Inr ()"
  proof (cases "add_peer ?r (with_peer p1 (sman S))")
    case (Pair y M2)
    then show ?thesis
    proof (cases y)
      case (Inl e)
      with Pair have M2: "get_peer M2 = get_peer (sman S)"
        by (auto elim!: add_peer_cases simp: get_peer_def fun_eq_iff with_peer_def)
      from Inl alt h x Pair have "handle_failed (Some ?r) e
        (metric AuthSuccess ((metric AuthStarted S)\<lparr>sentropy := ent1, sman := M2\<rparr>), k1) = (h, S', k')" by (simp add: Let_def)
      from handle_failed_routes [OF _ this] nr change M2 show ?thesis by simp
    qed simp
  qed
  from handle_token_serves [OF fd p i [unfolded x] ok a] h obtain
    "h = Serving ?r" "\<And>a. get_peer (sman S') a = (if a \<in> set (all_hostnames p) then Some ?r else get_peer (sman S) a)"
    by (metis prod.inject)
  moreover from i x obtain t f c1 answer c2 r where "make_challenge sha aes (pcrypto p) (sentropy S) = (Inr (t, f), c1, ent1)"
    "readexactly (32 + overhead c1) (crd k) = (Inr answer, r)" "decrypt aes c1 answer = (Inr (sha t), c2)"
    by (metis challenge_succeeds)
  ultimately show thesis using that p change by (metis (full_types))
qed

text \<open>
  C3: Only authenticated devices are routed: whatever a connection sends, in whatever chunks, its handler
  changes a route of the registry only when the data it was given or reads first is a valid token,
  the connection then answers the random challenge with its hash under the token's key, and the token
  lists the hostname; the route then leads to the new peer, which the handler serves.
\<close>
theorem only_authenticated_routed:
  assumes "route_ok (sman S)"
    and "handle_connection sha aes codec cfg now drained data (S, k) = (h, S', k')"
    and "get_peer (sman S') host \<noteq> get_peer (sman S) host"
  shows "h = Serving (pnext (sman S)) \<and> get_peer (sman S') host = Some (pnext (sman S)) \<and>
    (\<exists>fernet_data r0 p t f c1 ent1 answer c2 r1.
      (if data = None \<or> data = Some [] then read 2048 (crd k) = (Inr fernet_data, r0)
       else data = Some fernet_data \<and> r0 = crd k) \<and>
      create_peer aes codec now fernet_data = Inr p \<and> host \<in> set (all_hostnames p) \<and>
      make_challenge sha aes (pcrypto p) (sentropy S) = (Inr (t, f), c1, ent1) \<and>
      readexactly (32 + overhead c1) r0 = (Inr answer, r1) \<and> decrypt aes c1 answer = (Inr (sha t), c2))"
proof (cases "data = None \<or> data = Some []")
  case False
  then obtain d where "data = Some d" "d \<noteq> []" "handle_token sha aes codec cfg now drained d (S, k) = (h, S', k')"
    using assms(2) by (auto simp: handle_connection_def split: option.splits)
  with handle_token_routes [OF assms(1) this(3) assms(3)] show ?thesis by simp metis
next
  case True
  obtain x r0 where r: "read 2048 (crd k) = (x, r0)" by fastforce
  from True assms(2,3) r obtain d where "x = Inr d"
    "handle_token sha aes codec cfg now drained d (S, k\<lparr>crd := r0\<rparr>) = (h, S', k')"
    by (cases x) (auto simp: handle_connection_def split: option.splits if_splits)
  with r True handle_token_routes [OF assms(1) this(2) assms(3)] show ?thesis by simp metis
qed

section \<open>The life of a client\<close>

text \<open>However the handler ends, the client forgets its multiplexer, which was shut down; it can start again.\<close>

lemma handler_finally_resets:
  assumes "\<And>m. cmux C = Some m \<Longrightarrow> mux_inv m"
  shows "handler_finally x C = (HandlerEnds x, \<lparr>cmux = None, handler_task = Some True\<rparr>)"
  using assms shutdown_ok by (cases C) (fastforce simp: handler_finally_def split: option.splits prod.splits)

lemma client_stop_resets:
  assumes "cmux C = Some m" and "mux_inv m" and "handler_task C = Some False"
  shows "client_stop C = (Inr (), new_client)"
proof -
  obtain m1 where m1: "shutdown m = (Inr (), m1)" "mux_inv m1" using shutdown_ok [OF assms(2)] by blast
  then have "snd (handler_finally (Some CancelledError) (C\<lparr>cmux := Some m1\<rparr>)) = \<lparr>cmux = None, handler_task = Some True\<rparr>"
    by (subst handler_finally_resets) auto
  with assms m1 show ?thesis by (simp add: client_stop_def stop_handler_def new_client_def)
qed

text \<open>The handler ends without an exception when a ping is not answered.\<close>

lemma unanswered_ping_ends_client:
  assumes "cmux C = Some m" and "mux_inv m"
  shows "client_handler aes PingTimedOut C = (HandlerEnds None, \<lparr>cmux = None, handler_task = Some True\<rparr>)"
proof -
  have "mux_inv (snd (ping_timeout m))" using shutdown_ok [OF assms(2)] by (auto simp: ping_timeout_def)
  with assms show ?thesis
    by (simp add: handler_raises_def catches_def) (subst handler_finally_resets; auto)
qed

section \<open>Witnesses\<close>

definition demo_sha :: sha256 where "demo_sha x = replicate 32 (if x = [] then 0 else hd x + 1)"

definition demo_key :: bytes where "demo_key = replicate 32 7"

definition demo_state :: server_state where
  "demo_state = \<lparr>sman = new_manager True, has_metrics = True, sent_metrics = [], sentropy = \<lambda>_. 3\<rparr>"

definition demo_frame :: bytes where
  "demo_frame = [0, 0, 0, 1, 0, 0, 0, 0, 0, 0, 0, 0] @ replicate 32 4 @ demo_tag [0, 0, 0, 1, 0, 0, 0, 0, 0, 0, 0, 0]"

definition demo_conn :: "bytes \<Rightarrow> conn" where
  "demo_conn b = \<lparr>crd = \<lparr>chunks = [b], ending = Stall\<rparr>, cwr = \<lparr>sent = [], at_eof = False\<rparr>, cclosed = False\<rparr>"

lemma demo_transports:
  "create_crypto_transport demo_aes CIPHER_GCM demo_key [8] True = Inr (GCM demo_key [0, 0, 0, 0] 0)"
  "create_crypto_transport demo_aes CIPHER_GCM demo_key [8] False = Inr (GCM demo_key [0, 0, 0, 1] 0)"
  by (simp_all add: create_crypto_transport_def new_gcm_def demo_aes_def demo_key_def GCM_PREFIX_SIZE_def to_bytes_be_4)

lemma demo_challenge:
  "make_challenge demo_sha demo_aes (GCM demo_key [0, 0, 0, 1] 0) (sentropy demo_state) =
     (Inr (replicate 32 4, demo_frame), GCM demo_key [0, 0, 0, 1] 1, \<lambda>_. 3)"
proof -
  have "urandom 40 (\<lambda>_. 3) = (replicate 40 3, \<lambda>_. 3)" by (simp add: urandom_def map_replicate_const)
  moreover have "demo_sha (replicate 40 3) = replicate 32 4" by (simp add: demo_sha_def)
  moreover have "gcm_enc demo_aes k n d = d @ demo_tag n" for k n d by (simp add: demo_aes_def)
  ultimately show ?thesis
    by (simp add: make_challenge_def demo_state_def next_nonce_gcm_total to_bytes_be_8 to_bytes_be_4 demo_frame_def)
qed

lemma demo_session_token: "generate_client_token demo_codec 10 100 [104, 97] demo_key [8] CIPHER_GCM \<noteq> []"
proof -
  have "dec_str n \<noteq> []" for n by (subst dec_str.simps) auto
  moreover have "encode_utf8 u \<noteq> []" if "u \<noteq> []" for u
    using that by (cases u) (auto simp: encode_utf8_def utf8_char_def)
  ultimately show ?thesis by (simp add: generate_client_token_def demo_codec_def)
qed

lemma client_start_conn:
  "cmux C = None \<Longrightarrow> cn_open net = Inr k0 \<Longrightarrow> \<exists>k. snd (snd (client_start sha aes cfg a net ent C)) = Some k"
  by (auto simp: client_start_def Let_def split: sum.split prod.split)

lemma demo_state_ok: "route_ok (sman demo_state)" "muxes_ok (sman demo_state)" "pnext (sman demo_state) = 0" "hash_ok demo_sha"
  by (simp_all add: demo_state_def) (simp_all add: muxes_ok_def new_manager_def no_peer_def hash_ok_def demo_sha_def)

definition demo_args :: client_args where
  "demo_args = \<lparr>ca_token = generate_client_token demo_codec 10 100 [104, 97] demo_key [8] CIPHER_GCM, ca_key = demo_key,
     ca_iv = [8], ca_version = 2, ca_cipher = CIPHER_GCM\<rparr>"

theorem handshake_opens_session_witness:
  "\<exists>C' k S' ks'.
     client_start demo_sha demo_aes demo_config demo_args \<lparr>cn_open = Inr (demo_conn demo_frame), cn_drain1 = Inr (), cn_drain2 = Inr ()\<rparr>
       (\<lambda>_. 1) new_client = (Inr (), C', Some k) \<and>
     handle_connection demo_sha demo_aes demo_codec demo_config 50 (Inr ()) (Some (ca_token demo_args))
       (demo_state, demo_conn (drop (length (ca_token demo_args)) (sent (cwr k)))) = (Serving 0, S', ks') \<and>
     get_peer (sman S') [104, 97] = Some 0"
proof -
  let ?net = "\<lparr>cn_open = Inr (demo_conn demo_frame), cn_drain1 = Inr (), cn_drain2 = Inr ()\<rparr>"
  obtain x C' k where c: "client_start demo_sha demo_aes demo_config demo_args ?net (\<lambda>_. 1) new_client = (x, C', Some k)"
    using client_start_conn [of new_client ?net "demo_conn demo_frame" demo_sha demo_aes demo_config demo_args "\<lambda>_. 1"]
    by (metis client_net.select_convs(1) new_client_def client.select_convs(1) prod.collapse)
  have "pending (crd (demo_conn b)) = b" "\<not> at_eof (cwr (demo_conn b))" "sent (cwr (demo_conn b)) = []" for b
    by (simp_all add: demo_conn_def pending_def)
  note k = this
  have "cmux new_client = None" "handler_task new_client \<noteq> Some False" by (simp_all add: new_client_def)
  from handshake_opens_session [where ks = "demo_conn (drop (length (ca_token demo_args)) (sent (cwr k)))" and now = 50
      and restc = "[]" and rests = "[]", OF demo_aes_ok demo_state_ok(4) demo_codec_ok demo_transports refl demo_session_token _
      demo_state_ok(1,2) demo_config_ok demo_challenge this c [unfolded demo_args_def]]
  show ?thesis using c k by (auto simp: demo_args_def demo_state_ok(3))
qed

lemma demo_answered:
  obtains S' k' where "handle_connection demo_sha demo_aes demo_codec demo_config 50 (Inr ()) (Some (ca_token demo_args))
      (demo_state, demo_conn (replicate 12 0 @ replicate 32 5 @ demo_tag (replicate 12 0))) = (Serving 0, S', k')"
    and "get_peer (sman S') [104, 97] = Some 0"
proof -
  let ?p = "\<lparr>phost = [104, 97], pvalid = 110, palias = [], pmux = None, pcrypto = GCM demo_key [0, 0, 0, 1] 0, pversion = 2\<rparr>"
  let ?g = "replicate 12 0 @ replicate 32 5 @ demo_tag (replicate 12 0)" and ?c = "GCM demo_key [0, 0, 0, 1] 1"
  have p: "create_peer demo_aes demo_codec 50 (ca_token demo_args) = Inr ?p"
    using create_peer_of_token [OF demo_codec_ok, of demo_aes 50 10] demo_transports(2)
    by (simp add: demo_args_def new_peer_def unsupported_cipher_def PROTOCOL_VERSION_def)
  have l: "length ?g = 32 + overhead ?c" by (simp add: demo_tag_def gcm_consts)
  have "pending (crd (demo_conn ?g)) = ?g @ []" by (simp add: demo_conn_def pending_def)
  from readexactly_append [OF this l] obtain r where r: "readexactly (32 + overhead ?c) (crd (demo_conn ?g)) = (Inr ?g, r)" by blast
  have "decrypt demo_aes ?c ?g = (Inr (replicate 32 5), ?c)"
    by (simp add: demo_aes_def demo_open_def aead_open_def gcm_consts) (simp add: demo_tag_def)
  moreover have "demo_sha (replicate 32 4) = replicate 32 5" by (simp add: demo_sha_def)
  ultimately have a: "check_answer demo_sha demo_aes (replicate 32 4) ?c (crd (demo_conn ?g)) = (Inr (), ?c, r)"
    unfolding check_answer_def r by simp
  let ?p1 = "?p\<lparr>pcrypto := ?c, pmux := Some (new_mux demo_config 2 ?c (\<lambda>_. 3) False)\<rparr>"
  have w: "writer_write demo_frame (cwr (demo_conn ?g)) = Inr \<lparr>sent = demo_frame, at_eof = False\<rparr>"
    by (simp add: demo_conn_def writer_write_def)
  have i: "init_multiplexer_challenge demo_sha demo_aes demo_config (Inr ()) ?p (sentropy demo_state)
      (demo_conn ?g) = (Inr (), ?p1, \<lambda>_. 3, (demo_conn ?g)\<lparr>cwr := \<lparr>sent = demo_frame, at_eof = False\<rparr>, crd := r\<rparr>)"
    unfolding init_multiplexer_challenge_def by (simp only: peer.select_convs demo_challenge prod.case sum.case w a)
  have mx: "muxes_ok (with_peer ?p1 (sman demo_state))"
    using demo_state_ok(2) mux_inv_new [OF demo_config_ok] by (simp add: muxes_ok_def)
  show thesis
  proof (rule handle_token_serves [OF demo_session_token p [unfolded demo_args_def, simplified] i demo_state_ok(1) add_peer_total [OF mx]])
    fix S' assume h: "handle_token demo_sha demo_aes demo_codec demo_config 50 (Inr ())
        (generate_client_token demo_codec 10 100 [104, 97] demo_key [8] CIPHER_GCM) (demo_state, demo_conn ?g) =
        (Serving (pnext (sman demo_state)), S', (demo_conn ?g)\<lparr>cwr := \<lparr>sent = demo_frame, at_eof = False\<rparr>, crd := r\<rparr>)"
      and g: "\<And>h. get_peer (sman S') h = (if h \<in> set (all_hostnames ?p) then Some (pnext (sman demo_state)) else get_peer (sman demo_state) h)"
    from h demo_session_token have "handle_connection demo_sha demo_aes demo_codec demo_config 50 (Inr ()) (Some (ca_token demo_args))
        (demo_state, demo_conn ?g) = (Serving 0, S', (demo_conn ?g)\<lparr>cwr := \<lparr>sent = demo_frame, at_eof = False\<rparr>, crd := r\<rparr>)"
      by (simp add: handle_connection_def demo_args_def demo_state_ok(3))
    moreover from g [of "[104, 97]"] have "get_peer (sman S') [104, 97] = Some 0"
      by (simp add: all_hostnames_def demo_state_ok(3))
    ultimately show thesis by (rule that)
  qed
qed

theorem only_authenticated_routed_witness:
  "\<exists>p t f c1 ent1 answer c2. create_peer demo_aes demo_codec 50 (ca_token demo_args) = Inr p \<and> [104, 97] \<in> set (all_hostnames p) \<and>
     make_challenge demo_sha demo_aes (pcrypto p) (sentropy demo_state) = (Inr (t, f), c1, ent1) \<and>
     decrypt demo_aes c1 answer = (Inr (demo_sha t), c2)"
proof -
  let ?k = "demo_conn (replicate 12 0 @ replicate 32 5 @ demo_tag (replicate 12 0))"
  obtain S' k' where h: "handle_connection demo_sha demo_aes demo_codec demo_config 50 (Inr ()) (Some (ca_token demo_args))
      (demo_state, ?k) = (Serving 0, S', k')" "get_peer (sman S') [104, 97] = Some 0" by (rule demo_answered)
  have "get_peer (sman demo_state) [104, 97] = None" by (simp add: demo_state_def new_manager_def get_peer_def)
  with h(2) have "get_peer (sman S') [104, 97] \<noteq> get_peer (sman demo_state) [104, 97]" by simp
  from only_authenticated_routed [OF demo_state_ok(1) h(1) this]
  show ?thesis using demo_session_token by (simp add: demo_args_def) blast
qed

end
