(* ===== verification/Transport.thy ===== *)
theory Transport
  imports Core
begin

text \<open>
  The asyncio transport on top of a channel, \<^verbatim>\<open>snitun/multiplexer/transport.py\<close>. The protocol above it (the
  TLS layer of asyncio) is not part of this program: it is the parameter \<open>proto\<close>, with the methods the transport calls. The
  reader task is a sequence of phases with a step for every resumption.
\<close>

section \<open>Feeding a buffered protocol\<close>

text \<open>
  \<open>get_buffer p n\<close> is the length of the buffer the protocol offers for \<open>n\<close> bytes; \<open>buffer_updated p d\<close> fills its
  beginning with \<open>d\<close> and notifies the protocol, which may raise; \<open>max_size\<close> is its attribute, if it has one.
\<close>

record 'p proto =
  get_buffer :: "'p \<Rightarrow> nat \<Rightarrow> nat"
  buffer_updated :: "'p \<Rightarrow> bytes \<Rightarrow> unit res \<times> 'p"
  max_size :: "nat option"

definition DEFAULT_READER_CHUNK_SIZE :: nat where "DEFAULT_READER_CHUNK_SIZE = 262144"

function feed_data_to_buffered_proto :: "('p, 'z) proto_scheme \<Rightarrow> bytes \<Rightarrow> 'p \<Rightarrow> unit res \<times> 'p" where
  "feed_data_to_buffered_proto P data p =
     (if data = [] then (Inr (), p)
      else let buf_len = get_buffer P p (length data) in
        if buf_len = 0 then (Inl RuntimeError, p)
        else if length data \<le> buf_len then buffer_updated P p data
        else (case buffer_updated P p (take buf_len data) of
                (Inl e, p1) \<Rightarrow> (Inl e, p1)
              | (Inr _, p1) \<Rightarrow> feed_data_to_buffered_proto P (drop buf_len data) p1))"
  by pat_completeness auto
termination by (relation "measure (\<lambda>(P, data, p). length data)") auto

declare feed_data_to_buffered_proto.simps [simp del]

section \<open>The transport\<close>

text \<open>
  \<open>lost\<close> records the scheduled calls of \<open>connection_lost\<close>, \<open>reports\<close> those of the loop's exception handler;
  \<open>tfuts\<close> holds the pause futures.
\<close>

record 'p transport =
  tcs :: cstate
  tproto :: "'p option"
  tpause :: "nat option"
  tfuts :: "nat \<Rightarrow> fut"
  tnext :: nat
  protocol_paused :: bool
  protocol_set :: bool
  lost :: "exn option list"
  reports :: "exn list"

definition new_transport :: "cstate \<Rightarrow> 'p transport" where
  "new_transport cs = \<lparr>tcs = cs, tproto = None, tpause = None, tfuts = (\<lambda>_. FPending), tnext = 0,
     protocol_paused = False, protocol_set = False, lost = [], reports = []\<rparr>"

definition set_protocol :: "'p \<Rightarrow> 'p transport \<Rightarrow> 'p transport" where
  "set_protocol p t = t\<lparr>tproto := Some p, protocol_set := True\<rparr>"

definition is_closing :: "'p transport \<Rightarrow> bool" where "is_closing t = closing (snd (tcs t))"

definition release_pause_future :: "'p transport \<Rightarrow> 'p transport" where
  "release_pause_future t =
     (case tpause t of
        None \<Rightarrow> t
      | Some f \<Rightarrow> (if tfuts t f = FPending then t\<lparr>tfuts := (tfuts t)(f := FDone), tpause := None\<rparr> else t\<lparr>tpause := None\<rparr>))"

definition is_reading :: "'p transport \<Rightarrow> bool" where "is_reading t \<longleftrightarrow> tpause t = None"

definition pause_reading :: "'p transport \<Rightarrow> 'p transport" where
  "pause_reading t =
     (if tpause t = None
      then t\<lparr>tpause := Some (tnext t), tfuts := (tfuts t)(tnext t := FPending), tnext := tnext t + 1\<rparr> else t)"

definition resume_reading :: "'p transport \<Rightarrow> 'p transport" where "resume_reading t = release_pause_future t"

text \<open>\<open>close\<close> and \<open>abort\<close>; an exception of the channel's \<open>close\<close> passes through.\<close>

definition transport_close :: "'p transport \<Rightarrow> unit res \<times> 'p transport" where
  "transport_close t =
     (case chan_close (tcs t) of
        (Inl e, cs) \<Rightarrow> (Inl e, t\<lparr>tcs := cs\<rparr>)
      | (Inr _, cs) \<Rightarrow> (Inr (), release_pause_future (t\<lparr>tcs := cs\<rparr>)))"

definition force_close :: "exn option \<Rightarrow> 'p transport \<Rightarrow> unit res \<times> 'p transport" where
  "force_close x t =
     (case transport_close t of
        (Inl e, t1) \<Rightarrow> (Inl e, t1)
      | (Inr _, t1) \<Rightarrow> (Inr (), if tproto t1 \<noteq> None then t1\<lparr>lost := lost t1 @ [x]\<rparr> else t1))"

definition fatal_error :: "exn \<Rightarrow> 'p transport \<Rightarrow> unit res \<times> 'p transport" where
  "fatal_error e t = force_close (Some e) (t\<lparr>reports := reports t @ [e]\<rparr>)"

definition transport_write :: "bytes \<Rightarrow> 'p transport \<Rightarrow> unit res \<times> 'p transport" where
  "transport_write d t =
     (if closing (snd (tcs t)) then (Inr (), t)
      else case write_no_wait d (tcs t) of
        (Inr _, cs) \<Rightarrow> (Inr (), t\<lparr>tcs := cs\<rparr>)
      | (Inl e, cs) \<Rightarrow>
          (if catches MultiplexerTransportClose e then force_close None (t\<lparr>tcs := cs\<rparr>)
           else if catches MultiplexerTransportError e then force_close (Some e) (t\<lparr>tcs := cs\<rparr>)
           else (Inl e, t\<lparr>tcs := cs\<rparr>)))"

text \<open>\<open>call\<close> is what \<open>pause_writing\<close> or \<open>resume_writing\<close> of the protocol does: its new state, or an exception, which is reported.\<close>

definition pause_or_resume_protocol :: "(bool \<Rightarrow> 'p \<Rightarrow> unit res \<times> 'p) \<Rightarrow> bool \<Rightarrow> 'p transport \<Rightarrow> 'p transport" where
  "pause_or_resume_protocol call pause t =
     (case tproto t of
        None \<Rightarrow> t
      | Some p \<Rightarrow>
          (if is_closing t then t
           else case call pause p of
                  (Inl e, p1) \<Rightarrow> t\<lparr>tproto := Some p1, reports := reports t @ [e]\<rparr>
                | (Inr _, p1) \<Rightarrow> t\<lparr>tproto := Some p1, protocol_paused := pause\<rparr>))"

section \<open>The reader task\<close>

text \<open>
  The task checks the pause future, waits for it, reads from the channel, waits for the protocol, feeds the
  data in chunks, waiting between them when it is paused, and ends.
\<close>

datatype reader_phase =
  ReaderLoop
| ReaderPaused nat
| ReaderReading
| ReaderAwaitProtocol bytes
| ReaderFeed bytes
| ReaderFeedPaused nat bytes
| ReaderDone "exn option"

definition reader_fails :: "exn \<Rightarrow> 'p transport \<Rightarrow> reader_phase \<times> 'p transport" where
  "reader_fails e t =
     (if e = CancelledError then (ReaderDone (Some e), t)
      else case fatal_error e t of (Inl e1, t1) \<Rightarrow> (ReaderDone (Some e1), t1) | (Inr _, t1) \<Rightarrow> (ReaderDone (Some e), t1))"

definition reader_read :: "'p transport \<Rightarrow> reader_phase \<times> 'p transport" where
  "reader_read t =
     (case read_chan (tcs t) of
        (Inr ReadWaits, _) \<Rightarrow> (ReaderReading, t)
      | (Inr (ReadData d), cs) \<Rightarrow>
          (if protocol_set t then ReaderFeed d else ReaderAwaitProtocol d, t\<lparr>tcs := cs\<rparr>)
      | (Inl e, cs) \<Rightarrow>
          (if catches MultiplexerTransportClose e
           then (case force_close None (t\<lparr>tcs := cs\<rparr>) of
                   (Inl e1, t1) \<Rightarrow> (ReaderDone (Some e1), t1) | (Inr _, t1) \<Rightarrow> (ReaderDone None, t1))
           else reader_fails e (t\<lparr>tcs := cs\<rparr>)))"

definition chunk_size :: "('p, 'z) proto_scheme \<Rightarrow> nat" where
  "chunk_size P = (case max_size P of None \<Rightarrow> DEFAULT_READER_CHUNK_SIZE | Some n \<Rightarrow> n)"

definition reader_feed :: "('p, 'z) proto_scheme \<Rightarrow> bytes \<Rightarrow> 'p transport \<Rightarrow> reader_phase \<times> 'p transport" where
  "reader_feed P data t =
     (if data = [] then (ReaderLoop, t)
      else case feed_data_to_buffered_proto P (take (chunk_size P) data) (the (tproto t)) of
        (Inl e, p1) \<Rightarrow> reader_fails e (t\<lparr>tproto := Some p1\<rparr>)
      | (Inr _, p1) \<Rightarrow>
          (let data = drop (chunk_size P) data; t = t\<lparr>tproto := Some p1\<rparr> in
           (case (data = [], tpause t) of (False, Some f) \<Rightarrow> ReaderFeedPaused f data | _ \<Rightarrow> ReaderFeed data, t)))"

fun reader_task :: "('p, 'z) proto_scheme \<Rightarrow> reader_phase \<Rightarrow> 'p transport \<Rightarrow> reader_phase \<times> 'p transport" where
  "reader_task P ReaderLoop t = (case tpause t of Some f \<Rightarrow> (ReaderPaused f, t) | None \<Rightarrow> (ReaderReading, t))"
| "reader_task P (ReaderPaused f) t = (if tfuts t f = FPending then ReaderPaused f else ReaderReading, t)"
| "reader_task P ReaderReading t = reader_read t"
| "reader_task P (ReaderAwaitProtocol d) t = (if protocol_set t then ReaderFeed d else ReaderAwaitProtocol d, t)"
| "reader_task P (ReaderFeed d) t = reader_feed P d t"
| "reader_task P (ReaderFeedPaused f d) t = (if tfuts t f = FPending then ReaderFeedPaused f d else ReaderFeed d, t)"
| "reader_task P (ReaderDone x) t = (ReaderDone x, t)"

text \<open>\<open>stop_reader\<close>: the transport is closed and the task, unless it has ended, is cancelled.\<close>

definition stop_reader :: "reader_phase \<Rightarrow> 'p transport \<Rightarrow> unit res \<times> reader_phase \<times> 'p transport" where
  "stop_reader p t =
     (case transport_close t of
        (Inl e, t1) \<Rightarrow> (Inl e, p, t1)
      | (Inr _, t1) \<Rightarrow> (Inr (), case p of ReaderDone x \<Rightarrow> p | _ \<Rightarrow> ReaderDone (Some CancelledError), t1))"

section \<open>The protocol gets the stream of the channel\<close>

text \<open>A protocol that keeps what it is given: \<open>received\<close> tells the bytes it has got.\<close>

definition keeps_data :: "('p, 'z) proto_scheme \<Rightarrow> ('p \<Rightarrow> bytes) \<Rightarrow> bool" where
  "keeps_data P received \<longleftrightarrow> (\<forall>p d p'. buffer_updated P p d = (Inr (), p') \<longrightarrow> received p' = received p @ d)"

lemma feed_delivers:
  "keeps_data P received \<Longrightarrow> feed_data_to_buffered_proto P d p = (Inr (), p') \<Longrightarrow> received p' = received p @ d"
proof (induction P d p rule: feed_data_to_buffered_proto.induct)
  case (1 P d p)
  let ?n = "get_buffer P p (length d)"
  note k = "1.prems"(1) [unfolded keeps_data_def, rule_format]
  note eq = "1.prems"(2) [unfolded feed_data_to_buffered_proto.simps [of P d p] Let_def]
  consider "d = []" | "d \<noteq> []" "length d \<le> ?n" | "d \<noteq> []" "0 < ?n" "?n < length d"
    using eq by (fastforce split: if_splits)
  then show ?case
  proof cases
    case 1
    with eq show ?thesis by simp
  next
    case 2
    with eq have "buffer_updated P p d = (Inr (), p')" by (auto split: if_splits)
    then show ?thesis by (rule k)
  next
    case 3
    obtain x p1 where u: "buffer_updated P p (take ?n d) = (x, p1)" by fastforce
    with eq 3 have x: "x = Inr ()" and f: "feed_data_to_buffered_proto P (drop ?n d) p1 = (Inr (), p')"
      by (cases x; simp)+
    have "received p1 = received p @ take ?n d" using k u x by blast
    moreover have "received p' = received p1 @ drop ?n d"
      using "1.IH" [OF _ refl _ _ u [symmetric] x "1.prems"(1) f] 3 by simp
    ultimately show ?thesis by simp
  qed
qed

text \<open>A protocol that always offers room and does not raise takes everything.\<close>

lemma feed_total:
  "(\<And>p n. 0 < n \<Longrightarrow> 0 < get_buffer P p n) \<Longrightarrow> (\<And>p d. fst (buffer_updated P p d) = Inr ()) \<Longrightarrow>
   fst (feed_data_to_buffered_proto P d p) = Inr ()"
proof (induction P d p rule: feed_data_to_buffered_proto.induct)
  case (1 P d p)
  let ?n = "get_buffer P p (length d)"
  obtain p1 where u: "buffer_updated P p (take ?n d) = (Inr (), p1)" using "1.prems"(2) by (metis prod.collapse)
  show ?case
  proof (cases "d = [] \<or> length d \<le> ?n")
    case True
    with "1.prems" show ?thesis by (auto simp: feed_data_to_buffered_proto.simps [of P d p] Let_def)
  next
    case False
    then have n: "0 < ?n" using "1.prems"(1) by simp
    with False u have "feed_data_to_buffered_proto P d p = feed_data_to_buffered_proto P (drop ?n d) p1"
      by (simp add: feed_data_to_buffered_proto.simps [of P d p] Let_def)
    with "1.IH" [OF _ refl _ _ u [symmetric] refl "1.prems"] False n show ?thesis by simp
  qed
qed

text \<open>What the reader has read from the channel and not yet fed to the protocol, and what a turn reads.\<close>

fun held :: "reader_phase \<Rightarrow> bytes" where
  "held (ReaderAwaitProtocol d) = d"
| "held (ReaderFeed d) = d"
| "held (ReaderFeedPaused _ d) = d"
| "held _ = []"

definition taken :: "reader_phase \<Rightarrow> 'p transport \<Rightarrow> bytes list" where
  "taken ph t = (case (ph, fst (read_chan (tcs t))) of (ReaderReading, Inr (ReadData d)) \<Rightarrow> [d] | _ \<Rightarrow> [])"

definition reader_over :: "reader_phase \<Rightarrow> bool" where
  "reader_over ph \<longleftrightarrow> (case ph of ReaderDone _ \<Rightarrow> True | _ \<Rightarrow> False)"

lemma reader_fails_over: "reader_over (fst (reader_fails e t))"
  by (simp add: reader_fails_def reader_over_def split: prod.split sum.split)

lemma reader_read_over:
  assumes "fst (read_chan (tcs t)) = Inl e"
  shows "reader_over (fst (reader_read t))"
proof -
  obtain cs where "read_chan (tcs t) = (Inl e, cs)" using assms by (metis prod.collapse)
  then show ?thesis
    by (simp add: reader_read_def reader_fails_over) (simp add: reader_over_def split: prod.split sum.split)
qed

lemma reader_turn_delivers:
  assumes "keeps_data P received" and "tproto t = Some p" and "reader_task P ph t = (ph', t')" and "\<not> reader_over ph'"
  shows "\<exists>p'. tproto t' = Some p' \<and> received p @ held ph @ concat (taken ph t) = received p' @ held ph'"
proof (cases ph)
  case ReaderReading
  show ?thesis
  proof (cases "fst (read_chan (tcs t))")
    case (Inl e)
    with ReaderReading assms(3,4) reader_read_over [OF Inl] show ?thesis by simp
  next
    case (Inr x)
    with ReaderReading assms(2,3) show ?thesis
      by (cases x) (auto simp: reader_read_def taken_def split: prod.splits if_splits)
  qed
next
  case (ReaderFeed d)
  show ?thesis
  proof (cases "d = []")
    case True
    with ReaderFeed assms(2,3) show ?thesis by (auto simp: reader_feed_def taken_def)
  next
    case False
    obtain x p1 where f: "feed_data_to_buffered_proto P (take (chunk_size P) d) p = (x, p1)" by fastforce
    show ?thesis
    proof (cases x)
      case (Inl e)
      with ReaderFeed False f assms(2,3) have "reader_fails e (t\<lparr>tproto := Some p1\<rparr>) = (ph', t')"
        by (simp add: reader_feed_def)
      with reader_fails_over [of e "t\<lparr>tproto := Some p1\<rparr>"] assms(4) show ?thesis by simp
    next
      case (Inr u)
      with f feed_delivers [OF assms(1)] have "received p1 = received p @ take (chunk_size P) d" by simp
      moreover have "tproto t' = Some p1" "held ph' = drop (chunk_size P) d"
        using ReaderFeed False f Inr assms(2,3)
        by (auto simp: reader_feed_def Let_def split: option.splits bool.splits)
      ultimately show ?thesis using ReaderFeed by (auto simp: taken_def)
    qed
  qed
qed (use assms in \<open>auto simp: taken_def reader_over_def split: if_splits option.splits\<close>)

text \<open>
  A run of the reader: turns of the task, between which the channel, the pause future, the records of the
  transport and the protocol's other state may change in any way.
\<close>

inductive relays :: "('p, 'z) proto_scheme \<Rightarrow> ('p \<Rightarrow> bytes) \<Rightarrow> reader_phase \<times> 'p transport \<Rightarrow> bytes list \<Rightarrow>
    reader_phase \<times> 'p transport \<Rightarrow> bool" for P received start where
  del_start: "relays P received start [] start"
| del_turn: "relays P received start ds (ph, t) \<Longrightarrow> reader_task P ph t = (ph', t') \<Longrightarrow> \<not> reader_over ph' \<Longrightarrow>
    relays P received start (ds @ taken ph t) (ph', t')"
| del_others: "relays P received start ds (ph, t) \<Longrightarrow> tproto t = Some p \<Longrightarrow> received p' = received p \<Longrightarrow>
    tproto t' = Some p' \<Longrightarrow> relays P received start ds (ph, t')"

text \<open>
  C10: The protocol gets the channel's data unchanged: however small the buffers it offers, in whatever chunks
  the reader feeds it and whenever it pauses the transport, the bytes it has received followed by those the reader still
  holds are at every moment the payloads that were read from the channel, in order.
\<close>
theorem protocol_receives_stream:
  assumes "keeps_data P received" and "tproto t0 = Some p0" and "relays P received (ph0, t0) ds (ph, t)"
  shows "\<exists>p. tproto t = Some p \<and> received p0 @ held ph0 @ concat ds = received p @ held ph"
proof -
  have "relays P received x ds y \<Longrightarrow> tproto (snd x) = Some p0 \<Longrightarrow>
      \<exists>p. tproto (snd y) = Some p \<and> received p0 @ held (fst x) @ concat ds = received p @ held (fst y)" for x ds y
  proof (induction rule: relays.induct)
    case (del_turn ds ph t ph' t')
    then obtain p where p: "tproto t = Some p" "received p0 @ held (fst x) @ concat ds = received p @ held ph" by auto
    from reader_turn_delivers [OF assms(1) p(1) del_turn.hyps(2,3)] p(2) show ?case by (metis append.assoc concat_append snd_conv fst_conv)
  qed auto
  from this [OF assms(3)] assms(2) show ?thesis by simp
qed

text \<open>While the pause future is pending the reader starts nothing: no data is taken and none is fed.\<close>

lemma paused_reader_waits:
  assumes "tpause t = Some f" and "tfuts t f = FPending" and "ph = ReaderLoop \<or> ph = ReaderPaused f \<or> ph = ReaderFeedPaused f d"
  shows "snd (reader_task P ph t) = t \<and> fst (reader_task P ph t) \<in> {ReaderPaused f, ReaderFeedPaused f d}"
  using assms by auto

text \<open>Resuming and closing let a waiting reader go on.\<close>

lemma released: "tpause t = Some f \<Longrightarrow> tfuts t f \<noteq> FCancelled \<Longrightarrow>
    tpause (release_pause_future t) = None \<and> tfuts (release_pause_future t) f = FDone"
  by (cases "tfuts t f") (auto simp: release_pause_future_def)

lemma chan_close_closes: "closing (snd (snd (chan_close cs)))"
proof -
  have "closing (snd (snd (on_local_input_under_water b s))) = closing (snd s)" for b s
    by (auto simp: on_local_input_under_water_def split: prod.split sum.split)
  then have "closing (snd (snd (input_put m s))) = closing (snd s)" for m s
    by (auto simp: input_put_def split: prod.split sum.split)
  then show ?thesis by (simp add: chan_close_def case_prod_beta)
qed

lemma close_releases: "transport_close t = (Inr (), t') \<Longrightarrow> closing (snd (tcs t')) \<and> is_reading t'"
  using chan_close_closes [of "tcs t"]
  by (auto simp: transport_close_def release_pause_future_def is_reading_def split: prod.splits sum.splits option.splits if_splits)

text \<open>A failed write closes the transport and tells the protocol once; a closing transport drops data silently.\<close>

lemma transport_write_full:
  assumes "\<not> closing (snd (tcs t))" and "write_no_wait d (tcs t) = (Inl MultiplexerTransportError, cs)"
    and "force_close (Some MultiplexerTransportError) (t\<lparr>tcs := cs\<rparr>) = (Inr (), t')" and "tproto t \<noteq> None"
  shows "transport_write d t = (Inr (), t') \<and> is_closing t' \<and> lost t' = lost t @ [Some MultiplexerTransportError]"
proof -
  obtain t1 where t1: "transport_close (t\<lparr>tcs := cs\<rparr>) = (Inr (), t1)"
    "t' = (if tproto t1 \<noteq> None then t1\<lparr>lost := lost t1 @ [Some MultiplexerTransportError]\<rparr> else t1)"
    using assms(3) by (auto simp: force_close_def split: prod.splits sum.splits)
  moreover have "tproto t1 = tproto t" "lost t1 = lost t"
    using t1(1) by (auto simp: transport_close_def release_pause_future_def split: prod.splits sum.splits option.splits if_splits)
  ultimately show ?thesis using assms close_releases [OF t1(1)]
    by (simp add: transport_write_def catches_def is_closing_def)
qed

section \<open>The reader comes to an end\<close>

text \<open>A protocol that offers room, keeps what it gets and does not raise, and the turns of the reader for it.\<close>

definition accepting :: "('p, 'z) proto_scheme \<Rightarrow> ('p \<Rightarrow> bytes) \<Rightarrow> bool" where
  "accepting P received \<longleftrightarrow> keeps_data P received \<and> (\<forall>p n. 0 < n \<longrightarrow> 0 < get_buffer P p n) \<and>
     (\<forall>p d. fst (buffer_updated P p d) = Inr ()) \<and> max_size P \<noteq> Some 0"

definition turn :: "('p, 'z) proto_scheme \<Rightarrow> reader_phase \<times> 'p transport \<Rightarrow> reader_phase \<times> 'p transport" where
  "turn P x = reader_task P (fst x) (snd x)"

definition leads :: "('p, 'z) proto_scheme \<Rightarrow> reader_phase \<times> 'p transport \<Rightarrow> reader_phase \<times> 'p transport \<Rightarrow> bool" where
  "leads P x y \<longleftrightarrow> (\<exists>n. (turn P ^^ n) x = y)"

lemma leads_refl: "leads P x x"
  unfolding leads_def by (rule exI [of _ 0]) simp

lemma leads_turn: "leads P (turn P x) y \<Longrightarrow> leads P x y"
  unfolding leads_def by (metis comp_apply funpow_Suc_right)

lemma leads_trans: "leads P x y \<Longrightarrow> leads P y z \<Longrightarrow> leads P x z"
proof -
  assume "leads P x y" "leads P y z"
  then obtain m n where "(turn P ^^ m) x = y" "(turn P ^^ n) y = z" by (auto simp: leads_def)
  then have "(turn P ^^ (n + m)) x = z" by (simp add: funpow_add)
  then show ?thesis unfolding leads_def ..
qed

lemma feed_leads:
  assumes "accepting P received" and "tproto t = Some p" and "tpause t = None"
  shows "\<exists>p'. leads P (ReaderFeed d, t) (ReaderLoop, t\<lparr>tproto := Some p'\<rparr>) \<and> received p' = received p @ d"
  using assms(2,3)
proof (induction "length d" arbitrary: d t p rule: less_induct)
  case less
  show ?case
  proof (cases "d = []")
    case True
    with less.prems have "turn P (ReaderFeed d, t) = (ReaderLoop, t\<lparr>tproto := Some p\<rparr>)"
      by (simp add: turn_def reader_feed_def)
    with leads_turn [of P "(ReaderFeed d, t)"] leads_refl [of P] have
      "leads P (ReaderFeed d, t) (ReaderLoop, t\<lparr>tproto := Some p\<rparr>)" by simp
    with True show ?thesis by auto
  next
    case False
    let ?k = "chunk_size P"
    have k: "0 < ?k" using assms(1) by (cases "max_size P") (auto simp: accepting_def chunk_size_def DEFAULT_READER_CHUNK_SIZE_def)
    have "fst (feed_data_to_buffered_proto P (take ?k d) p) = Inr ()"
      using assms(1) by (intro feed_total) (auto simp: accepting_def)
    then obtain p1 where f: "feed_data_to_buffered_proto P (take ?k d) p = (Inr (), p1)" by (metis prod.collapse)
    then have r1: "received p1 = received p @ take ?k d" using assms(1) feed_delivers by (auto simp: accepting_def)
    have t: "turn P (ReaderFeed d, t) = (ReaderFeed (drop ?k d), t\<lparr>tproto := Some p1\<rparr>)"
      using False f less.prems by (simp add: turn_def reader_feed_def Let_def split: bool.split)
    have "length (drop ?k d) < length d" using False k by simp
    from less.hyps [OF this, of "t\<lparr>tproto := Some p1\<rparr>" p1] less.prems obtain p' where
      "leads P (ReaderFeed (drop ?k d), t\<lparr>tproto := Some p1\<rparr>) (ReaderLoop, t\<lparr>tproto := Some p'\<rparr>)"
      "received p' = received p1 @ drop ?k d" by auto
    with leads_turn [of P "(ReaderFeed d, t)"] t r1 show ?thesis by auto
  qed
qed

lemma read_turns:
  assumes "tpause t = None" and "leads P (reader_read t) y"
  shows "leads P (ReaderLoop, t) y"
proof -
  have "turn P (ReaderLoop, t) = (ReaderReading, t)" "turn P (ReaderReading, t) = reader_read t"
    using assms(1) by (simp_all add: turn_def)
  with leads_turn [of P "(ReaderLoop, t)" y] leads_turn [of P "(ReaderReading, t)" y] assms(2) show ?thesis by simp
qed

lemma reader_ends:
  assumes "read_chan (tcs t) = (Inl MultiplexerTransportClose, cs)" and "input_ok (snd cs)" and "tpause t = None" and "tproto t = Some p"
  shows "\<exists>t'. reader_read t = (ReaderDone None, t') \<and> tproto t' = Some p \<and> lost t' = lost t @ [None] \<and> is_closing t'"
proof -
  obtain cs' where "chan_close cs = (Inr (), cs')" "closing (snd cs')"
    using chan_close_ok [OF assms(2), of "fst cs"] by (cases cs) auto
  with assms show ?thesis
    by (auto simp: reader_read_def catches_def force_close_def transport_close_def release_pause_future_def is_closing_def)
qed

lemma reader_drains:
  assumes "accepting P received" and "tcs t = (q, c)" and "tproto t = Some p" and "protocol_set t" and "tpause t = None"
    and "closing c" and "can_resume (q, c)" and "input_ok c" and "sitems (input c) = map Some ms @ eof" and "set eof \<subseteq> {None}"
  shows "\<exists>t' p'. leads P (ReaderLoop, t) (ReaderDone None, t') \<and> tproto t' = Some p' \<and>
    received p' = received p @ concat (map mdata ms) \<and> lost t' = lost t @ [None] \<and> is_closing t'"
  using assms(2-9)
proof (induction ms arbitrary: t q c p)
  case Nil
  obtain cs where r: "read_chan (q, c) = (Inl MultiplexerTransportClose, cs)"
  proof (cases eof)
    case Nil
    with Nil.prems that show ?thesis by (simp add: read_chan_def scq_empty_def)
  next
    case (Cons x xs)
    with Nil.prems assms(10) have i: "sitems (input c) = None # xs" by auto
    from input_get_next [OF Nil.prems(6) i] i that show ?thesis by (auto simp: read_chan_def scq_empty_def)
  qed
  with read_op.run_input [of q c] Nil.prems(7) have "input_ok (snd cs)" by (metis prod.collapse)
  with reader_ends [of t cs p] r Nil.prems(1,2,4) obtain t' where
    e: "reader_read t = (ReaderDone None, t')" "tproto t' = Some p" "lost t' = lost t @ [None]" "is_closing t'" by auto
  with read_turns [of t P "(ReaderDone None, t')"] Nil.prems(4) leads_refl [of P] have
    "leads P (ReaderLoop, t) (ReaderDone None, t')" by metis
  with e show ?case by auto
next
  case (Cons m ms)
  then have i: "sitems (input c) = Some m # (map Some ms @ eof)" by simp
  from input_get_next [OF Cons.prems(6) i] obtain q' c' where g: "input_get (q, c) = (Inr (Some m), (q', c'))"
    "sitems (input c') = map Some ms @ eof" "closing c' = closing c" "can_resume (q', c')" by blast
  have r: "read_chan (q, c) = (Inr (ReadData (mdata m)), (q', c'))"
    using g(1) i by (simp add: read_chan_def scq_empty_def)
  let ?t = "t\<lparr>tcs := (q', c')\<rparr>"
  have rr: "reader_read t = (ReaderFeed (mdata m), ?t)" using r Cons.prems(1,3) by (simp add: reader_read_def)
  from feed_leads [OF assms(1), of ?t p "mdata m"] Cons.prems(2,4) obtain p1 where
    f: "leads P (ReaderFeed (mdata m), ?t) (ReaderLoop, ?t\<lparr>tproto := Some p1\<rparr>)" "received p1 = received p @ mdata m" by auto
  have "input_ok c'" using read_op.run_input [OF r Cons.prems(7)] .
  with Cons.IH [of "?t\<lparr>tproto := Some p1\<rparr>" q' c' p1] g Cons.prems(3-5) obtain t' p' where
    d: "leads P (ReaderLoop, ?t\<lparr>tproto := Some p1\<rparr>) (ReaderDone None, t')" "tproto t' = Some p'"
    "received p' = received p1 @ concat (map mdata ms)" "lost t' = lost t @ [None]" "is_closing t'" by auto
  have "leads P (ReaderLoop, t) (ReaderDone None, t')"
    using read_turns [OF Cons.prems(4), of P "(ReaderDone None, t')"] rr leads_trans [OF f(1) d(1)] by simp
  with d f(2) show ?case by auto
qed


section \<open>Witnesses\<close>

definition demo_proto :: "bytes proto" where
  "demo_proto = \<lparr>get_buffer = (\<lambda>p n. 2), buffer_updated = (\<lambda>p d. (Inr (), p @ d)), max_size = Some 3\<rparr>"

theorem protocol_receives_stream_witness:
  "\<exists>ph t p. relays demo_proto (\<lambda>p. p) (ReaderFeed [1, 2, 3, 4], set_protocol [] (new_transport demo_chan)) [] (ph, t) \<and>
     tproto t = Some p \<and> p = [1, 2, 3] \<and> [1, 2, 3, 4] = p @ held ph"
proof -
  let ?t = "set_protocol ([] :: bytes) (new_transport demo_chan)"
  have k: "keeps_data demo_proto (\<lambda>p. p)" by (simp add: keeps_data_def demo_proto_def)
  have p0: "tproto ?t = Some []" by (simp add: set_protocol_def)
  have "feed_data_to_buffered_proto demo_proto [1, 2, 3] [] = (Inr (), [1, 2, 3])"
    by (simp add: feed_data_to_buffered_proto.simps demo_proto_def)
  then have r: "reader_task demo_proto (ReaderFeed [1, 2, 3, 4]) ?t = (ReaderFeed [4], ?t\<lparr>tproto := Some [1, 2, 3]\<rparr>)"
    by (simp add: reader_feed_def chunk_size_def set_protocol_def new_transport_def demo_proto_def)
  have "relays demo_proto (\<lambda>p. p) (ReaderFeed [1, 2, 3, 4], ?t) ([] @ taken (ReaderFeed [1, 2, 3, 4]) ?t)
      (ReaderFeed [4], ?t\<lparr>tproto := Some [1, 2, 3]\<rparr>)"
    using del_turn [OF del_start [of demo_proto "\<lambda>p. p"] r] by (simp add: reader_over_def)
  then have d: "relays demo_proto (\<lambda>p. p) (ReaderFeed [1, 2, 3, 4], ?t) [] (ReaderFeed [4], ?t\<lparr>tproto := Some [1, 2, 3]\<rparr>)"
    by (simp add: taken_def)
  from protocol_receives_stream [OF k p0 d] obtain p where "tproto (?t\<lparr>tproto := Some [1, 2, 3]\<rparr>) = Some p"
    "[1, 2, 3, 4] = p @ held (ReaderFeed [4])" by auto
  with d show ?thesis
    by (intro exI [of _ "ReaderFeed [4]"] exI [of _ "?t\<lparr>tproto := Some [1, 2, 3]\<rparr>"] exI [of _ p]) auto
qed


end
