(* ===== verification/AccessList.thy ===== *)
theory AccessList
  imports IpAddress
begin

unbundle bit_operations_syntax

text \<open>
  The per-IP access policy of the client's connectors: \<^verbatim>\<open>snitun/client/access_list.py\<close>, with the
  networks of Python's \<open>ipaddress\<close> module it stores (\<^verbatim>\<open>ip_network(x, strict=False)\<close> and the
  membership test). A network is its masked address and its prefix length.
\<close>

section \<open>Networks\<close>

datatype network =
    IPv4Network "32 word" nat
  | IPv6Network "128 word" "pystr option" nat

text \<open>The netmask of a prefix: the complement of the low \<open>len - p\<close> bits.\<close>

definition netmask :: "nat \<Rightarrow> 'a::len word" where
  "netmask p = NOT (mask (LENGTH('a) - p))"

text \<open>
  \<open>strict=False\<close>: host bits are cleared. An IPv6 network keeps the scope id of its address only
  when no bit had to be cleared.
\<close>

definition make_v4_network :: "32 word \<Rightarrow> nat \<Rightarrow> network" where
  "make_v4_network w p = IPv4Network (w AND netmask p) p"

definition make_v6_network :: "128 word \<Rightarrow> pystr option \<Rightarrow> nat \<Rightarrow> network" where
  "make_v6_network w sc p =
     IPv6Network (w AND netmask p) (if w AND netmask p = w then sc else None) p"

definition prefix_from_string :: "nat \<Rightarrow> pystr \<Rightarrow> nat res" where
  "prefix_from_string len s =
     (if s = [] \<or> \<not> list_all is_digit s then Inl ValueError
      else if len < dec_value s then Inl ValueError
      else Inr (dec_value s))"

text \<open>
  A netmask written as an address: the prefix whose mask it is, if there is one; failing that, the
  prefix whose host mask it is.
\<close>

definition prefix_of_mask :: "32 word \<Rightarrow> nat option" where
  "prefix_of_mask m = List.find (\<lambda>p. netmask p = m) [0..<33]"

definition prefix_from_v4_mask :: "pystr \<Rightarrow> nat res" where
  "prefix_from_v4_mask s =
     rbind (ipv4_of_text s) (\<lambda>v.
       let m = word_of_nat v in
       case prefix_of_mask m of Some p \<Rightarrow> Inr p
       | None \<Rightarrow> (case prefix_of_mask (NOT m) of Some p \<Rightarrow> Inr p | None \<Rightarrow> Inl ValueError))"

text \<open>\<open>str | IPAddress | IPNetwork\<close>, the argument of \<open>add\<close> and \<open>remove\<close>.\<close>

datatype ip_network_like = LikeStr pystr | LikeAddress ip_address | LikeNetwork network

definition v4_network_of_text :: "pystr \<Rightarrow> network res" where
  "v4_network_of_text s =
     (case split_on 47 s of
        [a] \<Rightarrow> rbind (ipv4_of_text a) (\<lambda>v. Inr (make_v4_network (word_of_nat v) 32))
      | [a, m] \<Rightarrow>
          rbind (ipv4_of_text a) (\<lambda>v.
          rbind (case prefix_from_string 32 m of Inr p \<Rightarrow> Inr p | Inl _ \<Rightarrow> prefix_from_v4_mask m)
            (\<lambda>p. Inr (make_v4_network (word_of_nat v) p)))
      | _ \<Rightarrow> Inl ValueError)"

definition v6_network_of_text :: "pystr \<Rightarrow> network res" where
  "v6_network_of_text s =
     (let build = (\<lambda>a p. case a of
             IPv6Address w sc \<Rightarrow> Inr (make_v6_network w sc p)
           | IPv4Address w \<Rightarrow> Inl ValueError)
      in case split_on 47 s of
        [a] \<Rightarrow> rbind (ipv6_address_of_text a) (\<lambda>x. build x 128)
      | [a, m] \<Rightarrow>
          rbind (ipv6_address_of_text a) (\<lambda>x. rbind (prefix_from_string 128 m) (\<lambda>p. build x p))
      | _ \<Rightarrow> Inl ValueError)"

fun ip_network :: "ip_network_like \<Rightarrow> network res" where
  "ip_network (LikeStr s) =
     (case v4_network_of_text s of Inr n \<Rightarrow> Inr n
      | Inl _ \<Rightarrow> (case v6_network_of_text s of Inr n \<Rightarrow> Inr n | Inl _ \<Rightarrow> Inl ValueError))"
| "ip_network (LikeAddress (IPv4Address w)) = Inr (make_v4_network w 32)"
| "ip_network (LikeAddress (IPv6Address w sc)) = Inr (make_v6_network w sc 128)"
| "ip_network (LikeNetwork n) = Inr n"

text \<open>\<^verbatim>\<open>ip_address in network\<close>: same version, and the masked address is the network's.\<close>

fun in_network :: "ip_address \<Rightarrow> network \<Rightarrow> bool" where
  "in_network (IPv4Address a) (IPv4Network n p) = (a AND netmask p = n)"
| "in_network (IPv6Address a _) (IPv6Network n _ p) = (a AND netmask p = n)"
| "in_network _ _ = False"

section \<open>The access list\<close>

datatype AccessListAction = ALLOW | BLOCK

record access_list =
  default_action :: AccessListAction
  networks :: "network set"

definition empty_access_list :: "AccessListAction \<Rightarrow> access_list" where
  "empty_access_list act = \<lparr>default_action = act, networks = {}\<rparr>"

definition add :: "access_list \<Rightarrow> ip_network_like \<Rightarrow> access_list res" where
  "add al n = rbind (ip_network n) (\<lambda>net. Inr (al\<lparr>networks := insert net (networks al)\<rparr>))"

definition remove :: "access_list \<Rightarrow> ip_network_like \<Rightarrow> access_list res" where
  "remove al n = rbind (ip_network n) (\<lambda>net. Inr (al\<lparr>networks := networks al - {net}\<rparr>))"

definition check_policy :: "access_list \<Rightarrow> ip_address \<Rightarrow> bool" where
  "check_policy al ip =
     (let matched = (\<exists>net \<in> networks al. in_network ip net) in
      if default_action al = ALLOW then matched else \<not> matched)"

section \<open>Membership as bits\<close>

text \<open>
  A masked comparison agrees exactly on the leading \<open>p\<close> bits: \<open>a\<close> and \<open>b\<close> are in the same network
  of prefix length \<open>p\<close> when their quotients by \<open>2 ^ (len - p)\<close> agree.
\<close>

lemma netmask_drop:
  fixes a b :: "'a::len word"
  assumes "p \<le> LENGTH('a)"
  shows "a AND netmask p = b AND netmask p \<longleftrightarrow>
         drop_bit (LENGTH('a) - p) a = drop_bit (LENGTH('a) - p) b"
proof -
  let ?k = "LENGTH('a) - p"
  have "a AND netmask p = push_bit ?k (drop_bit ?k a)" for a :: "'a word"
    unfolding netmask_def
    by (rule bit_word_eqI) (auto simp: bit_simps)
  moreover have "drop_bit ?k (push_bit ?k (drop_bit ?k x)) = drop_bit ?k x" for x :: "'a word"
    by (rule bit_word_eqI) (auto simp: bit_simps dest: bit_imp_le_length)
  ultimately show ?thesis by metis
qed

lemma netmask_full [simp]: "netmask LENGTH('a) = (- 1 :: 'a::len word)"
  by (simp add: netmask_def)

lemma netmask_idem: "(w AND netmask p) AND netmask p = (w AND netmask p :: 'a::len word)"
  by (simp add: and.assoc)

lemma in_make_v4_network:
  "p \<le> 32 \<Longrightarrow> in_network (IPv4Address a) (make_v4_network w p) \<longleftrightarrow>
     drop_bit (32 - p) a = drop_bit (32 - p) w"
  using netmask_drop [where 'a = 32, of p a w] by (simp add: make_v4_network_def)

lemma in_make_v6_network:
  "p \<le> 128 \<Longrightarrow> in_network (IPv6Address a s) (make_v6_network w sc p) \<longleftrightarrow>
     drop_bit (128 - p) a = drop_bit (128 - p) w"
  using netmask_drop [where 'a = 128, of p a w] by (simp add: make_v6_network_def)

text \<open>A host entry matches its own address and no other.\<close>

lemma in_host_network:
  "ip_network (LikeAddress a) = Inr net \<Longrightarrow> in_network b net \<longleftrightarrow> drop_scope a = drop_scope b"
  using netmask_full [where 'a = 32] netmask_full [where 'a = 128]
  by (cases a; cases b) (auto simp: make_v4_network_def make_v6_network_def)

lemma check_policy_add:
  "add al n = Inr al' \<Longrightarrow> ip_network n = Inr net \<Longrightarrow>
   check_policy al' ip = (if in_network ip net then default_action al = ALLOW else check_policy al ip)"
  by (cases "default_action al") (auto simp: add_def check_policy_def)

end
