(* ===== verification/Connector.thy ===== *)
theory Connector
  imports Transport AccessList
begin

text \<open>
  The device's side of a connection, \<^verbatim>\<open>snitun/client/connector.py\<close>: the access policy a new channel has to pass,
  the handler that serves a protocol over TLS on a channel, and the handler that bridges a channel to a TCP
  endpoint. What the network and the TLS layer do is an argument. The bridge is a sequence of phases
  with a step for every resumption; its two readers are tasks of their own.
\<close>

unbundle bit_operations_syntax

section \<open>The policy\<close>

definition access_policy :: "access_list option \<Rightarrow> ip_address \<Rightarrow> bool" where
  "access_policy al ip \<longleftrightarrow> (case al of None \<Rightarrow> True | Some l \<Rightarrow> check_policy l ip)"

text \<open>\<open>handle_connection\<close> is the method of the subclass; \<open>None\<close> when it was not called.\<close>

definition connector_handler :: "access_list option \<Rightarrow> (nat \<Rightarrow> mux \<Rightarrow> 'h \<times> mux) \<Rightarrow> nat \<Rightarrow> mux \<Rightarrow> 'h option \<times> mux" where
  "connector_handler al handle_connection r M =
     (if \<not> access_policy al (chan_ip (mobjs M r)) then (None, mux_delete_channel r M)
      else case handle_connection r M of (h, M1) \<Rightarrow> (Some h, M1))"

section \<open>Serving a protocol\<close>

text \<open>An operation of the transport on the channel \<open>r\<close> of the multiplexer.\<close>

definition with_transport ::
    "nat \<Rightarrow> ('p transport \<Rightarrow> 'a \<times> 'p transport) \<Rightarrow> mux \<Rightarrow> 'p transport \<Rightarrow> 'a \<times> mux \<times> 'p transport" where
  "with_transport r f M t =
     (case f (t\<lparr>tcs := (mqueue M, mobjs M r)\<rparr>) of
        (x, t1) \<Rightarrow> (x, snd (with_channel r (\<lambda>_. (Inr (), tcs t1)) M), t1))"

text \<open>
  The handler waits for the TLS handshake, then for the reader task of the transport. It ends because TLS failed, with
  \<open>connection_lost\<close> of the protocol called with the error it got, or with an exception.
\<close>

datatype serve_phase =
  Handshaking
| Serving
| TlsFailed
| ConnectionLost "exn option"
| ServeRaised exn

definition transport_handle_connection :: "nat \<Rightarrow> mux \<Rightarrow> (serve_phase \<times> reader_phase \<times> 'p transport) \<times> mux" where
  "transport_handle_connection r M =
     (let M1 = set_reader_callback r M in
      ((Handshaking, ReaderLoop, new_transport (mqueue M1, mobjs M1 r)), M1))"

definition handler_pause_resume :: "(bool \<Rightarrow> 'p \<Rightarrow> unit res \<times> 'p) \<Rightarrow> bool \<Rightarrow> 'p transport \<Rightarrow> 'p transport" where
  "handler_pause_resume call pause t =
     (if pause then pause_or_resume_protocol call True t else pause_or_resume_protocol call False t)"

definition fail_to_start_tls ::
    "nat \<Rightarrow> reader_phase \<Rightarrow> mux \<Rightarrow> 'p transport \<Rightarrow> serve_phase \<times> reader_phase \<times> mux \<times> 'p transport" where
  "fail_to_start_tls r ph M t =
     (case with_transport r (\<lambda>t. case stop_reader ph t of (x, ph1, t1) \<Rightarrow> ((x, ph1), t1)) (mux_delete_channel r M) t of
        ((Inl e, ph1), M1, t1) \<Rightarrow> (ServeRaised e, ph1, M1, t1)
      | ((Inr _, ph1), M1, t1) \<Rightarrow> (TlsFailed, ph1, M1, t1))"

text \<open>The end of \<open>start\<close>: an \<^verbatim>\<open>Exception\<close> is handed to the protocol, a cancellation passes through.\<close>

definition serve_finish :: "exn option \<Rightarrow> nat \<Rightarrow> mux \<Rightarrow> serve_phase \<times> mux" where
  "serve_finish x r M =
     (case x of
        None \<Rightarrow> (ConnectionLost None, M)
      | Some e \<Rightarrow> (if e = CancelledError then (ServeRaised e, M) else (ConnectionLost (Some e), mux_delete_channel r M)))"

text \<open>\<open>tls\<close> is the outcome of \<open>start_tls\<close>: whether there is a new transport. \<open>made\<close> is that of \<open>connection_made\<close>.\<close>

definition handler_start_tls ::
    "bool res \<Rightarrow> unit res \<Rightarrow> nat \<Rightarrow> reader_phase \<Rightarrow> mux \<Rightarrow> 'p transport \<Rightarrow> serve_phase \<times> reader_phase \<times> mux \<times> 'p transport" where
  "handler_start_tls tls made r ph M t =
     (case tls of
        Inl e \<Rightarrow> (if catches OSError e then fail_to_start_tls r ph M t else (ServeRaised e, ph, M, t))
      | Inr False \<Rightarrow> fail_to_start_tls r ph M t
      | Inr True \<Rightarrow>
          (case made of
             Inl e \<Rightarrow> (case serve_finish (Some e) r M of (sp, M1) \<Rightarrow> (sp, ph, M1, t))
           | Inr _ \<Rightarrow> (Serving, ph, M, t)))"

definition handler_wait_for_close :: "reader_phase \<Rightarrow> nat \<Rightarrow> mux \<Rightarrow> serve_phase \<times> mux" where
  "handler_wait_for_close ph r M = (case ph of ReaderDone x \<Rightarrow> serve_finish x r M | _ \<Rightarrow> (Serving, M))"

section \<open>Bridging to an endpoint\<close>

text \<open>
  The local variables \<open>from_endpoint\<close> (nothing, the pause future, a read, or its result) and \<open>from_peer\<close>.
  A cancelled or retrieved task is gone.
\<close>

datatype from_endpoint = NoRead | PauseFuture nat | ReadTask | ReadResult "bytes res"

datatype from_peer = NoPeerRead | PeerTask | PeerResult "bytes res"

record endpoint =
  emux :: mux
  eref :: nat
  erd :: reader
  ewr :: writer
  ewclosed :: bool
  eflow :: flow_control
  efrom :: from_endpoint
  epeer :: from_peer

definition endpoint_handle_connection :: "nat \<Rightarrow> mux \<Rightarrow> flow_control \<times> mux" where
  "endpoint_handle_connection r M = (new_flow_control, set_reader_callback r M)"

text \<open>
  \<open>conn\<close> is the outcome of \<open>open_connection\<close>. A failure ends the handler: the channel is deleted and the
  error callback called, if there is one.
\<close>

datatype opened = Opened endpoint | OpenFailed bool | OpenRaised exn

definition endpoint_open :: "bool \<Rightarrow> (reader \<times> writer) res \<Rightarrow> nat \<Rightarrow> flow_control \<Rightarrow> mux \<Rightarrow> opened \<times> mux" where
  "endpoint_open error_callback conn r fl M =
     (case conn of
        Inl e \<Rightarrow> (if catches OSError e then (OpenFailed error_callback, mux_delete_channel r M) else (OpenRaised e, M))
      | Inr (rd, wr) \<Rightarrow>
          (Opened \<lparr>emux = M, eref = r, erd = rd, ewr = wr, ewclosed = False, eflow = fl, efrom = NoRead, epeer = NoPeerRead\<rparr>, M))"

datatype endpoint_phase = EndpointLoop | EndpointWait | EndpointWriting message nat nat | EndpointEnded "exn option"

text \<open>The two tasks, once they can complete.\<close>

definition endpoint_read_task :: "endpoint \<Rightarrow> endpoint" where
  "endpoint_read_task s =
     (if efrom s \<noteq> ReadTask \<or> chunks (erd s) = [] \<and> ending (erd s) = Stall then s
      else case read 4096 (erd s) of (x, r) \<Rightarrow> s\<lparr>erd := r, efrom := ReadResult x\<rparr>)"

definition peer_read_task :: "endpoint \<Rightarrow> endpoint" where
  "peer_read_task s =
     (if epeer s \<noteq> PeerTask then s
      else case with_channel (eref s) read_chan (emux s) of
             (Inl e, M) \<Rightarrow> s\<lparr>emux := M, epeer := PeerResult (Inl e)\<rparr>
           | (Inr ReadWaits, M) \<Rightarrow> s
           | (Inr (ReadData d), M) \<Rightarrow> s\<lparr>emux := M, epeer := PeerResult (Inr d)\<rparr>)"

definition endpoint_caught :: "exn \<Rightarrow> bool" where
  "endpoint_caught e \<longleftrightarrow> catches MultiplexerTransportError e \<or> catches OSError e \<or> catches RuntimeError e"

definition cancel_from_endpoint :: "endpoint \<Rightarrow> endpoint" where
  "cancel_from_endpoint s =
     (case efrom s of
        PauseFuture f \<Rightarrow>
          (if ffuts (eflow s) f = FPending
           then s\<lparr>eflow := (eflow s)\<lparr>ffuts := (ffuts (eflow s))(f := FCancelled)\<rparr>, efrom := NoRead\<rparr>
           else s\<lparr>efrom := NoRead\<rparr>)
      | _ \<Rightarrow> s\<lparr>efrom := NoRead\<rparr>)"

definition endpoint_finish :: "exn option \<Rightarrow> endpoint \<Rightarrow> endpoint_phase \<times> endpoint" where
  "endpoint_finish x s =
     (let s1 = (case x of
                  None \<Rightarrow> s
                | Some e \<Rightarrow> (if endpoint_caught e then s\<lparr>emux := mux_delete_channel (eref s) (emux s)\<rparr> else s));
          s2 = cancel_from_endpoint (s1\<lparr>epeer := NoPeerRead\<rparr>)
      in (EndpointEnded (case x of None \<Rightarrow> None
            | Some e \<Rightarrow> if endpoint_caught e \<or> catches MultiplexerTransportClose e then None else Some e),
          s2\<lparr>ewclosed := True\<rparr>))"

text \<open>The second half of an iteration; \<open>drained\<close> is the outcome of \<open>drain\<close>. A closed transport drops what is written to it.\<close>

definition process_peer :: "unit res \<Rightarrow> endpoint \<Rightarrow> endpoint_phase \<times> endpoint" where
  "process_peer drained s =
     (case epeer s of
        PeerResult (Inl e) \<Rightarrow> endpoint_finish (Some e) s
      | PeerResult (Inr d) \<Rightarrow>
          (case (if ewclosed s then Inr (ewr s) else writer_write d (ewr s)) of
             Inl e \<Rightarrow> endpoint_finish (Some e) s
           | Inr w \<Rightarrow>
               (let s1 = s\<lparr>ewr := w, epeer := NoPeerRead\<rparr> in
                case drained of Inl e \<Rightarrow> endpoint_finish (Some e) s1 | Inr _ \<Rightarrow> (EndpointLoop, s1)))
      | _ \<Rightarrow> (EndpointLoop, s))"

definition after_endpoint_write :: "unit res \<Rightarrow> write_outcome res \<times> mux \<Rightarrow> endpoint \<Rightarrow> endpoint_phase \<times> endpoint" where
  "after_endpoint_write drained x s =
     (case x of
        (Inl e, M) \<Rightarrow> endpoint_finish (Some e) (s\<lparr>emux := M\<rparr>)
      | (Inr WriteDone, M) \<Rightarrow> process_peer drained (s\<lparr>emux := M, efrom := NoRead\<rparr>)
      | (Inr (WriteWaits m f q), M) \<Rightarrow> (EndpointWriting m f q, s\<lparr>emux := M\<rparr>))"

definition process_endpoint :: "unit res \<Rightarrow> endpoint \<Rightarrow> endpoint_phase \<times> endpoint" where
  "process_endpoint drained s =
     (case efrom s of
        ReadResult (Inl e) \<Rightarrow> endpoint_finish (Some e) s
      | ReadResult (Inr d) \<Rightarrow> after_endpoint_write drained (with_channel (eref s) (write_start d) (emux s)) s
      | PauseFuture f \<Rightarrow>
          (case ffuts (eflow s) f of
             FPending \<Rightarrow> process_peer drained s
           | FDone \<Rightarrow> process_peer drained (s\<lparr>efrom := NoRead\<rparr>)
           | FCancelled \<Rightarrow> endpoint_finish (Some CancelledError) s)
      | _ \<Rightarrow> process_peer drained s)"

definition endpoint_ready :: "endpoint \<Rightarrow> bool" where
  "endpoint_ready s \<longleftrightarrow> (case efrom s of ReadResult _ \<Rightarrow> True | PauseFuture f \<Rightarrow> ffuts (eflow s) f \<noteq> FPending | _ \<Rightarrow> False) \<or>
     (case epeer s of PeerResult _ \<Rightarrow> True | _ \<Rightarrow> False)"

definition start_reads :: "endpoint \<Rightarrow> endpoint" where
  "start_reads s =
     (let s1 = (if efrom s = NoRead
                then s\<lparr>efrom := (case pause_future (eflow s) of Some f \<Rightarrow> PauseFuture f | None \<Rightarrow> ReadTask)\<rparr> else s)
      in if epeer s1 = NoPeerRead then s1\<lparr>epeer := PeerTask\<rparr> else s1)"

fun endpoint_loop :: "unit res \<Rightarrow> endpoint_phase \<Rightarrow> endpoint \<Rightarrow> endpoint_phase \<times> endpoint" where
  "endpoint_loop drained EndpointLoop s = (if ewclosed s then endpoint_finish None s else (EndpointWait, start_reads s))"
| "endpoint_loop drained EndpointWait s = (if endpoint_ready s then process_endpoint drained s else (EndpointWait, s))"
| "endpoint_loop drained (EndpointWriting m f q) s =
     after_endpoint_write drained (with_channel (eref s) (write_resume m q) (emux s)) s"
| "endpoint_loop drained (EndpointEnded x) s = (EndpointEnded x, s)"

text \<open>The five seconds of a waiting write are over; the handler's task is cancelled.\<close>

fun endpoint_write_timeout :: "endpoint_phase \<Rightarrow> endpoint \<Rightarrow> endpoint_phase \<times> endpoint" where
  "endpoint_write_timeout (EndpointWriting m f q) s =
     after_endpoint_write (Inr ()) (with_channel (eref s) (write_timeout f q) (emux s)) s"
| "endpoint_write_timeout p s = (p, s)"

fun endpoint_cancel :: "endpoint_phase \<Rightarrow> endpoint \<Rightarrow> endpoint_phase \<times> endpoint" where
  "endpoint_cancel (EndpointEnded x) s = (EndpointEnded x, s)"
| "endpoint_cancel (EndpointWriting m f q) s =
     endpoint_finish (Some CancelledError) (s\<lparr>emux := set_queue (put_cancel (mqueue (emux s)) (chid (mobjs (emux s) (eref s))) q f) (emux s)\<rparr>)"
| "endpoint_cancel p s = endpoint_finish (Some CancelledError) s"

section \<open>The bridge loses nothing\<close>

text \<open>What was read from one side and has not reached the other.\<close>

definition up_held :: "endpoint \<Rightarrow> bytes" where
  "up_held s = (case efrom s of ReadResult (Inr d) \<Rightarrow> d | _ \<Rightarrow> [])"

definition down_held :: "endpoint \<Rightarrow> bytes" where
  "down_held s = (case epeer s of PeerResult (Inr d) \<Rightarrow> d | _ \<Rightarrow> [])"

definition peer_taken :: "endpoint \<Rightarrow> bytes list" where
  "peer_taken s = (case (epeer s, fst (with_channel (eref s) read_chan (emux s))) of
     (PeerTask, Inr (ReadData d)) \<Rightarrow> [d] | _ \<Rightarrow> [])"

abbreviation echan :: "endpoint \<Rightarrow> channel_id" where
  "echan s \<equiv> chid (mobjs (emux s) (eref s))"

definition endpoint_over :: "endpoint_phase \<Rightarrow> bool" where
  "endpoint_over p \<longleftrightarrow> (case p of EndpointEnded _ \<Rightarrow> True | _ \<Rightarrow> False)"

text \<open>A suspended write holds the message it was called for and the queue object of the channel.\<close>

definition waiting_ok :: "endpoint_phase \<Rightarrow> endpoint \<Rightarrow> bool" where
  "waiting_ok p s \<longleftrightarrow> (case p of EndpointWriting m f q \<Rightarrow>
     q = eref s \<and> mdata m \<noteq> [] \<and> m = data_message (echan s) (mdata m) \<and> efrom s = ReadResult (Inr (mdata m)) | _ \<Rightarrow> True)"

lemma endpoint_over_finish [simp]: "endpoint_over (fst (endpoint_finish x s))"
  by (simp add: endpoint_over_def endpoint_finish_def Let_def)

lemma not_finish: "\<not> endpoint_over p \<Longrightarrow> endpoint_finish x s \<noteq> (p, s')"
  using endpoint_over_finish [of x s] by (metis fst_conv)

text \<open>The second half of an iteration touches only the writer.\<close>

lemma process_peer_effect:
  assumes "process_peer drained s = (p, s')" and "\<not> endpoint_over p"
  shows "p = EndpointLoop" "emux s' = emux s" "eref s' = eref s" "erd s' = erd s" "efrom s' = efrom s" "ewclosed s' = ewclosed s"
    "\<not> ewclosed s' \<Longrightarrow> sent (ewr s) @ down_held s = sent (ewr s') @ down_held s'"
  using assms not_finish [OF assms(2)]
  by (auto simp: process_peer_def down_held_def writer_write_def Let_def
    split: from_peer.splits sum.splits if_splits)

text \<open>
  An iteration takes data from the endpoint to the queue of the channel as DATA messages, and from the channel
  to the writer, in order.
\<close>

definition carries :: "endpoint \<Rightarrow> endpoint_phase \<times> endpoint \<Rightarrow> bytes list \<Rightarrow> bool" where
  "carries s x es \<longleftrightarrow> (case x of (p', s') \<Rightarrow>
     up_held s @ pending (erd s) = concat es @ up_held s' @ pending (erd s') \<and> [] \<notin> set es \<and>
     echan s' = echan s \<and> eref s' = eref s \<and> ewclosed s' = ewclosed s \<and> waiting_ok p' s' \<and>
     (\<not> ewclosed s' \<longrightarrow> sent (ewr s) @ down_held s = sent (ewr s') @ down_held s') \<and>
     contents (mqueue (emux s')) (echan s) =
       contents (mqueue (emux s)) (echan s) @ map (\<lambda>d. Some (data_message (echan s) d)) es)"

lemma process_peer_carries:
  assumes "process_peer drained s = (p', s')" and "\<not> endpoint_over p'"
  shows "carries s (p', s') []"
  using process_peer_effect [OF assms] by (simp add: carries_def waiting_ok_def up_held_def)

lemma after_endpoint_write_carries:
  assumes "after_endpoint_write drained (with_channel (eref s) f (emux s)) s = (p', s')" and "\<not> endpoint_over p'"
    and "efrom s = ReadResult (Inr d)"
    and w: "\<And>x q' c'. f (mqueue (emux s), mobjs (emux s) (eref s)) = (Inr x, (q', c')) \<Longrightarrow>
      d \<noteq> [] \<and> contents q' (echan s) = contents (mqueue (emux s)) (echan s) @
        (case x of WriteDone \<Rightarrow> [Some (data_message (echan s) d)] | _ \<Rightarrow> []) \<and>
      (\<forall>m f k. x = WriteWaits m f k \<longrightarrow> m = data_message (echan s) d \<and> k = eref s) \<and> chid c' = echan s"
  shows "\<exists>es. carries s (p', s') es"
proof -
  obtain x M where x: "with_channel (eref s) f (emux s) = (x, M)" by fastforce
  with assms(1) not_finish [OF assms(2)] obtain y where y: "x = Inr y" by (cases x) (auto simp: after_endpoint_write_def)
  from w [OF with_channel_fields [OF x [unfolded y]]] have c: "d \<noteq> []" "chid (mobjs M (eref s)) = echan s"
    "contents (mqueue M) (echan s) = contents (mqueue (emux s)) (echan s) @
        (case y of WriteDone \<Rightarrow> [Some (data_message (echan s) d)] | _ \<Rightarrow> [])"
    "\<And>m f k. y = WriteWaits m f k \<Longrightarrow> m = data_message (echan s) d \<and> k = eref s" by blast+
  show ?thesis
  proof (cases y)
    case WriteDone
    with assms(1) x y have "process_peer drained (s\<lparr>emux := M, efrom := NoRead\<rparr>) = (p', s')"
      by (simp add: after_endpoint_write_def)
    from process_peer_effect [OF this assms(2)] WriteDone c assms(3) show ?thesis
      by (intro exI [of _ "[d]"]) (simp add: carries_def waiting_ok_def up_held_def down_held_def)
  next
    case (WriteWaits m f' k)
    with assms(1,3) x y c show ?thesis
      by (intro exI [of _ "[]"]) (auto simp: after_endpoint_write_def carries_def waiting_ok_def up_held_def down_held_def)
  qed
qed

lemma endpoint_turn_carries:
  assumes q: "mcq_inv (mqueue (emux s))" "channels (mqueue (emux s)) (echan s) = Some (eref s)"
    and w: "waiting_ok p s" and t: "endpoint_loop drained p s = (p', s')" and e: "\<not> endpoint_over p'"
  shows "\<exists>es. carries s (p', s') es"
proof (cases p)
  case EndpointLoop
  with t not_finish [OF e] have "p' = EndpointWait" "s' = start_reads s" by (auto split: if_splits)
  then show ?thesis
    by (intro exI [of _ "[]"]) (auto simp: carries_def waiting_ok_def start_reads_def up_held_def down_held_def Let_def split: option.splits)
next
  case EndpointWait
  show ?thesis
  proof (cases "endpoint_ready s \<and> (\<exists>d. efrom s = ReadResult (Inr d))")
    case True
    then obtain d where d: "efrom s = ReadResult (Inr d)" by blast
    with EndpointWait True t have "after_endpoint_write drained (with_channel (eref s) (write_start d) (emux s)) s = (p', s')"
      by (simp add: process_endpoint_def)
    from after_endpoint_write_carries [OF this e d] show ?thesis using write_start_contents [OF q] by blast
  next
    case False
    then have "(p', s') = (EndpointWait, s) \<or> process_peer drained s = (p', s') \<or>
        (\<exists>f. efrom s = PauseFuture f \<and> process_peer drained (s\<lparr>efrom := NoRead\<rparr>) = (p', s'))"
      using EndpointWait t not_finish [OF e]
      by (auto simp: process_endpoint_def split: if_splits from_endpoint.splits sum.splits fut.splits)
    then show ?thesis
    proof (elim disjE exE conjE)
      fix f assume f: "efrom s = PauseFuture f" "process_peer drained (s\<lparr>efrom := NoRead\<rparr>) = (p', s')"
      from process_peer_carries [OF f(2) e] f(1) show ?thesis
        by (intro exI [of _ "[]"]) (auto simp: carries_def up_held_def down_held_def)
    next
      assume "process_peer drained s = (p', s')"
      from process_peer_carries [OF this e] show ?thesis ..
    next
      assume "(p', s') = (EndpointWait, s)"
      then show ?thesis by (intro exI [of _ "[]"]) (simp add: carries_def waiting_ok_def)
    qed
  qed
next
  case (EndpointWriting m f k)
  with w have w: "k = eref s" "mdata m \<noteq> []" "m = data_message (echan s) (mdata m)" "efrom s = ReadResult (Inr (mdata m))"
    by (auto simp: waiting_ok_def)
  from t EndpointWriting have "after_endpoint_write drained (with_channel (eref s) (write_resume m k) (emux s)) s = (p', s')" by simp
  from this e w(4) show ?thesis
  proof (rule after_endpoint_write_carries)
    fix x q' c' assume "write_resume m k (mqueue (emux s), mobjs (emux s) (eref s)) = (Inr x, (q', c'))"
    from write_resume_contents [OF q this [unfolded w(1)]] w(2)
    show "mdata m \<noteq> [] \<and> contents q' (echan s) = contents (mqueue (emux s)) (echan s) @
        (case x of WriteDone \<Rightarrow> [Some (data_message (echan s) (mdata m))] | _ \<Rightarrow> []) \<and>
      (\<forall>m' f k. x = WriteWaits m' f k \<longrightarrow> m' = data_message (echan s) (mdata m) \<and> k = eref s) \<and> chid c' = echan s"
      unfolding w(3) [symmetric] by simp
  qed
next
  case (EndpointEnded x)
  with t e show ?thesis by (auto simp: endpoint_over_def)
qed

text \<open>
  A bridge as it runs: turns of the handler, the two reader tasks, and between them whatever else happens to
  the multiplexer, to the pause future and to the endpoint's connection. The lists are the payloads of
  the DATA messages the handler queued and the payloads its reader took from the channel.
\<close>

inductive bridges :: "endpoint_phase \<times> endpoint \<Rightarrow> bytes list \<Rightarrow> bytes list \<Rightarrow> endpoint_phase \<times> endpoint \<Rightarrow> bool" for start where
  br_start: "bridges start [] [] start"
| br_turn: "bridges start us ds (p, s) \<Longrightarrow> mcq_inv (mqueue (emux s)) \<Longrightarrow>
    channels (mqueue (emux s)) (echan s) = Some (eref s) \<Longrightarrow> endpoint_loop drained p s = (p', s') \<Longrightarrow> \<not> endpoint_over p' \<Longrightarrow>
    contents (mqueue (emux s')) (echan s) =
      contents (mqueue (emux s)) (echan s) @ map (\<lambda>d. Some (data_message (echan s) d)) es \<Longrightarrow>
    bridges start (us @ es) ds (p', s')"
| br_endpoint: "bridges start us ds (p, s) \<Longrightarrow> bridges start us ds (p, endpoint_read_task s)"
| br_peer: "bridges start us ds (p, s) \<Longrightarrow> bridges start us (ds @ peer_taken s) (p, peer_read_task s)"
| br_others: "bridges start us ds (p, s) \<Longrightarrow> echan (s\<lparr>emux := M\<rparr>) = echan s \<Longrightarrow>
    bridges start us ds (p, s\<lparr>emux := M, eflow := fl, ewclosed := ewclosed s \<or> b\<rparr>)"

definition bridge_inv :: "endpoint_phase \<times> endpoint \<Rightarrow> bytes list \<Rightarrow> bytes list \<Rightarrow> endpoint_phase \<times> endpoint \<Rightarrow> bool" where
  "bridge_inv x us ds y \<longleftrightarrow> (case (x, y) of ((_, s0), (p, s)) \<Rightarrow> waiting_ok p s \<and> [] \<notin> set us \<and>
     up_held s0 @ pending (erd s0) = concat us @ up_held s @ pending (erd s) \<and>
     (\<not> ewclosed s \<longrightarrow> sent (ewr s0) @ down_held s0 @ concat ds = sent (ewr s) @ down_held s))"

lemma endpoint_read_keeps:
  "waiting_ok p s \<Longrightarrow> waiting_ok p (endpoint_read_task s)"
  "up_held (endpoint_read_task s) @ pending (erd (endpoint_read_task s)) = up_held s @ pending (erd s)"
  "ewr (endpoint_read_task s) = ewr s" "down_held (endpoint_read_task s) = down_held s" "ewclosed (endpoint_read_task s) = ewclosed s"
proof -
  obtain x r where r: "read 4096 (erd s) = (x, r)" by fastforce
  show "up_held (endpoint_read_task s) @ pending (erd (endpoint_read_task s)) = up_held s @ pending (erd s)"
    using r read_pending [of 4096 "erd s"]
    by (cases x) (auto simp: endpoint_read_task_def up_held_def read_def split: list.splits)
qed (auto simp: endpoint_read_task_def waiting_ok_def down_held_def split: prod.splits endpoint_phase.splits)

lemma peer_read_keeps:
  "waiting_ok p s \<Longrightarrow> waiting_ok p (peer_read_task s)" "up_held (peer_read_task s) = up_held s" "erd (peer_read_task s) = erd s"
  "ewr (peer_read_task s) = ewr s" "ewclosed (peer_read_task s) = ewclosed s"
  "down_held (peer_read_task s) = down_held s @ concat (peer_taken s)"
proof -
  obtain x M where x: "with_channel (eref s) read_chan (emux s) = (x, M)" by fastforce
  have "chid (mobjs M (eref s)) = echan s" using read_op.with_channel_keeps [OF x] by simp
  with x show "waiting_ok p s \<Longrightarrow> waiting_ok p (peer_read_task s)"
    by (auto simp: peer_read_task_def waiting_ok_def split: endpoint_phase.splits sum.splits read_outcome.splits)
  show "down_held (peer_read_task s) = down_held s @ concat (peer_taken s)"
    using x by (cases "epeer s") (auto simp: peer_read_task_def peer_taken_def down_held_def split: sum.splits read_outcome.splits)
qed (auto simp: peer_read_task_def up_held_def split: prod.splits sum.splits read_outcome.splits)

lemma bridges_inv:
  "bridges x us ds y \<Longrightarrow> waiting_ok (fst x) (snd x) \<Longrightarrow> bridge_inv x us ds y"
proof (induction rule: bridges.induct)
  case br_start
  then show ?case by (auto simp: bridge_inv_def split: prod.split)
next
  case (br_turn us ds p s drained p' s' es)
  then have i: "bridge_inv x us ds (p, s)" by blast
  with endpoint_turn_carries [OF br_turn.hyps(2,3) _ br_turn.hyps(4,5)] obtain es' where c: "carries s (p', s') es'"
    by (auto simp: bridge_inv_def split: prod.splits)
  then have "es' = es" using br_turn.hyps(6) by (auto simp: carries_def dest: data_messages_inj)
  with c i show ?case by (auto simp: bridge_inv_def carries_def split: prod.splits)
next
  case (br_endpoint us ds p s)
  with endpoint_read_keeps(1) [of p s] endpoint_read_keeps(2-) [of s] show ?case by (auto simp: bridge_inv_def split: prod.splits)
next
  case (br_peer us ds p s)
  with peer_read_keeps(1) [of p s] peer_read_keeps(2-) [of s] show ?case by (auto simp: bridge_inv_def split: prod.splits)
next
  case (br_others us ds p s M)
  have i: "bridge_inv x us ds (p, s)" using br_others by blast
  have "waiting_ok p (s\<lparr>emux := M, eflow := fl, ewclosed := b\<rparr>) = waiting_ok p s" for fl b
    unfolding waiting_ok_def using br_others.hyps(2) by (simp split: endpoint_phase.split)
  with i show ?case by (auto simp: bridge_inv_def up_held_def down_held_def split: prod.splits)
qed


text \<open>A turn that goes on always has such an account, so that the relation follows every run of the handler.\<close>

lemma bridges_progress:
  assumes "bridges x us ds (p, s)" and "waiting_ok (fst x) (snd x)" and "mcq_inv (mqueue (emux s))"
    and "channels (mqueue (emux s)) (echan s) = Some (eref s)" and "endpoint_loop drained p s = (p', s')" and "\<not> endpoint_over p'"
  shows "\<exists>es. bridges x (us @ es) ds (p', s')"
proof -
  have "waiting_ok p s" using bridges_inv [OF assms(1,2)] by (simp add: bridge_inv_def split: prod.splits)
  from endpoint_turn_carries [OF assms(3,4) this assms(5,6)] obtain es where "carries s (p', s') es" by blast
  with br_turn [OF assms(1,3-6)] show ?thesis by (auto simp: carries_def)
qed

section \<open>The end of a bridge\<close>

lemma mux_delete_unregisters: "map_of (mchannels (mux_delete_channel r M)) (chid (mobjs M r)) = None"
  by (auto simp: mux_delete_channel_def delete_channel_and_queue_def Let_def map_of_delete split: sum.split)

lemma cancel_from_endpoint_fields [simp]:
  "emux (cancel_from_endpoint s) = emux s" "eref (cancel_from_endpoint s) = eref s" "epeer (cancel_from_endpoint s) = epeer s"
  "efrom (cancel_from_endpoint s) = NoRead"
  by (simp_all add: cancel_from_endpoint_def split: from_endpoint.split)

text \<open>
  However the handler ends, the endpoint's connection is closed and no task is left; when it ends with an error of
  the endpoint, with the end of its stream or with a failed write, the channel is no longer registered.
\<close>

lemma endpoint_finish_cleans:
  assumes "endpoint_finish x s = (p, s')"
  shows "ewclosed s' \<and> efrom s' = NoRead \<and> epeer s' = NoPeerRead \<and>
    (\<forall>e. x = Some e \<longrightarrow> endpoint_caught e \<longrightarrow> p = EndpointEnded None \<and> map_of (mchannels (emux s')) (echan s) = None)"
  using assms mux_delete_unregisters [of "eref s" "emux s"] by (auto simp: endpoint_finish_def Let_def split: option.splits)

lemma endpoint_eof_ends:
  assumes "efrom s = ReadResult (Inr [])" and "endpoint_loop drained EndpointWait s = (p, s')"
  shows "p = EndpointEnded None \<and> ewclosed s' \<and> map_of (mchannels (emux s')) (echan s) = None"
proof -
  obtain M where w: "with_channel (eref s) (write_start []) (emux s) = (Inl MultiplexerTransportError, M)"
    "chid (mobjs M (eref s)) = echan s"
    by (simp add: with_channel_def write_start_def make_message_or_raise_def)
  have "endpoint_finish (Some MultiplexerTransportError) (s\<lparr>emux := M\<rparr>) = (p, s')"
    using assms by (simp add: endpoint_ready_def process_endpoint_def w(1) after_endpoint_write_def)
  from endpoint_finish_cleans [OF this] w(2) show ?thesis by (simp add: endpoint_caught_def catches_def)
qed

section \<open>The policy is enforced\<close>

text \<open>
  Networks as Python keeps them: the prefix fits and the host bits are zero. An address is in a network when both have the
  same version and the same leading bits.
\<close>

fun net_ok :: "network \<Rightarrow> bool" where
  "net_ok (IPv4Network n p) \<longleftrightarrow> p \<le> 32 \<and> n AND netmask p = n"
| "net_ok (IPv6Network n _ p) \<longleftrightarrow> p \<le> 128 \<and> n AND netmask p = n"

fun same_prefix :: "ip_address \<Rightarrow> network \<Rightarrow> bool" where
  "same_prefix (IPv4Address a) (IPv4Network n p) = (unat a div 2 ^ (32 - p) = unat n div 2 ^ (32 - p))"
| "same_prefix (IPv6Address a _) (IPv6Network n _ p) = (unat a div 2 ^ (128 - p) = unat n div 2 ^ (128 - p))"
| "same_prefix _ _ = False"

lemma masked_prefix:
  fixes a n :: "'a::len word"
  assumes "p \<le> LENGTH('a)" and "n AND netmask p = n"
  shows "a AND netmask p = n \<longleftrightarrow> unat a div 2 ^ (LENGTH('a) - p) = unat n div 2 ^ (LENGTH('a) - p)"
proof -
  let ?k = "LENGTH('a) - p"
  have "a AND netmask p = n \<longleftrightarrow> drop_bit ?k a = drop_bit ?k n" using netmask_drop [OF assms(1), of a n] assms(2) by simp
  also have "\<dots> \<longleftrightarrow> unat (drop_bit ?k a) = unat (drop_bit ?k n)" by (rule word_unat_eq_iff)
  also have "\<dots> \<longleftrightarrow> drop_bit ?k (unat a) = drop_bit ?k (unat n)" by (simp only: unat_drop_bit_eq)
  finally show ?thesis by (simp only: drop_bit_eq_div)
qed

lemma in_network_prefix: "net_ok net \<Longrightarrow> in_network a net \<longleftrightarrow> same_prefix a net"
  by (cases a; cases net) (simp_all add: masked_prefix [where 'a = 32, simplified] masked_prefix [where 'a = 128, simplified])

text \<open>Every operation of an access list keeps its networks well-formed.\<close>

definition list_ok :: "access_list \<Rightarrow> bool" where "list_ok al \<longleftrightarrow> (\<forall>net \<in> networks al. net_ok net)"

lemma net_ok_make:
  "p \<le> 32 \<Longrightarrow> net_ok (make_v4_network w p)" "p \<le> 128 \<Longrightarrow> net_ok (make_v6_network v sc p)"
  by (simp_all add: make_v4_network_def make_v6_network_def netmask_idem)

lemma prefix_from_string_le: "prefix_from_string len s = Inr p \<Longrightarrow> p \<le> len"
  by (auto simp: prefix_from_string_def split: if_splits)

lemma prefix_from_mask_le: "prefix_from_v4_mask s = Inr p \<Longrightarrow> p \<le> 32"
  by (auto simp: prefix_from_v4_mask_def prefix_of_mask_def rbind_def Let_def find_Some_iff split: sum.splits option.splits)

lemma net_ok_text: "v4_network_of_text s = Inr net \<Longrightarrow> net_ok net" "v6_network_of_text s = Inr net \<Longrightarrow> net_ok net"
  by (auto simp: v4_network_of_text_def v6_network_of_text_def rbind_def Let_def net_ok_make prefix_from_string_le prefix_from_mask_le
    split: sum.splits list.splits ip_address.splits)

lemma net_ok_ip_network: "ip_network n = Inr net \<Longrightarrow> (\<And>m. n = LikeNetwork m \<Longrightarrow> net_ok m) \<Longrightarrow> net_ok net"
  by (cases n rule: ip_network.cases) (auto simp: net_ok_make net_ok_text split: sum.splits)

lemma list_ok_add:
  assumes "list_ok al" and "add al n = Inr al'" and "\<And>m. n = LikeNetwork m \<Longrightarrow> net_ok m"
  shows "list_ok al'"
proof -
  obtain net where "ip_network n = Inr net" "al' = al\<lparr>networks := insert net (networks al)\<rparr>"
    using assms(2) by (auto simp: add_def rbind_def split: sum.splits)
  with net_ok_ip_network [OF _ assms(3)] assms(1) show ?thesis by (simp add: list_ok_def)
qed

lemma list_ok_operations:
  "list_ok (empty_access_list act)" "list_ok al \<Longrightarrow> remove al n = Inr al' \<Longrightarrow> list_ok al'"
  by (auto simp: list_ok_def empty_access_list_def remove_def rbind_def split: sum.splits)

text \<open>Who may connect: everyone without a list; else those in one of its networks, or those in none of them.\<close>

definition permitted :: "access_list option \<Rightarrow> ip_address \<Rightarrow> bool" where
  "permitted al ip \<longleftrightarrow> (case al of None \<Rightarrow> True
     | Some l \<Rightarrow> (default_action l = ALLOW) = (\<exists>net \<in> networks l. same_prefix ip net))"

lemma access_policy_permitted: "(\<And>l. al = Some l \<Longrightarrow> list_ok l) \<Longrightarrow> access_policy al ip = permitted al ip"
  by (cases al) (auto simp: access_policy_def permitted_def check_policy_def list_ok_def in_network_prefix Let_def)

text \<open>Deleting a registered channel: its CLOSE message is the last of its queue and no other channel is touched.\<close>

lemma mux_delete_effect:
  assumes "mux_inv M" and "map_of (mchannels M) cid = Some r"
  shows "mchannels (mux_delete_channel r M) = AList.delete cid (mchannels M)"
    "contents (mqueue (mux_delete_channel r M)) =
       (\<lambda>x. if x = cid then contents (mqueue M) cid @ [Some (init_close (mobjs M r))] else contents (mqueue M) x)"
proof -
  note R = registered_facts [OF assms]
  let ?m = "Some (init_close (mobjs M r))" and ?q = "q_put (mqueue M) cid r (Some (init_close (mobjs M r)))"
  have p: "put_nowait_force (mqueue M) cid ?m = Inr ?q" using R(3) by (simp add: put_nowait_force_def)
  have c: "contents ?q = (\<lambda>x. if x = cid then contents (mqueue M) cid @ [?m] else contents (mqueue M) x)"
    using contents_q_put [OF R(1,3)] .
  have "contents (delete_channel ?q cid) = contents ?q"
  proof (rule ext)
    fix x
    have "items (heap ?q k) \<noteq> []" if "channels ?q cid = Some k" for k
      using fun_cong [OF c, of cid] that by (auto simp: contents_def)
    then show "contents (delete_channel ?q cid) x = contents ?q x"
      by (auto simp: delete_channel_def contents_def split: option.split)
  qed
  with c p R(2) assms(2)
  show "mchannels (mux_delete_channel r M) = AList.delete cid (mchannels M)"
    "contents (mqueue (mux_delete_channel r M)) =
       (\<lambda>x. if x = cid then contents (mqueue M) cid @ [?m] else contents (mqueue M) x)"
    by (simp_all add: mux_delete_channel_def delete_channel_and_queue_def Let_def)
qed

text \<open>
  C6: A device decides by the visitor's address who gets through: when the server opens a channel for a visitor, the
  device, which accepts connections and speaks the same protocol version, starts one handler for it; the handler serves the
  channel when the visitor's address (before version 2: the empty address for an IPv6 visitor) is permitted by the
  leading bits of the networks in the list, and otherwise queues a CLOSE message, unregisters the channel, serves
  nothing and touches no other channel.
\<close>
theorem visitor_policy:
  assumes "mux_inv M" and "accept_new M" and "mversion M = peer_version c" and "chid c \<noteq> []"
    and "channels (mqueue M) (chid c) = None" and "sees (fst (init_new c e)) m" and "\<And>l. al = Some l \<Longrightarrow> list_ok l"
  shows "\<exists>M1 r. dispatch aes m M = (Inr (), M1) \<and> handlers M1 = handlers M @ [r] \<and>
    (if permitted al (shown_address (peer_version c) (chan_ip c))
     then \<forall>serve :: nat \<Rightarrow> mux \<Rightarrow> 'h \<times> mux. connector_handler al serve r M1 = (Some (fst (serve r M1)), snd (serve r M1))
     else \<exists>M2. (\<forall>serve :: nat \<Rightarrow> mux \<Rightarrow> 'h \<times> mux. connector_handler al serve r M1 = (None, M2)) \<and> map_of (mchannels M2) (chid c) = None \<and>
       contents (mqueue M2) (chid c) = contents (mqueue M1) (chid c) @ [Some (make_message (chid c) CHANNEL_FLOW_CLOSE [] [])] \<and>
       (\<forall>x. x \<noteq> chid c \<longrightarrow> map_of (mchannels M2) x = map_of (mchannels M) x \<and>
          contents (mqueue M2) x = contents (mqueue M1) x))"
proof -
  let ?ip = "shown_address (peer_version c) (chan_ip c)"
  from new_channel_keeps_address [OF assms(1-6), of aes] obtain M1 r where
    d: "dispatch aes m M = (Inr (), M1)" "mux_inv M1" "handlers M1 = handlers M @ [r]"
    and ch: "mchannels M1 = AList.update (chid c) r (mchannels M)" "chan_ip (mobjs M1 r) = ?ip" "chid (mobjs M1 r) = chid c"
    by auto
  have p: "access_policy al (chan_ip (mobjs M1 r)) = permitted al ?ip"
    using access_policy_permitted [OF assms(7)] ch(2) by simp
  have "map_of (mchannels M1) (chid c) = Some r" using ch(1) by (simp add: map_of_update)
  note del = mux_delete_effect [OF d(2) this]
  show ?thesis
  proof (cases "permitted al ?ip")
    case True
    with p d show ?thesis by (auto simp: connector_handler_def split: prod.split)
  next
    case False
    with p have "connector_handler al serve r M1 = (None, mux_delete_channel r M1)" for serve :: "nat \<Rightarrow> mux \<Rightarrow> 'h \<times> mux"
      by (simp add: connector_handler_def)
    moreover have "init_close (mobjs M1 r) = make_message (chid c) CHANNEL_FLOW_CLOSE [] []"
      using ch(3) by (simp add: init_close_def)
    ultimately show ?thesis using False d ch(1) del
      by (intro exI [of _ M1] exI [of _ r]) (auto simp: map_of_delete map_of_update)
  qed
qed

section \<open>Witnesses\<close>

definition demo_list :: access_list where
  "demo_list = \<lparr>default_action = BLOCK, networks = {IPv4Network 0x01020300 24}\<rparr>"

lemma demo_list_ok: "list_ok demo_list"
  by (simp add: list_ok_def demo_list_def netmask_def) code_simp

theorem visitor_policy_witness:
  "\<exists>r M2. connector_handler (Some demo_list) endpoint_handle_connection r demo_open_mux = (None, M2) \<and>
     map_of (mchannels M2) demo_id = None"
proof -
  have "accept_new demo_server" "mversion demo_server = peer_version demo_caller" "chid demo_caller \<noteq> []"
    "channels (mqueue demo_server) (chid demo_caller) = None"
    by (simp_all add: demo_server_def new_mux_def demo_caller_def demo_id_def new_mcq_def)
  note v = visitor_policy [OF demo_server_inv this demo_new_seen, of "Some demo_list" demo_aes, where 'h = flow_control]
  have "\<not> permitted (Some demo_list) (IPv4Address 0x01020304)" by (simp add: permitted_def demo_list_def)
  then have "\<not> permitted (Some demo_list) (shown_address (peer_version demo_caller) (chan_ip demo_caller))"
    by (simp add: shown_address_def demo_caller_def MIN_PROTOCOL_VERSION_FOR_ENCRYPTED_NEW_def)
  with v demo_list_ok obtain M1 r M2 where "dispatch demo_aes demo_new demo_server = (Inr (), M1)"
    "\<forall>serve :: nat \<Rightarrow> mux \<Rightarrow> flow_control \<times> mux. connector_handler (Some demo_list) serve r M1 = (None, M2)"
    "map_of (mchannels M2) (chid demo_caller) = None" by (auto simp del: split_paired_Ex)
  then show ?thesis by (auto simp: demo_open_mux_def demo_caller_def)
qed

definition demo_endpoint :: endpoint where
  "demo_endpoint = \<lparr>emux = demo_open_mux, eref = 0, erd = \<lparr>chunks = [[1, 2], [3]], ending = Stall\<rparr>, ewr = \<lparr>sent = [], at_eof = False\<rparr>,
     ewclosed = False, eflow = new_flow_control, efrom = NoRead, epeer = NoPeerRead\<rparr>"


end
