(* ===== verification/AioClient.thy ===== *)
theory AioClient
  imports Handshake Connector
begin

text \<open>
  The client for aiohttp applications, \<^verbatim>\<open>snitun/utils/aiohttp_client.py\<close>: a \<open>ClientPeer\<close> with the TLS connector its
  channels are handed to. Of the connector the model keeps the access list; the application runner, its
  TLS context and the server's name have no part in the state.
\<close>

section \<open>State and operations\<close>

record aio =
  aconnector :: "access_list option option"
  aclient :: client

definition new_aio :: aio where "new_aio = \<lparr>aconnector = None, aclient = new_client\<rparr>"

definition aio_is_connected :: "aio \<Rightarrow> bool" where "aio_is_connected a = client_is_connected (aclient a)"

definition aio_access_list :: "aio \<Rightarrow> access_list option" where
  "aio_access_list a = (case aconnector a of None \<Rightarrow> None | Some al \<Rightarrow> al)"

definition aio_wait :: "aio \<Rightarrow> bool res" where "aio_wait a = client_wait (aclient a)"

definition aio_start :: "access_list option \<Rightarrow> aio \<Rightarrow> aio" where "aio_start al a = a\<lparr>aconnector := Some al\<rparr>"

definition aio_connect ::
    "sha256 \<Rightarrow> aes \<Rightarrow> config \<Rightarrow> client_args \<Rightarrow> client_net \<Rightarrow> entropy \<Rightarrow> aio \<Rightarrow> unit res \<times> aio" where
  "aio_connect sha aes cfg args net ent a =
     (if aio_is_connected a then (Inr (), a)
      else if aconnector a = None then (Inl AssertionError, a)
      else case client_start sha aes cfg args net ent (aclient a) of (x, C, _) \<Rightarrow> (x, a\<lparr>aclient := C\<rparr>))"

definition aio_disconnect :: "aio \<Rightarrow> unit res \<times> aio" where
  "aio_disconnect a =
     (if \<not> aio_is_connected a then (Inr (), a)
      else case client_stop (aclient a) of (x, C) \<Rightarrow> (x, a\<lparr>aclient := C\<rparr>))"

definition aio_stop :: "bool \<Rightarrow> aio \<Rightarrow> unit res \<times> aio" where "aio_stop wait a = aio_disconnect a"

text \<open>\<^verbatim>\<open>snitun/utils/aes.py\<close>: the key and the initialisation vector of a session.\<close>

definition generate_aes_keyset :: "entropy \<Rightarrow> (bytes \<times> bytes) \<times> entropy" where
  "generate_aes_keyset e = (let (key, e1) = urandom 32 e; (iv, e2) = urandom 16 e1 in ((key, iv), e2))"

lemma keyset_lengths: "generate_aes_keyset e = ((key, iv), e') \<Longrightarrow> length key = 32 \<and> length iv = 16"
  by (auto simp: generate_aes_keyset_def Let_def split: prod.splits dest: urandom_length)

section \<open>The client is never half connected\<close>

text \<open>
  The program as it runs: the application's calls, the handler task of the client while it is not done, and whatever
  the multiplexer and its channels do in between.
\<close>

inductive aio_step :: "sha256 \<Rightarrow> aes \<Rightarrow> aio \<Rightarrow> aio \<Rightarrow> bool" for sha aes where
  step_start: "aio_step sha aes a (aio_start al a)"
| step_connect: "config_ok cfg \<Longrightarrow> aio_step sha aes a (snd (aio_connect sha aes cfg args net ent a))"
| step_disconnect: "aio_step sha aes a (snd (aio_disconnect a))"
| step_handler: "handler_task (aclient a) = Some False \<Longrightarrow>
    aio_step sha aes a (a\<lparr>aclient := snd (client_handler aes ev (aclient a))\<rparr>)"
| step_mux: "cmux (aclient a) = Some m \<Longrightarrow> mux_reach aes m m' \<Longrightarrow>
    aio_step sha aes a (a\<lparr>aclient := (aclient a)\<lparr>cmux := Some m'\<rparr>\<rparr>)"

text \<open>There is a multiplexer exactly while the handler task runs, and its invariant holds.\<close>

definition client_ok :: "client \<Rightarrow> bool" where
  "client_ok C \<longleftrightarrow> (case cmux C of None \<Rightarrow> handler_task C \<noteq> Some False | Some m \<Rightarrow> handler_task C = Some False \<and> mux_inv m)"

lemma client_ok_new: "client_ok new_client"
  by (simp add: client_ok_def new_client_def)

lemma client_ok_start:
  assumes "client_ok C" and "config_ok cfg" and "client_start sha aes cfg args net ent C = (x, C', k)"
  shows "client_ok C' \<and> (case x of Inl _ \<Rightarrow> C' = C | Inr _ \<Rightarrow> cmux C' \<noteq> None)"
proof (cases "cmux C")
  case None
  with assms(1) have "handler_task C \<noteq> Some False" by (simp add: client_ok_def)
  with None assms mux_inv_new [OF assms(2)] show ?thesis
    by (auto simp: client_start_def Let_def client_ok_def split: sum.splits prod.splits)
qed (use assms in \<open>auto simp: client_start_def\<close>)

lemma client_ok_stop:
  assumes "client_ok C" and "cmux C \<noteq> None"
  shows "client_stop C = (Inr (), new_client)"
  using assms client_stop_resets by (auto simp: client_ok_def)

lemma client_ok_finally: "client_ok C \<Longrightarrow> client_ok (snd (handler_finally x C))"
  using handler_finally_resets [of C x] by (auto simp: client_ok_def split: option.splits)

lemma client_ok_mux: "client_ok C \<Longrightarrow> cmux C = Some m \<Longrightarrow> mux_inv m' \<Longrightarrow> client_ok (C\<lparr>cmux := Some m'\<rparr>)"
  by (simp add: client_ok_def)

lemma client_ok_loop: "client_ok C \<Longrightarrow> client_ok (snd (handler_loop C))"
  using client_ok_finally [of C None] by (auto simp: handler_loop_def split: option.split)

lemma client_ok_handler:
  assumes "client_ok C"
  shows "client_ok (snd (client_handler aes ev C))"
proof (cases "cmux C")
  case None
  with client_ok_loop [OF assms] show ?thesis by (cases ev) simp_all
next
  case (Some m)
  with assms have m: "mux_inv m" by (simp add: client_ok_def)
  have "mux_inv (snd (ping_start aes m))" "mux_inv (snd (ping_timeout m))"
    using m mux_inv_ping_start shutdown_ok [OF m] by (auto simp: ping_timeout_def)
  then have "client_ok (C\<lparr>cmux := Some (snd (ping_start aes m))\<rparr>)" "client_ok (C\<lparr>cmux := Some (snd (ping_timeout m))\<rparr>)"
    using client_ok_mux [OF assms Some] by auto
  with Some client_ok_loop [OF assms] client_ok_finally show ?thesis
    by (cases ev) (auto simp: handler_raises_def split: prod.split sum.split)
qed

lemma client_ok_step:
  assumes "aio_step sha aes a a'" and "client_ok (aclient a)"
  shows "client_ok (aclient a')"
  using assms(1)
proof cases
  case (step_connect cfg args net ent)
  obtain x C k where s: "client_start sha aes cfg args net ent (aclient a) = (x, C, k)" by (metis prod_cases3)
  from client_ok_start [OF assms(2) step_connect(2) s] s assms(2) show ?thesis
    by (auto simp: step_connect(1) aio_connect_def)
next
  case step_disconnect
  with assms(2) client_ok_stop client_ok_new show ?thesis
    by (auto simp: aio_disconnect_def aio_is_connected_def client_is_connected_def)
next
  case (step_mux m m')
  with assms(2) mux_reach_inv [of aes m m'] client_ok_mux [of "aclient a" m m'] show ?thesis
    by (simp add: client_ok_def)
qed (use assms(2) client_ok_handler in \<open>simp_all add: aio_start_def\<close>)



end
