(* ===== verification/Worker.thy ===== *)
theory Worker
  imports PeerManager IpAddress
begin

text \<open>
  The worker process, \<^verbatim>\<open>snitun/server/worker.py\<close>: the table of hostnames it publishes to the
  accepting process, fed by the events of its peer manager, the connections it is handed and the
  metrics it reports. The table is shared through a \<open>multiprocessing\<close> manager; its values are always
  \<open>None\<close>, so it is the list of its keys.
\<close>

section \<open>State and operations\<close>

record handover =
  ho_con :: nat
  ho_data :: bytes
  ho_sni :: "pystr option"
  ho_address :: "ip_address option"

text \<open>\<open>wnew\<close> is the queue between the processes; \<open>None\<close> asks the worker to stop.\<close>

record worker =
  wsync :: "pystr list"
  peer_count :: int
  wnew :: "handover option list"

definition new_worker :: worker where
  "new_worker = \<lparr>wsync = [], peer_count = 0, wnew = []\<rparr>"

definition peer_size :: "worker \<Rightarrow> int" where "peer_size W = peer_count W"

definition is_responsible_peer :: "worker \<Rightarrow> pystr \<Rightarrow> bool" where
  "is_responsible_peer W sni \<longleftrightarrow> sni \<in> set (wsync W)"

fun event_stream :: "peer \<Rightarrow> PeerManagerEvent \<Rightarrow> worker \<Rightarrow> worker" where
  "event_stream p CONNECTED W =
     (let W = (if phost p \<notin> set (wsync W) then W\<lparr>peer_count := peer_count W + 1\<rparr> else W)
      in W\<lparr>wsync := fold List.insert (all_hostnames p) (wsync W)\<rparr>)"
| "event_stream p DISCONNECTED W =
     (let W = (if phost p \<in> set (wsync W) then W\<lparr>peer_count := peer_count W - 1\<rparr> else W)
      in W\<lparr>wsync := fold removeAll (all_hostnames p) (wsync W)\<rparr>)"

definition worker_shutdown :: "worker \<Rightarrow> worker" where
  "worker_shutdown W = W\<lparr>wnew := wnew W @ [None]\<rparr>"

definition handover_connection :: "nat \<Rightarrow> bytes \<Rightarrow> pystr option \<Rightarrow> ip_address option \<Rightarrow> worker \<Rightarrow> worker" where
  "handover_connection con data sni addr W =
     W\<lparr>wnew := wnew W @ [Some \<lparr>ho_con = con, ho_data = data, ho_sni = sni, ho_address = addr\<rparr>]\<rparr>"

text \<open>What the worker does with a connection: the listener it starts, or nothing when the socket cannot be opened.\<close>

datatype started =
  StartSni nat bytes pystr "ip_address option"
| StartPeer nat bytes
| CloseCon nat

definition async_new_connection :: "(nat \<Rightarrow> bool) \<Rightarrow> handover \<Rightarrow> started" where
  "async_new_connection can_open h =
     (if \<not> can_open (ho_con h) then CloseCon (ho_con h)
      else case ho_sni h of
             Some sni \<Rightarrow> (if sni \<noteq> [] then StartSni (ho_con h) (ho_data h) sni (ho_address h)
                          else StartPeer (ho_con h) (ho_data h))
           | None \<Rightarrow> StartPeer (ho_con h) (ho_data h))"

text \<open>\<open>run\<close>: connections are started in the order of the queue until the request to stop.\<close>

fun worker_run :: "(nat \<Rightarrow> bool) \<Rightarrow> handover option list \<Rightarrow> started list" where
  "worker_run can_open [] = []"
| "worker_run can_open (None # _) = []"
| "worker_run can_open (Some h # hs) = async_new_connection can_open h # worker_run can_open hs"

section \<open>Metrics\<close>

text \<open>\<open>protocol_version_counts\<close>, a dictionary in insertion order, and the gauges that are set from it.\<close>

definition count_version :: "nat \<Rightarrow> (nat \<times> nat) list \<Rightarrow> (nat \<times> nat) list" where
  "count_version v counts =
     (let counts = (if map_of counts v = None then AList.update v 0 counts else counts)
      in AList.update v (the (map_of counts v) + 1) counts)"

definition version_counts :: "manager \<Rightarrow> (nat \<times> nat) list" where
  "version_counts M = fold (\<lambda>r. count_version (pversion (pobjs M r))) (iter_peers M) [(0, 0), (1, 0)]"

definition collect_and_report_metrics :: "manager option \<Rightarrow> (nat \<times> nat option) list" where
  "collect_and_report_metrics peers =
     (case peers of
        None \<Rightarrow> [(0, None)]
      | Some M \<Rightarrow> (sum_list (map snd (version_counts M)), None) #
                   map (\<lambda>(version, count). (count, Some version)) (version_counts M))"

text \<open>\<open>_report_metrics_loop\<close>: the time it sleeps before a report, and when the next one is due.\<close>

definition report_turn :: "int \<Rightarrow> int \<Rightarrow> int \<Rightarrow> int \<times> int" where
  "report_turn interval now next_report = (max 0 (next_report - now), next_report + interval)"

section \<open>The published table follows the registry\<close>

lemma set_fold_insert [simp]: "set (fold List.insert hs xs) = set hs \<union> set xs"
  by (induction hs arbitrary: xs) auto

lemma set_fold_removeAll [simp]: "set (fold removeAll hs xs) = set xs - set hs"
  by (induction hs arbitrary: xs) auto

lemma event_stream_keys:
  "set (wsync (event_stream p e W)) =
     (case e of CONNECTED \<Rightarrow> set (wsync W) \<union> set (all_hostnames p) | DISCONNECTED \<Rightarrow> set (wsync W) - set (all_hostnames p))"
  by (cases e) (auto simp: Let_def)

text \<open>\<open>call_soon\<close> keeps the order: the oldest scheduled event is delivered first, while the registry goes on changing.\<close>

inductive sync_step :: "manager \<times> worker \<Rightarrow> manager \<times> worker \<Rightarrow> bool" where
  sync_manager: "man_step M M' \<Longrightarrow> sync_step (M, W) (M', W)"
| sync_deliver: "mevents M = (r, e) # es \<Longrightarrow> sync_step (M, W) (M\<lparr>mevents := es\<rparr>, event_stream (pobjs M r) e W)"

inductive_cases sync_stepE: "sync_step (M, W) s"

text \<open>The table when all scheduled events were delivered.\<close>

definition settled :: "manager \<Rightarrow> worker \<Rightarrow> worker" where
  "settled M W = fold (\<lambda>(r, e). event_stream (pobjs M r) e) (mevents M) W"

definition published :: "manager \<times> worker \<Rightarrow> bool" where
  "published s \<longleftrightarrow> (case s of (M, W) \<Rightarrow>
     event_callback M \<and> set (wsync (settled M W)) = dom (get_peer M) \<and>
     (\<forall>(r, e) \<in> set (mevents M). r < pnext M))"

text \<open>Only the hostnames of a peer matter to the events.\<close>

lemma event_stream_cong:
  "phost p = phost q \<Longrightarrow> palias p = palias q \<Longrightarrow> event_stream p e W = event_stream q e W"
  by (cases e) (simp_all add: all_hostnames_def)

lemma settled_cong:
  assumes "\<And>r e. (r, e) \<in> set (mevents M) \<Longrightarrow> all_hostnames (pobjs M' r) = all_hostnames (pobjs M r)"
    and "mevents M' = mevents M"
  shows "settled M' W = settled M W"
  unfolding settled_def assms(2)
  by (rule fold_cong) (auto simp: all_hostnames_def dest!: assms(1) intro!: ext event_stream_cong)

lemma settled_event:
  assumes "event_callback M"
  shows "settled (send_event r e M) W = event_stream (pobjs M r) e (settled M W)"
  using assms by (simp add: settled_def send_event_def)

lemma settled_deliver:
  assumes "mevents M = (r, e) # es"
  shows "settled (M\<lparr>mevents := es\<rparr>) (event_stream (pobjs M r) e W) = settled M W"
  using assms by (simp add: settled_def)

lemma published_same:
  assumes "published (M, W)" and "mpeers M' = mpeers M" and "pnext M \<le> pnext M'"
    and "\<And>r. r < pnext M \<Longrightarrow> all_hostnames (pobjs M' r) = all_hostnames (pobjs M r)"
    and "mevents M' = mevents M" and "event_callback M' = event_callback M"
  shows "published (M', W)"
proof -
  have "settled M' W = settled M W"
    using assms(1,4,5) by (intro settled_cong) (auto simp: published_def)
  moreover have "get_peer M' = get_peer M" by (rule ext) (simp add: get_peer_def assms(2))
  ultimately show ?thesis using assms(1,3,5,6) by (fastforce simp: published_def)
qed

lemma published_event:
  assumes "published (M, W)" and "r < pnext M"
    and "dom (get_peer M') = set (wsync (event_stream (pobjs M r) e (settled M W)))"
    and "pobjs M' = pobjs M" and "pnext M' = pnext M" and "event_callback M' = event_callback M" and "mevents M' = mevents M"
  shows "published (send_event r e M', W)"
proof -
  have "settled M' W = settled M W" using assms(4,7) by (simp add: settled_def)
  moreover have "get_peer (send_event r e M') = get_peer M'" by (rule ext) (simp add: get_peer_def)
  moreover have "set (mevents (send_event r e M')) \<subseteq> insert (r, e) (set (mevents M))"
    using assms(7) by (auto simp: send_event_def)
  ultimately show ?thesis using assms by (auto simp: published_def settled_event)
qed

lemma published_add:
  assumes "published (M, W)" and "r < pnext M"
  shows "published (snd (add_peer r M), W)"
proof -
  obtain x M' where a: "add_peer r M = (x, M')" by fastforce
  then show ?thesis
  proof (rule add_peer_cases)
    fix e assume "mpeers M' = mpeers M" "pnext M' = pnext M" "\<And>i. all_hostnames (pobjs M' i) = all_hostnames (pobjs M i)"
      "mevents M' = mevents M" "event_callback M' = event_callback M"
    with assms(1) a show ?thesis by (auto intro: published_same)
  next
    fix M1 assume M': "M' = send_event r CONNECTED (enter_peer r M1)" and f: "mpeers M1 = mpeers M"
      "pnext M1 = pnext M" "\<And>i. all_hostnames (pobjs M1 i) = all_hostnames (pobjs M i)"
      "mevents M1 = mevents M" "event_callback M1 = event_callback M"
    have p: "published (M1, W)" using assms(1) f by (auto intro: published_same)
    have "dom (get_peer (enter_peer r M1)) = set (wsync (event_stream (pobjs M1 r) CONNECTED (settled M1 W)))"
      using p by (auto simp: event_stream_keys published_def get_peer_def enter_peer_def map_of_fold_update dom_def
        simp del: event_stream.simps split: if_splits)
    then show ?thesis using a M' p assms(2) f(2)
      by (auto intro!: published_event [OF p])
  qed
qed

lemma published_remove:
  assumes "published (M, W)" and "r < pnext M"
  shows "published (remove_peer r M, W)"
proof (cases "map_of (mpeers M) (phost (pobjs M r)) = Some r")
  case False
  then show ?thesis using assms by (simp add: remove_peer_def)
next
  case True
  let ?M' = "M\<lparr>mpeers := fold AList.delete (all_hostnames (pobjs M r)) (mpeers M)\<rparr>"
  have "dom (get_peer ?M') = set (wsync (event_stream (pobjs M r) DISCONNECTED (settled M W)))"
    using assms(1) by (auto simp: event_stream_keys published_def get_peer_def map_of_fold_delete dom_def
        simp del: event_stream.simps split: if_splits)
  from published_event [OF assms this] True show ?thesis by (simp add: remove_peer_def)
qed

lemma published_man_step: "man_step M M' \<Longrightarrow> published (M, W) \<Longrightarrow> published (M', W)"
proof (induction rule: man_step.induct)
  case (man_create M p)
  then show ?case by (rule published_same) (simp_all add: alloc_peer_def)
next
  case (man_mux M r m)
  then show ?case by (rule published_same) (simp_all add: all_hostnames_def)
next
  case (man_add r M)
  then show ?case by (simp add: published_add)
next
  case (man_remove r M)
  then show ?case by (simp add: published_remove)
next
  case (man_shutdown M r)
  then show ?case by (rule published_same) simp_all
qed

section \<open>The published number of peers\<close>

text \<open>The hostnames that are routed to a peer as its own, not as an alias.\<close>

definition own_hosts :: "manager \<Rightarrow> pystr set" where
  "own_hosts M = {h. \<exists>r. get_peer M h = Some r \<and> phost (pobjs M r) = h}"

text \<open>No device has the hostname of another one as an alias.\<close>

definition roles_apart :: "manager \<Rightarrow> bool" where
  "roles_apart M \<longleftrightarrow> (\<forall>r < pnext M. \<forall>r' < pnext M. phost (pobjs M r) \<notin> set (palias (pobjs M r')))"

lemma finite_own [simp]: "finite (own_hosts M)"
proof (rule finite_subset)
  show "own_hosts M \<subseteq> dom (map_of (mpeers M))" by (auto simp: own_hosts_def get_peer_def)
qed (simp add: finite_dom_map_of)

lemma own_iff:
  assumes "route_ok M" and "roles_apart M" and "r < pnext M"
  shows "phost (pobjs M r) \<in> own_hosts M \<longleftrightarrow> phost (pobjs M r) \<in> dom (get_peer M)"
  using assms by (fastforce simp: own_hosts_def route_ok_def roles_apart_def all_hostnames_def dom_def)

lemma own_add:
  assumes "route_ok M" and "roles_apart M" and "r < pnext M" and "add_peer r M = (Inr (), M')"
  shows "own_hosts M' = insert (phost (pobjs M r)) (own_hosts M)"
proof -
  have h: "phost (pobjs M' i) = phost (pobjs M i)" for i
    using assms(4) by (rule add_peer_cases) (auto simp: all_hostnames_def)
  show ?thesis using assms(1-3)
    by (auto simp: own_hosts_def get_peer_added [OF assms(4)] h all_hostnames_def route_ok_def roles_apart_def split: if_splits)
qed

lemma own_remove:
  assumes "route_ok M" and "roles_apart M" and "r < pnext M" and "get_peer M (phost (pobjs M r)) = Some r"
  shows "own_hosts (remove_peer r M) = own_hosts M - {phost (pobjs M r)}"
proof -
  have "pobjs (remove_peer r M) = pobjs M" by (simp add: remove_peer_def)
  with assms show ?thesis
    by (auto simp: own_hosts_def get_peer_removed all_hostnames_def route_ok_def roles_apart_def split: if_splits)
qed

definition counted :: "manager \<times> worker \<Rightarrow> bool" where
  "counted s \<longleftrightarrow> (case s of (M, W) \<Rightarrow>
     roles_apart M \<longrightarrow> peer_count (settled M W) = int (card (own_hosts M)))"

lemma counted_same:
  assumes "counted (M, W)" and "published (M, W)" and "route_ok M" and "mpeers M' = mpeers M" and "pnext M \<le> pnext M'"
    and "\<And>r. r < pnext M \<Longrightarrow> all_hostnames (pobjs M' r) = all_hostnames (pobjs M r)"
    and "mevents M' = mevents M"
  shows "counted (M', W)"
proof -
  have h: "phost (pobjs M' r) = phost (pobjs M r)" "palias (pobjs M' r) = palias (pobjs M r)" if "r < pnext M" for r
    using assms(6) [OF that] by (simp_all add: all_hostnames_def)
  have "settled M' W = settled M W"
    using assms(2,6,7) by (intro settled_cong) (auto simp: published_def)
  moreover have "own_hosts M' = own_hosts M"
    using assms(3,4) h by (auto simp: own_hosts_def route_ok_def get_peer_def)
  moreover have "roles_apart M' \<Longrightarrow> roles_apart M"
    using assms(5) h unfolding roles_apart_def by (metis order_less_le_trans)
  ultimately show ?thesis using assms(1) by (simp add: counted_def)
qed

lemma counted_connect:
  assumes "published (M, W)" and "route_ok M" and "roles_apart M" and "r < pnext M"
    and "peer_count (settled M W) = int (card (own_hosts M))"
  shows "peer_count (event_stream (pobjs M r) CONNECTED (settled M W)) = int (card (insert (phost (pobjs M r)) (own_hosts M)))"
  using assms own_iff [OF assms(2-4)] by (auto simp: published_def Let_def insert_absorb card_insert_if)

lemma counted_disconnect:
  assumes "published (M, W)" and "route_ok M" and "roles_apart M" and "r < pnext M"
    and "peer_count (settled M W) = int (card (own_hosts M))" and "get_peer M (phost (pobjs M r)) = Some r"
  shows "peer_count (event_stream (pobjs M r) DISCONNECTED (settled M W)) = int (card (own_hosts M - {phost (pobjs M r)}))"
proof -
  have m: "phost (pobjs M r) \<in> own_hosts M" using assms(6) by (simp add: own_hosts_def)
  then have "card (own_hosts M) > 0" by (auto simp: card_gt_0_iff)
  with m assms(1,5,6) show ?thesis by (auto simp: published_def Let_def)
qed

lemma counted_add:
  assumes "counted (M, W)" and "published (M, W)" and "route_ok M" and "r < pnext M"
  shows "counted (snd (add_peer r M), W)"
proof -
  obtain x M' where a: "add_peer r M = (x, M')" by fastforce
  then show ?thesis
  proof (rule add_peer_cases)
    fix e assume "mpeers M' = mpeers M" "pnext M' = pnext M" "\<And>i. all_hostnames (pobjs M' i) = all_hostnames (pobjs M i)"
      "mevents M' = mevents M"
    with assms a show ?thesis by (auto intro: counted_same)
  next
    fix M1 assume x: "x = Inr ()" and M': "M' = send_event r CONNECTED (enter_peer r M1)" and f: "mpeers M1 = mpeers M"
      "pnext M1 = pnext M" "\<And>i. all_hostnames (pobjs M1 i) = all_hostnames (pobjs M i)"
      "mevents M1 = mevents M" "event_callback M1 = event_callback M"
    have p: "published (M1, W)" "counted (M1, W)" "route_ok M1"
      using assms f by (auto intro: published_same counted_same simp: route_ok_def get_peer_def)
    have c: "event_callback (enter_peer r M1)" using p(1) by (simp add: published_def)
    have "settled (enter_peer r M1) W = settled M1 W" by (simp add: settled_def)
    then have s: "settled M' W = event_stream (pobjs M1 r) CONNECTED (settled M1 W)"
      using settled_event [OF c] by (simp add: M')
    have apart: "roles_apart M' = roles_apart M1" "roles_apart M1 = roles_apart M"
      using f by (simp_all add: roles_apart_def M' all_hostnames_def)
    have "phost (pobjs M1 r) = phost (pobjs M r)" "own_hosts M1 = own_hosts M" using f(1,3)
      by (simp_all add: all_hostnames_def own_hosts_def get_peer_def)
    then have "roles_apart M' \<Longrightarrow> own_hosts M' = insert (phost (pobjs M1 r)) (own_hosts M1)"
      using own_add [OF assms(3) _ assms(4)] a x apart by auto
    moreover have "roles_apart M' \<Longrightarrow> peer_count (settled M1 W) = int (card (own_hosts M1))"
      using p(2) apart by (simp add: counted_def)
    ultimately show ?thesis
      using counted_connect [OF p(1,3)] apart s a assms(4) f(2) by (simp add: counted_def del: event_stream.simps)
  qed
qed

lemma counted_remove:
  assumes "counted (M, W)" and "published (M, W)" and "route_ok M" and "r < pnext M"
  shows "counted (remove_peer r M, W)"
proof (cases "get_peer M (phost (pobjs M r)) = Some r")
  case False
  then show ?thesis using assms by (simp add: remove_peer_def get_peer_def)
next
  case True
  let ?M' = "M\<lparr>mpeers := fold AList.delete (all_hostnames (pobjs M r)) (mpeers M)\<rparr>"
  have r: "remove_peer r M = send_event r DISCONNECTED ?M'" using True by (simp add: remove_peer_def get_peer_def)
  have "event_callback ?M'" using assms(2) by (simp add: published_def)
  moreover have "settled ?M' W = settled M W" by (simp add: settled_def)
  ultimately have s: "settled (remove_peer r M) W = event_stream (pobjs M r) DISCONNECTED (settled M W)"
    using settled_event [of ?M'] by (simp add: r del: event_stream.simps)
  have "roles_apart (remove_peer r M) = roles_apart M" by (simp add: roles_apart_def r)
  with assms s True show ?thesis
    by (simp add: counted_def own_remove counted_disconnect del: event_stream.simps)
qed

lemma counted_man_step:
  "man_step M M' \<Longrightarrow> counted (M, W) \<Longrightarrow> published (M, W) \<Longrightarrow> route_ok M \<Longrightarrow> counted (M', W)"
proof (induction rule: man_step.induct)
  case (man_create M p)
  then show ?case by (rule counted_same) (simp_all add: alloc_peer_def)
next
  case (man_mux M r m)
  then show ?case by (rule counted_same) (simp_all add: all_hostnames_def)
next
  case (man_add r M)
  then show ?case by (simp add: counted_add)
next
  case (man_remove r M)
  then show ?case by (simp add: counted_remove)
next
  case (man_shutdown M r)
  then show ?case by (rule counted_same) simp_all
qed

definition sync_inv :: "manager \<times> worker \<Rightarrow> bool" where
  "sync_inv s \<longleftrightarrow> route_ok (fst s) \<and> published s \<and> counted s"

lemma sync_inv_step: "sync_step s s' \<Longrightarrow> sync_inv s \<Longrightarrow> sync_inv s'"
proof (induction rule: sync_step.induct)
  case (sync_manager M M' W)
  then show ?case by (auto simp: sync_inv_def intro: route_ok_step published_man_step counted_man_step)
next
  case (sync_deliver M r e es W)
  have "get_peer (M\<lparr>mevents := es\<rparr>) = get_peer M" by (rule ext) (simp add: get_peer_def)
  moreover have "own_hosts (M\<lparr>mevents := es\<rparr>) = own_hosts M" "roles_apart (M\<lparr>mevents := es\<rparr>) = roles_apart M"
    by (simp_all add: own_hosts_def get_peer_def roles_apart_def)
  ultimately show ?case using sync_deliver settled_deliver [OF sync_deliver(1)]
    by (auto simp: sync_inv_def published_def counted_def route_ok_def simp del: event_stream.simps)
qed

lemma sync_inv_start: "sync_inv (new_manager True, new_worker)"
  by (auto simp: sync_inv_def published_def counted_def settled_def new_manager_def new_worker_def own_hosts_def get_peer_def
    route_ok_def)

lemma sync_inv_reach: "sync_step\<^sup>*\<^sup>* (new_manager True, new_worker) s \<Longrightarrow> sync_inv s"
  by (induction rule: rtranclp_induct) (auto intro: sync_inv_start sync_inv_step)

text \<open>
  C12: The accepting process hands a TLS connection to the right worker: whatever peers come, reconnect and
  go, the table a worker publishes lists exactly the hostnames its peer manager can route, once the
  events scheduled so far are delivered; and when no device has another one's hostname as an alias, the
  published number of peers is the number of devices that are registered.
\<close>
theorem published_table_agrees:
  assumes "sync_step\<^sup>*\<^sup>* (new_manager True, new_worker) (M, W)"
  shows "(is_responsible_peer (settled M W) h \<longleftrightarrow> get_peer M h \<noteq> None) \<and>
    (roles_apart M \<longrightarrow> peer_size (settled M W) = int (card (own_hosts M))) \<and>
    (mevents M = [] \<longrightarrow> settled M W = W)"
  using sync_inv_reach [OF assms]
  by (auto simp: sync_inv_def published_def counted_def is_responsible_peer_def peer_size_def settled_def)

lemma sync_of_man: "man_step\<^sup>*\<^sup>* M M' \<Longrightarrow> sync_step\<^sup>*\<^sup>* (M, W) (M', W)"
proof (induction rule: rtranclp_induct)
  case (step M1 M2)
  from step(3) sync_manager [OF step(2)] show ?case by (rule rtranclp.rtrancl_into_rtrancl)
qed simp

lemma sync_settles: "sync_step\<^sup>*\<^sup>* (M, W) (M\<lparr>mevents := []\<rparr>, settled M W)"
proof (induction "mevents M" arbitrary: M W)
  case Nil
  then have "M\<lparr>mevents := []\<rparr> = M" by (cases M) simp
  moreover have "settled M W = W" by (simp add: settled_def Nil [symmetric])
  ultimately show ?case by simp
next
  case (Cons x es)
  obtain r e where x: "x = (r, e)" by fastforce
  with Cons(2) have m: "mevents M = (r, e) # es" by simp
  from Cons(1) [of "M\<lparr>mevents := es\<rparr>" "event_stream (pobjs M r) e W"] settled_deliver [OF m, of W]
  have "sync_step\<^sup>*\<^sup>* (M\<lparr>mevents := es\<rparr>, event_stream (pobjs M r) e W) (M\<lparr>mevents := []\<rparr>, settled M W)" by simp
  with sync_deliver [OF m] show ?case by (rule converse_rtranclp_into_rtranclp)
qed

theorem published_table_agrees_witness:
  "is_responsible_peer (settled demo_manager new_worker) [9] \<and> \<not> is_responsible_peer (settled demo_manager new_worker) [2]"
proof -
  have "man_step\<^sup>*\<^sup>* (new_manager True) demo_manager"
    unfolding demo_manager_def
    by (intro reach_add reach_create rtranclp.rtrancl_refl) (simp add: alloc_peer_def new_manager_def)
  note r = sync_of_man [OF this, of new_worker]
  from published_table_agrees [OF r, of "[9]"] published_table_agrees [OF r, of "[2]"]
  show ?thesis by (simp add: manager_eval)
qed

text \<open>
  Without that condition the counter drifts: a device connects, another one that lists its hostname as an
  alias connects and leaves, and takes the route of the first one with it, so that the first one is
  never counted down when it leaves.
\<close>

definition drifted_manager :: manager where
  "drifted_manager = remove_peer 0 (remove_peer 1 (snd (add_peer 1 (snd (add_peer 0
     (snd (alloc_peer (demo_peer 1 [2]) (snd (alloc_peer (demo_peer 2 []) (new_manager True))))))))))"

lemma peer_count_drifts:
  "\<exists>M W. sync_step\<^sup>*\<^sup>* (new_manager True, new_worker) (M, W) \<and> mevents M = [] \<and> connections M = 0 \<and> peer_size W = 1"
proof (intro exI conjI)
  have "man_step\<^sup>*\<^sup>* (new_manager True) drifted_manager"
    unfolding drifted_manager_def
    by (intro reach_add reach_remove reach_create rtranclp.rtrancl_refl) (simp_all add: manager_eval)
  from rtranclp_trans [OF sync_of_man [OF this] sync_settles]
  show "sync_step\<^sup>*\<^sup>* (new_manager True, new_worker) (drifted_manager\<lparr>mevents := []\<rparr>, settled drifted_manager new_worker)" .
  show "connections (drifted_manager\<lparr>mevents := []\<rparr>) = 0" "peer_size (settled drifted_manager new_worker) = 1"
    by (simp_all add: drifted_manager_def manager_eval connections_def settled_def peer_size_def new_worker_def)
qed simp

section \<open>Metrics and handover\<close>

lemma count_version_lookup:
  "map_of (count_version v c) w = (if w = v then Some ((case map_of c v of None \<Rightarrow> 0 | Some n \<Rightarrow> n) + 1) else map_of c w)"
  by (auto simp: count_version_def Let_def update_conv' split: option.split)

lemma distinct_count_version: "distinct (map fst c) \<Longrightarrow> distinct (map fst (count_version v c))"
  by (simp add: count_version_def Let_def distinct_update)

lemma sum_update:
  "distinct (map fst c) \<Longrightarrow>
     sum_list (map snd (AList.update v (n :: nat) c)) + (case map_of c v of None \<Rightarrow> 0 | Some m \<Rightarrow> m) = sum_list (map snd c) + n"
  by (induction c) (auto split: option.split simp: weak_map_of_SomeI map_of_eq_None_iff)

lemma sum_count_version: "distinct (map fst c) \<Longrightarrow> sum_list (map snd (count_version v c)) = sum_list (map snd c) + 1"
  using sum_update [of c v 0] sum_update [of c v "the (map_of c v) + 1"]
    sum_update [of "AList.update v 0 c" v 1] distinct_update [of c v 0]
  by (auto simp: count_version_def Let_def update_conv' split: option.splits)

lemma fold_count_version:
  assumes "distinct (map fst c)"
  shows "sum_list (map snd (fold (\<lambda>r. count_version (f r)) rs c)) = sum_list (map snd c) + length rs"
    and "(case map_of (fold (\<lambda>r. count_version (f r)) rs c) v of None \<Rightarrow> 0 | Some n \<Rightarrow> n) =
      (case map_of c v of None \<Rightarrow> 0 | Some n \<Rightarrow> n) + length (filter (\<lambda>r. f r = v) rs)"
  using assms by (induction rs arbitrary: c)
    (auto simp: sum_count_version distinct_count_version count_version_lookup split: option.splits)

text \<open>The first gauge is the number of routed hostnames, aliases included; the others split it by protocol version.\<close>

lemma metrics_total:
  "collect_and_report_metrics (Some M) =
     (connections M, None) # map (\<lambda>(version, count). (count, Some version)) (version_counts M)"
  "(case map_of (version_counts M) v of None \<Rightarrow> 0 | Some n \<Rightarrow> n) =
     length (filter (\<lambda>r. pversion (pobjs M r) = v) (iter_peers M))"
  using fold_count_version [of "[(0, 0), (1, 0)]" "\<lambda>r. pversion (pobjs M r)" "iter_peers M"]
    fold_count_version(2) [of "[(0, 0), (1, 0)]" "\<lambda>r. pversion (pobjs M r)" "iter_peers M" v]
  by (simp_all add: collect_and_report_metrics_def version_counts_def connections_def iter_peers_def split: if_splits)

fun started_con :: "started \<Rightarrow> nat" where
  "started_con (StartSni c _ _ _) = c"
| "started_con (StartPeer c _) = c"
| "started_con (CloseCon c) = c"

text \<open>Every connection that was handed over before the shutdown request is taken, in order; none after it.\<close>

lemma worker_run_takes_all:
  "map started_con (worker_run can_open (map Some hs @ None # xs)) = map ho_con hs"
  by (induction hs) (auto simp: async_new_connection_def split: option.split)

text \<open>Reports are due at fixed intervals, however late the loop wakes up.\<close>

lemma reports_keep_schedule:
  "((\<lambda>t. snd (report_turn interval (now t) t)) ^^ n) (start + interval) = start + (int n + 1) * interval"
  by (induction n) (simp_all add: report_turn_def algebra_simps)

end
