(* ===== verification/Sni.thy ===== *)
theory Sni
  imports Text
begin

text \<open>
  The TLS ClientHello parser and its reader: \<^verbatim>\<open>snitun/server/sni.py\<close>. Positions are the source's
  \<open>pos\<close>; every \<open>data[i]\<close> is \<^const>\<open>byte_at\<close>, so an index the source does not guard is an
  \<open>IndexError\<close> of the model too. The second half gives the ClientHello format as an encoder and
  relates the parser to it.
\<close>

section \<open>The parser\<close>

definition MAX_READ_SIZE :: nat where "MAX_READ_SIZE = 4096"
definition MAX_BUFFER_SIZE :: nat where "MAX_BUFFER_SIZE = 1024000"

definition TLS_HEADER_LEN :: nat where "TLS_HEADER_LEN = 5"
definition TLS_HANDSHAKE_CONTENT_TYPE :: nat where "TLS_HANDSHAKE_CONTENT_TYPE = 0x16"
definition TLS_HANDSHAKE_TYPE_CLIENT_HELLO :: nat where "TLS_HANDSHAKE_TYPE_CLIENT_HELLO = 0x01"

lemmas tls_consts =
  TLS_HEADER_LEN_def TLS_HANDSHAKE_CONTENT_TYPE_def TLS_HANDSHAKE_TYPE_CLIENT_HELLO_def

text \<open>The host name entries of a ServerName extension, \<open>pos\<close> after the list size.\<close>

function host_name_loop :: "bytes \<Rightarrow> nat \<Rightarrow> nat \<Rightarrow> pystr res" where
  "host_name_loop data pos data_size =
     (if pos + 3 < data_size then
        rbind (be16_at data (pos + 1)) (\<lambda>size.
        rbind (byte_at data pos) (\<lambda>kind.
          if kind \<noteq> 0x00 then host_name_loop data (pos + 3 + size) data_size
          else (case decode_utf8 (slice (pos + 3) (pos + 3 + size) data) of
                  Inr s \<Rightarrow> Inr s
                | Inl _ \<Rightarrow> Inl ParseSNIError)))
      else Inl ParseSNIError)"
  by pat_completeness auto
termination by (relation "measure (\<lambda>(data, pos, n). n - pos)") auto

definition parse_host_name :: "bytes \<Rightarrow> nat \<Rightarrow> nat \<Rightarrow> pystr res" where
  "parse_host_name data pos data_size = host_name_loop data (pos + 2) data_size"

text \<open>The extensions, until one of type 0 (ServerName).\<close>

function extension_loop :: "bytes \<Rightarrow> nat \<Rightarrow> nat \<Rightarrow> pystr res" where
  "extension_loop data pos data_size =
     (if pos + 4 \<le> data_size then
        rbind (byte_at data pos) (\<lambda>t1.
        rbind (byte_at data (pos + 1)) (\<lambda>t2.
          if t1 = 0x00 \<and> t2 = 0x00 then parse_host_name data (pos + 4) data_size
          else rbind (be16_at data (pos + 2)) (\<lambda>n.
                 extension_loop data (pos + 4 + n) data_size)))
      else Inl ParseSNIError)"
  by pat_completeness auto
termination by (relation "measure (\<lambda>(data, pos, n). n - pos)") auto

declare host_name_loop.simps [simp del] extension_loop.simps [simp del]

definition parse_extension :: "bytes \<Rightarrow> nat \<Rightarrow> nat \<Rightarrow> pystr res" where
  "parse_extension data pos data_size =
     rbind (on_index_error ParseSNIError (be16_at data pos)) (\<lambda>tls_extension_size.
       if data_size < pos + 2 + tls_extension_size then Inl ParseSNIError
       else extension_loop data (pos + 2) data_size)"

definition tls_size :: "bytes \<Rightarrow> nat res" where
  "tls_size data = rbind (be16_at data 3) (\<lambda>n. Inr (n + TLS_HEADER_LEN))"

definition parse_tls_sni :: "bytes \<Rightarrow> pystr res" where
  "parse_tls_sni data =
     (let data_size = length data in
      if data_size < TLS_HEADER_LEN then Inl ParseSNIError
      else rbind (byte_at data 0) (\<lambda>ctype.
      if ctype \<noteq> TLS_HANDSHAKE_CONTENT_TYPE then Inl ParseSNIError
      else rbind (byte_at data 1) (\<lambda>version.
      if version < 3 then Inl ParseSNIError
      else rbind (tls_size data) (\<lambda>size.
      if data_size < size then Inl ParseSNIIncompleteError
      else let pos = TLS_HEADER_LEN in rbind (byte_at data pos) (\<lambda>htype.
      if htype \<noteq> TLS_HANDSHAKE_TYPE_CLIENT_HELLO then Inl ParseSNIError
      else let pos = pos + 38 in
        rbind (on_index_error ParseSNIError (byte_at data pos)) (\<lambda>session_id.
        let pos = pos + 1 + session_id in
        rbind (on_index_error ParseSNIError (be16_at data pos)) (\<lambda>ciphers.
        let pos = pos + 2 + ciphers in
        rbind (on_index_error ParseSNIError (byte_at data pos)) (\<lambda>compression.
        let pos = pos + 1 + compression in
        if data_size < pos + 2 then Inl ParseSNIError
        else parse_extension data pos data_size))))))))"

section \<open>Reading a ClientHello from the stream\<close>

text \<open>
  The two loops of \<^verbatim>\<open>payload_reader\<close>: read while the guard holds; an empty read ends the attempt
  (\<open>None\<close>).
\<close>

function (sequential) read_while ::
    "(bytes \<Rightarrow> bool) \<Rightarrow> reader \<Rightarrow> bytes \<Rightarrow> bytes option res \<times> reader" where
  "read_while guard r data =
     (if guard data then
        (case read MAX_READ_SIZE r of
           (Inl e, r') \<Rightarrow> (Inl e, r')
         | (Inr chunk, r') \<Rightarrow>
             (if chunk = [] then (Inr None, r') else read_while guard r' (data @ chunk)))
      else (Inr (Some data), r))"
  by pat_completeness auto
termination
  by (relation "measure (\<lambda>(guard, r, data). length (pending r))") (auto, metis read_shrinks)

declare read_while.simps [simp del]

definition payload_reader :: "reader \<Rightarrow> bytes \<Rightarrow> bytes option res \<times> reader" where
  "payload_reader r initial =
     (case read_while (\<lambda>data. length data < 6) r initial of
        (Inl e, r) \<Rightarrow> (Inl e, r)
      | (Inr None, r) \<Rightarrow> (Inr None, r)
      | (Inr (Some data), r) \<Rightarrow>
          (if unat (data ! 0) \<noteq> TLS_HANDSHAKE_CONTENT_TYPE
              \<or> unat (data ! 5) \<noteq> TLS_HANDSHAKE_TYPE_CLIENT_HELLO
           then (Inr None, r)
           else (case tls_size data of
               Inl e \<Rightarrow> (Inl e, r)
             | Inr want \<Rightarrow>
                 read_while (\<lambda>data. length data < want \<and> length data \<le> MAX_BUFFER_SIZE) r data)))"

section \<open>What the parser raises\<close>

text \<open>
  Inside the loops every index is guarded when \<open>data_size\<close> is the length of the data: the only
  exception is \<open>ParseSNIError\<close>.
\<close>

lemma host_name_loop_raises:
  "host_name_loop data pos n = Inl e \<Longrightarrow> n = length data \<Longrightarrow> e = ParseSNIError"
proof (induction data pos n rule: host_name_loop.induct)
  case (1 data pos n)
  show ?case
  proof (cases "pos + 3 < n")
    case True
    with "1.prems" "1.IH" show ?thesis
      by (auto simp: host_name_loop.simps [of data pos] split: if_splits sum.splits)
  qed (use "1.prems" in \<open>simp add: host_name_loop.simps [of data pos]\<close>)
qed

lemma extension_loop_raises:
  "extension_loop data pos n = Inl e \<Longrightarrow> n = length data \<Longrightarrow> e = ParseSNIError"
proof (induction data pos n rule: extension_loop.induct)
  case (1 data pos n)
  show ?case
  proof (cases "pos + 4 \<le> n")
    case True
    with "1.prems" "1.IH" show ?thesis
      by (auto simp: extension_loop.simps [of data pos] parse_host_name_def
          split: if_splits dest: host_name_loop_raises)
  qed (use "1.prems" in \<open>simp add: extension_loop.simps [of data pos]\<close>)
qed

lemma parse_extension_raises:
  "parse_extension data pos (length data) = Inl e \<Longrightarrow> e = ParseSNIError"
  by (cases "pos + 1 < length data")
    (auto simp: parse_extension_def split: if_splits dest: extension_loop_raises)

lemma on_index_error_byte: "on_index_error e (byte_at d i) = Inl x \<Longrightarrow> x = e"
  by (cases "i < length d") auto

lemma on_index_error_be16: "on_index_error e (be16_at d i) = Inl x \<Longrightarrow> x = e"
  by (cases "i + 1 < length d") auto

text \<open>The input on which the one unguarded index is out of range: a record header of length 0.\<close>

definition empty_record :: "bytes \<Rightarrow> bool" where
  "empty_record d \<longleftrightarrow> length d = 5 \<and> unat (d ! 0) = 0x16 \<and> 3 \<le> unat (d ! 1) \<and> d ! 3 = 0 \<and> d ! 4 = 0"

lemma parse_tls_sni_cases:
  assumes "parse_tls_sni d = Inl e"
  shows "e = ParseSNIError \<or> e = ParseSNIIncompleteError \<or> (e = IndexError \<and> empty_record d)"
proof (cases "length d \<le> 5")
  case True
  with assms show ?thesis
    by (cases "length d = 5")
      (auto simp: parse_tls_sni_def tls_size_def tls_consts empty_record_def Let_def
        unat_eq_zero split: if_splits)
next
  case False
  then have "d \<noteq> []" by auto
  with False assms show ?thesis
    by (auto simp: parse_tls_sni_def tls_size_def tls_consts Let_def rbind_eq_Inl split: if_splits
        dest: parse_extension_raises on_index_error_byte on_index_error_be16)
qed

section \<open>The ClientHello format\<close>

text \<open>
  A ClientHello record as TLS lays it out: the record header, the handshake header with version and
  random (\<open>hello_fixed\<close>, 37 bytes after the type), and the four variable-length parts. A ServerName
  extension has type 0 and holds a list of typed names.
\<close>

record client_hello =
  record_major :: byte
  record_minor :: byte
  hello_fixed :: bytes
  session_id :: bytes
  cipher_suites :: bytes
  compression :: bytes
  extensions :: "(nat \<times> bytes) list"

definition encode_ext :: "nat \<times> bytes \<Rightarrow> bytes" where
  "encode_ext x = to_bytes_be 2 (fst x) @ to_bytes_be 2 (length (snd x)) @ snd x"

definition encode_name :: "byte \<times> bytes \<Rightarrow> bytes" where
  "encode_name x = fst x # to_bytes_be 2 (length (snd x)) @ snd x"

definition encode_names :: "(byte \<times> bytes) list \<Rightarrow> bytes" where
  "encode_names xs = concat (map encode_name xs)"

definition sni_body :: "(byte \<times> bytes) list \<Rightarrow> bytes" where
  "sni_body xs = to_bytes_be 2 (length (encode_names xs)) @ encode_names xs"

definition encode_exts :: "(nat \<times> bytes) list \<Rightarrow> bytes" where
  "encode_exts xs = concat (map encode_ext xs)"

definition encode_hello_body :: "client_hello \<Rightarrow> bytes" where
  "encode_hello_body ch =
     1 # hello_fixed ch @ word_of_nat (length (session_id ch)) # session_id ch
     @ to_bytes_be 2 (length (cipher_suites ch)) @ cipher_suites ch
     @ word_of_nat (length (compression ch)) # compression ch
     @ to_bytes_be 2 (length (encode_exts (extensions ch))) @ encode_exts (extensions ch)"

definition encode_hello :: "client_hello \<Rightarrow> bytes" where
  "encode_hello ch =
     0x16 # record_major ch # record_minor ch
     # to_bytes_be 2 (length (encode_hello_body ch)) @ encode_hello_body ch"

definition ext_ok :: "nat \<times> bytes \<Rightarrow> bool" where
  "ext_ok x \<longleftrightarrow> fst x < 65536 \<and> length (snd x) < 65536"

definition name_ok :: "byte \<times> bytes \<Rightarrow> bool" where
  "name_ok x \<longleftrightarrow> length (snd x) < 65536 \<and> snd x \<noteq> []"

definition hello_ok :: "client_hello \<Rightarrow> bool" where
  "hello_ok ch \<longleftrightarrow>
     3 \<le> unat (record_major ch) \<and> length (hello_fixed ch) = 37 \<and>
     length (session_id ch) < 256 \<and> length (cipher_suites ch) < 65536 \<and>
     length (compression ch) < 256 \<and> list_all ext_ok (extensions ch) \<and>
     length (encode_exts (extensions ch)) < 65536 \<and> length (encode_hello_body ch) < 65536"

section \<open>The parser reads the format\<close>

lemma byte_at_append: "byte_at (xs @ b # ys) (length xs) = Inr (unat b)"
  by (simp add: byte_at_def)

lemma be16_at_append: "n < 65536 \<Longrightarrow> be16_at (xs @ to_bytes_be 2 n @ ys) (length xs) = Inr n"
  by (simp add: to_bytes_be_2 nth_append)

lemma length_encode_ext [simp]: "length (encode_ext x) = 4 + length (snd x)"
  by (simp add: encode_ext_def)

lemma length_encode_name [simp]: "length (encode_name x) = 3 + length (snd x)"
  by (simp add: encode_name_def)

lemma be16_zero: "n < 65536 \<Longrightarrow> n div 256 mod 256 = 0 \<and> n mod 256 = 0 \<longleftrightarrow> n = (0 :: nat)"
  by auto

text \<open>An extension of another type is skipped, whole.\<close>

lemma extension_loop_skip:
  assumes "ext_ok x" and "fst x \<noteq> 0" and d: "data = pre @ encode_ext x @ rest"
  shows "extension_loop data (length pre) (length data) =
         extension_loop data (length pre + length (encode_ext x)) (length data)"
proof -
  let ?t = "to_bytes_be 2 (fst x)"
  have d2: "data = (pre @ ?t) @ to_bytes_be 2 (length (snd x)) @ snd x @ rest"
    by (simp add: d encode_ext_def)
  have n: "be16_at data (length pre + 2) = Inr (length (snd x))"
    using be16_at_append [of "length (snd x)" "pre @ ?t" "snd x @ rest"] assms(1) d2
    by (simp add: ext_ok_def)
  have t: "data ! length pre = word_of_nat (fst x div 256)"
          "data ! (length pre + 1) = word_of_nat (fst x)"
    by (simp_all add: d encode_ext_def to_bytes_be_2 nth_append)
  have "\<not> (fst x div 256 mod 256 = 0 \<and> fst x mod 256 = 0)"
    using assms be16_zero by (auto simp: ext_ok_def)
  then show ?thesis
    by (subst extension_loop.simps) (use n t in \<open>auto simp: d algebra_simps\<close>)
qed

lemma extension_loop_skips:
  assumes "list_all ext_ok xs" and "\<forall>x \<in> set xs. fst x \<noteq> 0" and "data = pre @ encode_exts xs @ rest"
  shows "extension_loop data (length pre) (length data) =
         extension_loop data (length pre + length (encode_exts xs)) (length data)"
  using assms
proof (induction xs arbitrary: pre)
  case (Cons x xs)
  then have d: "data = pre @ encode_ext x @ (encode_exts xs @ rest)"
    by (simp add: encode_exts_def)
  then have "data = (pre @ encode_ext x) @ encode_exts xs @ rest" by simp
  from Cons.IH [OF _ _ this] Cons.prems extension_loop_skip [OF _ _ d]
  show ?case by (simp add: encode_exts_def add.assoc)
qed (simp add: encode_exts_def)

lemma host_name_loop_skip:
  assumes "name_ok x" and "fst x \<noteq> 0" and d: "data = pre @ encode_name x @ rest"
  shows "host_name_loop data (length pre) (length data) =
         host_name_loop data (length pre + length (encode_name x)) (length data)"
proof -
  have d2: "data = (pre @ [fst x]) @ to_bytes_be 2 (length (snd x)) @ snd x @ rest"
    by (simp add: d encode_name_def)
  have n: "be16_at data (length pre + 1) = Inr (length (snd x))"
    using be16_at_append [of "length (snd x)" "pre @ [fst x]" "snd x @ rest"] assms(1) d2
    by (simp add: name_ok_def)
  have "data ! length pre = fst x" by (simp add: d2)
  moreover have "unat (fst x) \<noteq> 0" using assms(2) by (simp add: unat_eq_zero)
  ultimately show ?thesis
    by (subst host_name_loop.simps) (use n assms(1) in \<open>auto simp: d name_ok_def algebra_simps\<close>)
qed

lemma host_name_loop_skips:
  assumes "list_all name_ok xs" and "\<forall>x \<in> set xs. fst x \<noteq> 0" and "data = pre @ encode_names xs @ rest"
  shows "host_name_loop data (length pre) (length data) =
         host_name_loop data (length pre + length (encode_names xs)) (length data)"
  using assms
proof (induction xs arbitrary: pre)
  case (Cons x xs)
  then have d: "data = pre @ encode_name x @ (encode_names xs @ rest)"
    by (simp add: encode_names_def)
  then have "data = (pre @ encode_name x) @ encode_names xs @ rest" by simp
  from Cons.IH [OF _ _ this] Cons.prems host_name_loop_skip [OF _ _ d]
  show ?case by (simp add: encode_names_def add.assoc)
qed (simp add: encode_names_def)

lemma host_name_loop_found:
  assumes "name_ok (0, host)" and d: "data = pre @ encode_name (0, host) @ rest"
    and "decode_utf8 host = Inr s"
  shows "host_name_loop data (length pre) (length data) = Inr s"
proof -
  have d2: "data = (pre @ [0]) @ to_bytes_be 2 (length host) @ host @ rest"
    by (simp add: d encode_name_def)
  have n: "be16_at data (length pre + 1) = Inr (length host)"
    using be16_at_append [of "length host" "pre @ [0]" "host @ rest"] assms(1) d2
    by (simp add: name_ok_def)
  have h: "slice (length pre + 3) (length pre + 3 + length host) data = host"
    using slice_append_exact [of "pre @ 0 # to_bytes_be 2 (length host)" "length pre + 3" host
        "length pre + 3 + length host" rest] d2 by simp
  have "data ! length pre = 0" by (simp add: d2)
  then show ?thesis
    by (subst host_name_loop.simps)
      (use n h assms in \<open>auto simp: d name_ok_def\<close>)
qed

text \<open>From the ServerName extension on: the first host name of the list is the result.\<close>

lemma extension_loop_found:
  assumes "length (sni_body (ns @ (0, host) # ms)) < 65536"
    and "list_all name_ok (ns @ [(0, host)])" and "\<forall>x \<in> set ns. fst x \<noteq> 0"
    and d: "data = pre @ encode_ext (0, sni_body (ns @ (0, host) # ms)) @ rest"
    and "decode_utf8 host = Inr s"
  shows "extension_loop data (length pre) (length data) = Inr s"
proof -
  let ?body = "sni_body (ns @ (0, host) # ms)"
  let ?hd = "pre @ to_bytes_be 2 0 @ to_bytes_be 2 (length ?body)
             @ to_bytes_be 2 (length (encode_names (ns @ (0, host) # ms)))"
  have d2: "data = ?hd @ encode_names ns @ (encode_name (0, host) @ encode_names ms @ rest)"
    by (simp add: d encode_ext_def sni_body_def encode_names_def)
  have d3: "data = (?hd @ encode_names ns) @ encode_name (0, host) @ (encode_names ms @ rest)"
    by (simp add: d2)
  have l: "length ?hd = length pre + 6" by simp
  have l2: "length (?hd @ encode_names ns) = length ?hd + length (encode_names ns)"
    by (rule length_append)
  have "host_name_loop data (length ?hd) (length data) = Inr s"
    using host_name_loop_skips [OF _ assms(3) d2] host_name_loop_found [OF _ d3 assms(5)] assms(2)
    unfolding l2 by simp
  then have "host_name_loop data (length pre + 6) (length data) = Inr s"
    unfolding l .
  moreover have "data ! length pre = 0" "data ! (length pre + 1) = 0"
    by (simp_all add: d encode_ext_def to_bytes_be_2 nth_append)
  ultimately show ?thesis
    by (subst extension_loop.simps) (auto simp: d parse_host_name_def algebra_simps)
qed

text \<open>
  The fields before the extensions are skipped by their lengths, so that \<open>parse_extension\<close> starts
  exactly at the extensions' length field.
\<close>

definition hello_prefix :: "client_hello \<Rightarrow> bytes" where
  "hello_prefix ch =
     (0x16 # record_major ch # record_minor ch # to_bytes_be 2 (length (encode_hello_body ch)))
     @ 1 # hello_fixed ch @ word_of_nat (length (session_id ch)) # session_id ch
     @ to_bytes_be 2 (length (cipher_suites ch)) @ cipher_suites ch
     @ word_of_nat (length (compression ch)) # compression ch"

lemma encode_hello_prefix:
  "encode_hello ch = hello_prefix ch
     @ to_bytes_be 2 (length (encode_exts (extensions ch))) @ encode_exts (extensions ch)"
  by (simp add: encode_hello_def hello_prefix_def encode_hello_body_def)

lemma length_encode_hello: "length (encode_hello ch) = length (encode_hello_body ch) + 5"
  by (simp add: encode_hello_def)

lemma tls_size_encode:
  "hello_ok ch \<Longrightarrow> tls_size (encode_hello ch @ rest) = Inr (length (encode_hello ch))"
  using be16_at_append [of "length (encode_hello_body ch)" "[0x16, record_major ch, record_minor ch]"
      "encode_hello_body ch @ rest"]
  by (simp add: tls_size_def hello_ok_def encode_hello_def tls_consts numeral_3_eq_3)

lemma parse_tls_sni_fields:
  assumes ok: "hello_ok ch" and data: "data = encode_hello ch @ rest"
  shows "parse_tls_sni data = parse_extension data (length (hello_prefix ch)) (length data)"
proof -
  let ?h = "0x16 # record_major ch # record_minor ch # to_bytes_be 2 (length (encode_hello_body ch))"
  let ?s = "session_id ch" and ?c = "cipher_suites ch" and ?m = "compression ch"
  let ?e = "to_bytes_be 2 (length (encode_exts (extensions ch))) @ encode_exts (extensions ch) @ rest"
  let ?tail3 = "word_of_nat (length ?m) # ?m @ ?e"
  let ?tail2 = "to_bytes_be 2 (length ?c) @ ?c @ ?tail3"
  let ?p1 = "?h @ 1 # hello_fixed ch"
  let ?p2 = "?p1 @ word_of_nat (length ?s) # ?s"
  let ?p3 = "?p2 @ to_bytes_be 2 (length ?c) @ ?c"
  have d1: "data = ?p1 @ word_of_nat (length ?s) # (?s @ ?tail2)"
   and d2: "data = ?p2 @ to_bytes_be 2 (length ?c) @ (?c @ ?tail3)"
   and d3: "data = ?p3 @ word_of_nat (length ?m) # (?m @ ?e)"
    by (simp_all add: data encode_hello_prefix hello_prefix_def)
  have f: "length (hello_fixed ch) = 37" using ok by (simp add: hello_ok_def)
  have l1: "length ?p1 = 43" using f by simp
  have l2: "length ?p2 = 44 + length ?s" using f by simp
  have l3: "length ?p3 = 46 + length ?s + length ?c" using f by simp
  have l4: "length (hello_prefix ch) = 47 + length ?s + length ?c + length ?m"
    using f by (simp add: hello_prefix_def)
  have b1: "byte_at data 43 = Inr (length ?s)"
    using byte_at_append [of ?p1] ok unfolding d1 l1 by (simp add: hello_ok_def)
  have b2: "be16_at data (44 + length ?s) = Inr (length ?c)"
    using be16_at_append [of "length ?c" ?p2] ok unfolding d2 l2 by (simp add: hello_ok_def)
  have b3: "byte_at data (46 + length ?s + length ?c) = Inr (length ?m)"
    using byte_at_append [of ?p3] ok unfolding d3 l3 by (simp add: hello_ok_def)
  have hd: "unat (data ! 0) = 0x16" "data ! Suc 0 = record_major ch" "unat (data ! 5) = 1"
    by (simp_all add: data encode_hello_def to_bytes_be_2 encode_hello_body_def)
  have len: "length data = length (hello_prefix ch) + 2 + length (encode_exts (extensions ch)) + length rest"
    by (simp add: data encode_hello_prefix)
  have size: "tls_size data = Inr (length (encode_hello ch))"
    using tls_size_encode [OF ok] by (simp add: data)
  have ge: "length (encode_hello ch) \<le> length data" by (simp add: data)
  have r: "3 \<le> unat (record_major ch)" using ok by (simp add: hello_ok_def)
  show ?thesis
    unfolding parse_tls_sni_def
    using b1 b2 b3 hd len size ge r l4
    by (simp add: tls_consts Let_def add.assoc add.commute add.left_commute)
qed

text \<open>
  The round trip: a well-formed hello whose first ServerName extension carries a host name parses to
  that name, whatever follows the record in the buffer.
\<close>

lemma parse_encode_hello:
  assumes ok: "hello_ok ch"
    and exts: "extensions ch = xs @ (0, sni_body (ns @ (0, host) # ms)) # ys"
    and "\<forall>x \<in> set xs. fst x \<noteq> 0" and "\<forall>x \<in> set ns. fst x \<noteq> 0"
    and "list_all name_ok (ns @ [(0, host)])" and "decode_utf8 host = Inr s"
  shows "parse_tls_sni (encode_hello ch @ rest) = Inr s"
proof -
  let ?data = "encode_hello ch @ rest" and ?E = "encode_exts (extensions ch)"
  let ?sni = "(0, sni_body (ns @ (0, host) # ms))"
  let ?pre = "hello_prefix ch @ to_bytes_be 2 (length ?E)"
  have oks: "list_all ext_ok xs" "length (snd ?sni) < 65536"
    using ok exts by (simp_all add: hello_ok_def ext_ok_def)
  have d: "?data = ?pre @ encode_exts xs @ (encode_ext ?sni @ encode_exts ys @ rest)"
    by (simp add: encode_hello_prefix exts encode_exts_def)
  have d': "?data = (?pre @ encode_exts xs) @ encode_ext ?sni @ (encode_exts ys @ rest)"
    using d by simp
  have "extension_loop ?data (length ?pre) (length ?data) = Inr s"
    using extension_loop_skips [OF oks(1) assms(3) d]
      extension_loop_found [OF _ assms(5,4) d' assms(6)] oks(2) by simp
  moreover have "be16_at ?data (length (hello_prefix ch)) = Inr (length ?E)"
    using be16_at_append [of "length ?E" "hello_prefix ch" "?E @ rest"] ok
    by (simp add: encode_hello_prefix hello_ok_def)
  ultimately have "parse_extension ?data (length (hello_prefix ch)) (length ?data) = Inr s"
    by (simp add: parse_extension_def encode_hello_prefix)
  with parse_tls_sni_fields [OF ok refl] show ?thesis by metis
qed

section \<open>The reader\<close>

text \<open>What a finished loop read is the beginning of the stream, and nothing is lost.\<close>

lemma read_while_result:
  "read_while guard r d = (Inr (Some d'), r') \<Longrightarrow>
   \<not> guard d' \<and> d' @ pending r' = d @ pending r \<and> ending r' = ending r \<and>
   length d \<le> length d' \<and> (reader_ok r \<longrightarrow> reader_ok r')"
proof (induction guard r d rule: read_while.induct)
  case (1 guard r d)
  show ?case
  proof (cases "guard d")
    case True
    with "1.prems" obtain c r1 where c: "read MAX_READ_SIZE r = (Inr c, r1)" "c \<noteq> []"
      and rest: "read_while guard r1 (d @ c) = (Inr (Some d'), r')"
      by (auto simp: read_while.simps [of guard r] split: prod.splits sum.splits if_splits)
    from "1.IH" [OF True c(1) [symmetric] refl c(2) rest] read_pending [OF c(1)] read_ok [OF c(1)]
    show ?thesis by auto
  qed (use "1.prems" in \<open>simp add: read_while.simps [of guard r]\<close>)
qed

text \<open>The loop returns data as soon as the stream holds enough to make its guard false.\<close>

lemma read_while_returns:
  "reader_ok r \<Longrightarrow> (\<And>x. n \<le> length x \<Longrightarrow> \<not> guard x) \<Longrightarrow> n \<le> length (d @ pending r) \<Longrightarrow>
   \<exists>d' r'. read_while guard r d = (Inr (Some d'), r')"
proof (induction guard r d rule: read_while.induct)
  case (1 guard r d)
  show ?case
  proof (cases "guard d")
    case True
    with "1.prems" have "chunks r \<noteq> []" by (force simp: pending_def)
    then obtain c r1 where c: "read MAX_READ_SIZE r = (Inr c, r1)"
      by (auto simp: read_def neq_Nil_conv)
    have "c \<noteq> []"
      using read_empty_chunk [of MAX_READ_SIZE r r1] c "1.prems"(1) \<open>chunks r \<noteq> []\<close>
      by (auto simp: MAX_READ_SIZE_def)
    moreover have "n \<le> length ((d @ c) @ pending r1)"
      using read_pending [OF c] "1.prems"(3) by simp
    ultimately show ?thesis
      using "1.IH" [OF True c [symmetric] refl \<open>c \<noteq> []\<close> read_ok [OF c "1.prems"(1)] "1.prems"(2)] True c
      by (simp add: read_while.simps [of guard r])
  qed (simp add: read_while.simps [of guard r])
qed

lemma tls_size_prefix: "5 \<le> length d \<Longrightarrow> tls_size (d @ e) = tls_size d"
  by (simp add: tls_size_def nth_append)

lemma tls_size_bound: "tls_size d = Inr n \<Longrightarrow> n \<le> 65540"
proof -
  assume "tls_size d = Inr n"
  then have "n = unat (d ! 3) * 256 + unat (d ! 4) + 5"
    by (cases "4 < length d") (auto simp: tls_size_def tls_consts)
  with byte_bound [of "d ! 3"] byte_bound [of "d ! 4"] show ?thesis by simp
qed

text \<open>
  However the stream is chunked, a complete ClientHello record is returned whole: \<open>payload_reader\<close>
  stops with a prefix of the stream that holds the record, and the rest stays in the reader.
\<close>

lemma payload_reader_whole:
  assumes ok: "reader_ok r" and w: "whole = initial @ pending r" and "6 \<le> length whole"
    and "unat (whole ! 0) = TLS_HANDSHAKE_CONTENT_TYPE"
    and "unat (whole ! 5) = TLS_HANDSHAKE_TYPE_CLIENT_HELLO"
    and size: "tls_size whole = Inr n" and "n \<le> length whole"
  shows "\<exists>d r'. payload_reader r initial = (Inr (Some d), r') \<and> n \<le> length d \<and>
           d @ pending r' = whole \<and> reader_ok r' \<and> ending r' = ending r"
proof -
  obtain d1 r1 where l1: "read_while (\<lambda>x. length x < 6) r initial = (Inr (Some d1), r1)"
    using read_while_returns [OF ok, of 6 "\<lambda>x. length x < 6" initial] assms(2,3) by auto
  note f1 = read_while_result [OF l1]
  have d1: "6 \<le> length d1" and wd1: "whole = d1 @ pending r1" using f1 w by auto
  then have hd: "d1 ! 0 = whole ! 0" "d1 ! 5 = whole ! 5" and s1: "tls_size d1 = Inr n"
    using size tls_size_prefix [of d1 "pending r1"] by (auto simp: nth_append)
  let ?g = "\<lambda>x. length x < n \<and> length x \<le> MAX_BUFFER_SIZE"
  obtain d r' where l2: "read_while ?g r1 d1 = (Inr (Some d), r')"
    using read_while_returns [of r1 n ?g d1] f1 ok assms(7) wd1 by auto
  have "n \<le> length d"
    using read_while_result [OF l2] tls_size_bound [OF size] by (auto simp: MAX_BUFFER_SIZE_def)
  then show ?thesis
    using l1 l2 hd s1 assms(4,5) read_while_result [OF l2] f1 ok wd1
    by (auto simp: payload_reader_def)
qed

text \<open>Conversely, whatever is returned is a complete record at the head of the stream.\<close>

lemma payload_reader_result:
  assumes "payload_reader r initial = (Inr (Some d), r')"
  shows "d @ pending r' = initial @ pending r \<and> 6 \<le> length d \<and>
         unat (d ! 0) = TLS_HANDSHAKE_CONTENT_TYPE \<and> unat (d ! 5) = TLS_HANDSHAKE_TYPE_CLIENT_HELLO \<and>
         (\<exists>n. tls_size d = Inr n \<and> n \<le> length d)"
proof -
  from assms obtain d1 r1 n where l1: "read_while (\<lambda>x. length x < 6) r initial = (Inr (Some d1), r1)"
    and hd: "unat (d1 ! 0) = TLS_HANDSHAKE_CONTENT_TYPE" "unat (d1 ! 5) = TLS_HANDSHAKE_TYPE_CLIENT_HELLO"
    and n: "tls_size d1 = Inr n"
    and l2: "read_while (\<lambda>x. length x < n \<and> length x \<le> MAX_BUFFER_SIZE) r1 d1 = (Inr (Some d), r')"
    by (auto simp: payload_reader_def split: prod.splits sum.splits option.splits if_splits)
  note f1 = read_while_result [OF l1] and f2 = read_while_result [OF l2]
  from f1 f2 have l: "6 \<le> length d1" and "\<exists>e. d = d1 @ e"
    by (auto simp: append_eq_append_conv2)
  then obtain e where "d = d1 @ e" by blast
  with l n hd have "tls_size d = Inr n" "d ! 0 = d1 ! 0" "d ! 5 = d1 ! 5"
    using tls_size_prefix [of d1 e] by (auto simp: nth_append)
  with f1 f2 l hd tls_size_bound [OF n] show ?thesis by (auto simp: MAX_BUFFER_SIZE_def)
qed

section \<open>Properties\<close>

text \<open>
  C21: SNI extraction is correct and does not depend on how the network fragments the handshake. When
  the bytes already read followed by the bytes still arriving start with a well-formed ClientHello
  whose first ServerName extension has a host name (after any other extensions and any names of other
  types), then \<open>payload_reader\<close> returns a buffer, and \<open>parse_tls_sni\<close> of that buffer is the
  decoded host name; the unread bytes stay in the stream.
\<close>

theorem sni_of_fragmented_hello:
  assumes "reader_ok r" and "hello_ok ch"
    and "initial @ pending r = encode_hello ch @ rest"
    and "extensions ch = xs @ (0, sni_body (ns @ (0, host) # ms)) # ys"
    and "\<forall>x \<in> set xs. fst x \<noteq> 0" and "\<forall>x \<in> set ns. fst x \<noteq> 0"
    and "list_all name_ok (ns @ [(0, host)])" and "decode_utf8 host = Inr s"
  shows "\<exists>d r'. payload_reader r initial = (Inr (Some d), r') \<and> parse_tls_sni d = Inr s \<and>
           d @ pending r' = initial @ pending r"
proof -
  let ?w = "encode_hello ch @ rest"
  have "5 < length ?w" and "unat (?w ! 0) = 0x16" and "unat (?w ! 5) = 1"
    using assms(2) by (simp_all add: encode_hello_def encode_hello_body_def to_bytes_be_2)
  then obtain d r' where d: "payload_reader r initial = (Inr (Some d), r')"
      and len: "length (encode_hello ch) \<le> length d" and whole: "d @ pending r' = ?w"
    using payload_reader_whole [OF assms(1) assms(3) [symmetric]] tls_size_encode [OF assms(2), of rest]
    by (fastforce simp: tls_consts)
  from prefix_longer [OF whole len] obtain rest' where "d = encode_hello ch @ rest'" by blast
  with parse_encode_hello [OF assms(2,4-8)] d whole assms(3) show ?thesis by auto
qed

text \<open>A hello for the one-letter host \<^verbatim>\<open>a\<close>, cut in two by the network.\<close>

definition example_hello :: client_hello where
  "example_hello = \<lparr>record_major = 3, record_minor = 1, hello_fixed = replicate 37 0, session_id = [],
     cipher_suites = [], compression = [], extensions = [(10, [1, 2]), (0, sni_body [(7, [5]), (0, [97])])]\<rparr>"

lemma example_hello_fields:
  "hello_ok example_hello" "extensions example_hello = [(10, [1, 2])] @ (0, sni_body ([(7, [5])] @ (0, [97]) # [])) # []"
  "list_all name_ok ([(7, [5])] @ [(0, [97])])" "decode_utf8 [97] = Inr [97]"
  by (simp_all add: hello_ok_def example_hello_def ext_ok_def sni_body_def encode_exts_def encode_ext_def
      encode_names_def encode_name_def encode_hello_body_def name_ok_def decode_utf8_def)

theorem sni_of_fragmented_hello_witness:
  "\<exists>d r'. payload_reader \<lparr>chunks = [drop 3 (encode_hello example_hello), [1, 2]], ending = Eof\<rparr>
            (take 3 (encode_hello example_hello)) = (Inr (Some d), r') \<and>
          parse_tls_sni d = Inr [97] \<and>
          d @ pending r' = encode_hello example_hello @ [1, 2]"
proof -
  let ?r = "\<lparr>chunks = [drop 3 (encode_hello example_hello), [1, 2]], ending = Eof\<rparr>"
  have c: "take 3 (encode_hello example_hello) @ pending ?r = encode_hello example_hello @ [1, 2]"
    by (simp add: pending_def)
  have rok: "reader_ok ?r" by (simp add: reader_ok_def encode_hello_def encode_hello_body_def)
  show ?thesis
    unfolding c [symmetric]
    by (rule sni_of_fragmented_hello [OF rok example_hello_fields(1) c,
          where xs = "[(10, [1, 2])]" and ns = "[(7, [5])]" and host = "[97]" and ms = "[]" and ys = "[]"])
      (simp_all add: example_hello_def name_ok_def decode_utf8_def)
qed

text \<open>
  The exceptions of \<open>parse_tls_sni\<close>, exactly. It raises \<open>ParseSNIError\<close> or
  \<open>ParseSNIIncompleteError\<close>, except on a five-byte buffer that is a handshake record header of
  length zero, where the unguarded \<^verbatim>\<open>data[pos]\<close> raises \<open>IndexError\<close>; the callers catch only
  the two parse errors.
\<close>

theorem parse_tls_sni_exceptions:
  "(parse_tls_sni d = Inl IndexError \<longleftrightarrow> empty_record d) \<and>
   (case parse_tls_sni d of
      Inr s \<Rightarrow> True
    | Inl e \<Rightarrow> e = ParseSNIError \<or> e = ParseSNIIncompleteError \<or> e = IndexError)"
proof -
  have "parse_tls_sni d = Inl IndexError" if "empty_record d"
    using that by (auto simp: parse_tls_sni_def tls_size_def tls_consts empty_record_def Let_def)
  with parse_tls_sni_cases [of d] show ?thesis by (auto split: sum.split)
qed

end
