(* ===== verification/AddressText.thy ===== *)
theory AddressText
  imports IpAddress
begin

text \<open>
  IP addresses as text: \<^verbatim>\<open>str\<close> of Python's address objects, with the compression of \<open>_compress_hextets\<close>, and
  \<open>normalize_hosts\<close> of \<^verbatim>\<open>snitun/utils/ipaddress.py\<close>, which turns the hosts a server listens on into text. The
  printed form is shown to denote the address it was printed from.
\<close>

section \<open>Printing\<close>

fun join_on :: "'a \<Rightarrow> 'a list list \<Rightarrow> 'a list" where
  "join_on c [] = []"
| "join_on c [p] = p"
| "join_on c (p # q # ps) = p @ c # join_on c (q # ps)"

definition hextets :: "nat \<Rightarrow> nat list" where
  "hextets v = map (\<lambda>i. v div 65536 ^ (7 - i) mod 65536) [0..<8]"

text \<open>
  The first longest run of \<^verbatim>\<open>0\<close>: its start and its length, from the best run so far and the current one. A current
  run of length 0 has no start.
\<close>

fun best_run :: "nat \<Rightarrow> pystr list \<Rightarrow> nat \<times> nat \<Rightarrow> nat \<times> nat \<Rightarrow> nat \<times> nat" where
  "best_run i [] best cur = best"
| "best_run i (h # hs) best (s, n) =
     (if h = [48]
      then let s = (if n = 0 then i else s); n = n + 1 in
           best_run (i + 1) hs (if snd best < n then (s, n) else best) (s, n)
      else best_run (i + 1) hs best (0, 0))"

definition compress_hextets :: "pystr list \<Rightarrow> pystr list" where
  "compress_hextets parts =
     (case best_run 0 parts (0, 0) (0, 0) of (s, n) \<Rightarrow>
        if n \<le> 1 then parts
        else let parts' = (if s + n = length parts then parts @ [[]] else parts);
                 parts'' = take s parts' @ [[]] @ drop (s + n) parts'
             in if s = 0 then [] # parts'' else parts'')"

definition ipv6_int_str :: "nat \<Rightarrow> pystr" where
  "ipv6_int_str v = join_on 58 (compress_hextets (map hex_str (hextets v)))"

text \<open>An IPv4-mapped address is printed with a dotted quad.\<close>

definition ipv6_str :: "nat \<Rightarrow> pystr" where
  "ipv6_str v =
     (if v div 2 ^ 32 = 0xFFFF then ipv6_int_str (v div 2 ^ 32) @ 58 # ipv4_str (v mod 2 ^ 32) else ipv6_int_str v)"

fun ip_str :: "ip_address \<Rightarrow> pystr" where
  "ip_str (IPv4Address w) = ipv4_str (unat w)"
| "ip_str (IPv6Address w None) = ipv6_str (unat w)"
| "ip_str (IPv6Address w (Some sc)) = (if sc = [] then ipv6_str (unat w) else ipv6_str (unat w) @ 37 # sc)"

section \<open>Hosts\<close>

datatype host = HostName pystr | HostAddress ip_address

datatype hosts = NoHosts | OneHost host | HostList "host list"

fun host_str :: "host \<Rightarrow> pystr" where
  "host_str (HostName s) = s"
| "host_str (HostAddress a) = ip_str a"

fun normalize_hosts :: "hosts \<Rightarrow> pystr list option" where
  "normalize_hosts NoHosts = None"
| "normalize_hosts (OneHost h) = Some [host_str h]"
| "normalize_hosts (HostList hs) = Some (map host_str hs)"

section \<open>Hextets\<close>

lemma hex_value_str: "hex_value (hex_str n) = n"
proof (induction n rule: hex_str.induct)
  case (1 n)
  then show ?case
    by (cases "n < 16") (simp_all add: hex_str.simps [of n] hex_value_snoc hex_val_char, simp add: hex_value_def hex_val_char)
qed

lemma hex_str_digits: "c \<in> set (hex_str n) \<Longrightarrow> hex_val c \<noteq> None"
proof (induction n rule: hex_str.induct)
  case (1 n)
  then show ?case
    by (cases "n < 16") (auto simp: hex_str.simps [of n] hex_val_char)
qed

lemma hex_str_not_Nil [simp]: "hex_str n \<noteq> []"
  by (simp add: hex_str.simps [of n])

lemma hex_str_no_char: "hex_val c = None \<Longrightarrow> c \<notin> set (hex_str n)"
  using hex_str_digits by blast

lemma hex_str_len4: "n < 65536 \<Longrightarrow> length (hex_str n) \<le> 4"
  by (simp add: hex_str.simps [of n] hex_str.simps [of "n div 16"] hex_str.simps [of "n div 16 div 16"]
    hex_str.simps [of "n div 16 div 16 div 16"])

lemma parse_hextet_str: "n < 65536 \<Longrightarrow> parse_hextet (hex_str n) = Inr n"
  using hex_str_len4 [of n] hex_str_digits [of _ n] by (auto simp: parse_hextet_def hex_value_str list_all_iff)

abbreviation digits :: "nat \<Rightarrow> nat list \<Rightarrow> nat" where
  "digits acc vs \<equiv> foldl (\<lambda>a v. 65536 * a + v) acc vs"

lemma parse_hextets_str: "\<forall>v \<in> set vs. v < 65536 \<Longrightarrow> parse_hextets (map hex_str vs) acc = Inr (digits acc vs)"
  by (induction vs arbitrary: acc) (simp_all add: parse_hextet_str)

lemma digits_zeros: "digits acc (replicate n 0) = acc * 65536 ^ n"
  by (induction n arbitrary: acc) simp_all

lemma hextets_bounds: "length (hextets v) = 8" "x \<in> set (hextets v) \<Longrightarrow> x < 65536"
  by (auto simp: hextets_def)

lemma hextets_eq:
  "hextets v = [v div 65536 ^ 7 mod 65536, v div 65536 ^ 6 mod 65536, v div 65536 ^ 5 mod 65536, v div 65536 ^ 4 mod 65536,
     v div 65536 ^ 3 mod 65536, v div 65536 ^ 2 mod 65536, v div 65536 ^ 1 mod 65536, v div 65536 ^ 0 mod 65536]"
proof -
  have "[0..<8] = [0, 1, 2, 3, 4, 5, 6, 7 :: nat]" by code_simp
  then show ?thesis unfolding hextets_def by simp
qed

lemma hextets_value:
  assumes "v < 65536 ^ 8"
  shows "digits 0 (hextets v) = v"
proof -
  have step: "65536 * (v div 65536 ^ Suc i) + v div 65536 ^ i mod 65536 = v div 65536 ^ i" for i
    using div_mult_mod_eq [of "v div 65536 ^ i" 65536] by (simp add: div_mult2_eq [symmetric] mult.commute)
  have top: "v div 65536 ^ 8 = 0" using assms by simp
  have "digits 0 (hextets v) = digits (v div 65536 ^ 8)
      [v div 65536 ^ 7 mod 65536, v div 65536 ^ 6 mod 65536, v div 65536 ^ 5 mod 65536, v div 65536 ^ 4 mod 65536,
       v div 65536 ^ 3 mod 65536, v div 65536 ^ 2 mod 65536, v div 65536 ^ 1 mod 65536, v div 65536 ^ 0 mod 65536]"
    unfolding hextets_eq top by simp
  also have "\<dots> = v div 65536 ^ 0"
    using step [of 7] step [of 6] step [of 5] step [of 4] step [of 3] step [of 2] step [of 1] step [of 0]
    by (simp only: foldl.simps Suc_numeral eval_nat_numeral [symmetric] One_nat_def [symmetric]) (simp add: numeral_2_eq_2 [symmetric])
  finally show ?thesis by simp
qed

section \<open>The compressed form is read back\<close>

text \<open>The run that is found consists of zeros; the current run ends where the scan has got to.\<close>

definition run_in :: "pystr list \<Rightarrow> nat \<times> nat \<Rightarrow> bool" where
  "run_in ps r \<longleftrightarrow> (\<exists>a b. ps = a @ replicate (snd r) [48] @ b \<and> length a = fst r)"

definition run_at_end :: "pystr list \<Rightarrow> nat \<times> nat \<Rightarrow> bool" where
  "run_at_end ps r \<longleftrightarrow> (\<exists>a. ps = a @ replicate (snd r) [48] \<and> (snd r \<noteq> 0 \<longrightarrow> length a = fst r))"

lemma run_in_extend: "run_in ps r \<Longrightarrow> run_in (ps @ qs) r"
  unfolding run_in_def by (metis append.assoc)

lemma run_at_end_in: "run_at_end ps r \<Longrightarrow> snd r \<noteq> 0 \<Longrightarrow> run_in ps r"
  unfolding run_at_end_def run_in_def by (metis append_Nil2)

lemma run_at_end_next:
  "run_at_end ps (s, n) \<Longrightarrow> run_at_end (ps @ [[48]]) (if n = 0 then length ps else s, n + 1)"
  by (auto simp: run_at_end_def replicate_append_same)

lemma best_run_in:
  "run_in ps best \<Longrightarrow> run_at_end ps cur \<Longrightarrow> run_in (ps @ hs) (best_run (length ps) hs best cur)"
proof (induction hs arbitrary: ps best cur)
  case (Cons h hs)
  obtain s n where cur: "cur = (s, n)" by fastforce
  show ?case
  proof (cases "h = [48]")
    case True
    let ?cur = "(if n = 0 then length ps else s, n + 1)"
    have e: "run_at_end (ps @ [h]) ?cur" using run_at_end_next Cons.prems(2) cur True by simp
    have "run_in (ps @ [h]) (if snd best < n + 1 then ?cur else best)"
      using run_at_end_in [OF e] run_in_extend [OF Cons.prems(1)] by auto
    from Cons.IH [OF this e] True cur show ?thesis by (cases "n = 0") (simp_all add: Let_def split: if_splits)
  next
    case False
    have "run_at_end (ps @ [h]) (0, 0)" by (simp add: run_at_end_def)
    from Cons.IH [OF run_in_extend [OF Cons.prems(1)] this] False cur show ?thesis by simp
  qed
qed simp

lemma hex_str_zero: "hex_str n = [48] \<longleftrightarrow> n = 0"
  using hex_value_str [of n] by (auto simp: hex_str.simps [of 0] hex_char_def hex_value_def hex_val_def)

text \<open>Either nothing is compressed, or the parts before and after a run of zeros surround an empty part.\<close>

definition compressed :: "nat list \<Rightarrow> nat list \<Rightarrow> pystr list" where
  "compressed xs ys =
     (if xs = [] then [[]] else map hex_str xs) @ [[]] @ (if ys = [] then [[]] else map hex_str ys)"

lemma compress_cases:
  obtains "compress_hextets (map hex_str vs) = map hex_str vs"
  | xs n ys where "vs = xs @ replicate n 0 @ ys" "2 \<le> n" "compress_hextets (map hex_str vs) = compressed xs ys"
proof -
  obtain s n where r: "best_run 0 (map hex_str vs) (0, 0) (0, 0) = (s, n)" by fastforce
  have "run_in [] (0, 0)" "run_at_end [] (0, 0)" by (simp_all add: run_in_def run_at_end_def)
  from best_run_in [OF this, of "map hex_str vs"] r obtain a b where
    d: "map hex_str vs = a @ replicate n [48] @ b" "length a = s" by (auto simp: run_in_def)
  from d(1) obtain xs us where u: "vs = xs @ us" "a = map hex_str xs" "map hex_str us = replicate n [48] @ b"
    by (elim map_eq_append_conv [THEN iffD1, elim_format] exE conjE) simp
  from u(3) obtain zs ys where "us = zs @ ys" "replicate n [48] = map hex_str zs" "b = map hex_str ys"
    by (elim map_eq_append_conv [THEN iffD1, elim_format] exE conjE) simp
  with u have v: "vs = xs @ zs @ ys" "a = map hex_str xs" "replicate n [48] = map hex_str zs" "b = map hex_str ys" by simp_all
  have "zs = replicate n 0"
  proof (rule replicate_eqI)
    show "length zs = n" using arg_cong [OF v(3), of length] by simp
    show "y = 0" if "y \<in> set zs" for y
    proof -
      have "hex_str y \<in> set (replicate n [48])" using that v(3) by simp
      then show ?thesis by (simp add: hex_str_zero split: if_splits)
    qed
  qed
  with v have vs: "vs = xs @ replicate n 0 @ ys" by simp
  show ?thesis
  proof (cases "n \<le> 1")
    case True
    with r that(1) show ?thesis by (simp add: compress_hextets_def)
  next
    case False
    have z: "hex_str 0 = [48]" by (simp add: hex_str_zero)
    have "compress_hextets (map hex_str vs) = compressed xs ys"
      using r False d(2) v(2) z by (auto simp: compress_hextets_def compressed_def Let_def vs)
    with False vs that(2) show ?thesis by simp
  qed
qed

lemma split_join: "ps \<noteq> [] \<Longrightarrow> \<forall>p \<in> set ps. c \<notin> set p \<Longrightarrow> split_on c (join_on c ps) = ps"
  by (induction c ps rule: join_on.induct) (simp_all add: split_on_append split_on_single)

lemma filter_upt_single:
  assumes "m \<le> k" and "k < n" and "P k" and "\<And>i. m \<le> i \<Longrightarrow> i < n \<Longrightarrow> i \<noteq> k \<Longrightarrow> \<not> P i"
  shows "filter P [m..<n] = [k]"
proof -
  have "[m..<n] = [m..<k] @ k # [Suc k..<n]"
    using upt_add_eq_append [of m k "n - k"] upt_conv_Cons [OF assms(2)] assms(1,2) by simp
  with assms show ?thesis by simp
qed

lemma skip_compressed: "skip_indices (compressed xs ys) = [if xs = [] then 1 else length xs]"
proof -
  define a where "a = (if xs = [] then [[]] else map hex_str xs)"
  define b where "b = (if ys = [] then [[]] else map hex_str ys)"
  have c: "compressed xs ys = a @ [[]] @ b" by (simp add: compressed_def a_def b_def)
  have ab: "a \<noteq> []" "b \<noteq> []" by (simp_all add: a_def b_def)
  have "length a = (if xs = [] then 1 else length xs)" by (simp add: a_def)
  moreover have "filter (\<lambda>i. (a @ [[]] @ b) ! i = []) [1..<length (a @ [[]] @ b) - 1] = [length a]"
  proof (rule filter_upt_single)
    fix i assume i: "1 \<le> i" "i < length (a @ [[]] @ b) - 1" "i \<noteq> length a"
    show "(a @ [[]] @ b) ! i \<noteq> []"
    proof (cases "i < length a")
      case True
      with i show ?thesis by (auto simp: nth_append a_def split: if_splits)
    next
      case False
      with i have "(a @ [[]] @ b) ! i = b ! (i - length a - 1)" "i - length a - 1 < length b - 1"
        by (auto simp: nth_append)
      then show ?thesis by (auto simp: b_def split: if_splits)
    qed
  qed (use ab in \<open>auto simp: Suc_leI\<close>)
  ultimately show ?thesis by (simp only: skip_indices_def c)
qed

lemma ipv6_parts_compressed:
  assumes "\<forall>v \<in> set (xs @ ys). v < 65536" and "length xs + length ys \<le> 6"
  shows "ipv6_parts (compressed xs ys) = Inr (digits (digits 0 xs * 65536 ^ (8 - (length xs + length ys))) ys)"
proof -
  have l: "length (compressed xs ys) \<le> 9" using assms(2) by (auto simp: compressed_def)
  have p: "parse_hextets (map hex_str xs) 0 = Inr (digits 0 xs)" using parse_hextets_str [of xs] assms(1) by auto
  have q: "parse_hextets (map hex_str ys) acc = Inr (digits acc ys)" for acc using parse_hextets_str [of ys] assms(1) by auto
  have h: "hd (map hex_str xs) \<noteq> []" if "xs \<noteq> []" using that by (cases xs) simp_all
  have t: "last (map hex_str ys) \<noteq> []" if "ys \<noteq> []" using that by (simp add: last_map)
  show ?thesis
  proof (cases "xs = []"; cases "ys = []")
    assume "xs = []" "ys = []"
    with l skip_compressed [of xs ys] show ?thesis by (simp add: ipv6_parts_def compressed_def)
  next
    assume e: "xs = []" "ys \<noteq> []"
    with l skip_compressed [of xs ys] t q assms(2) show ?thesis by (simp add: ipv6_parts_def compressed_def)
  next
    assume e: "xs \<noteq> []" "ys = []"
    with l skip_compressed [of xs ys] h p assms(2) show ?thesis by (simp add: ipv6_parts_def compressed_def)
  next
    assume e: "xs \<noteq> []" "ys \<noteq> []"
    with l skip_compressed [of xs ys] h t p q assms(2) show ?thesis by (simp add: ipv6_parts_def compressed_def)
  qed
qed

lemma compressed_chars: "p \<in> set (compressed xs ys) \<Longrightarrow> c \<in> set p \<Longrightarrow> hex_val c \<noteq> None"
  by (auto simp: compressed_def dest: hex_str_digits split: if_splits)

lemma length_compressed: "3 \<le> length (compressed xs ys)"
  by (cases xs; cases ys) (simp_all add: compressed_def)

text \<open>The printed parts: hexadecimal, at least three of them, and their value is the number that was printed.\<close>

lemma printed_parts:
  assumes "v < 65536 ^ 8"
  defines "ps \<equiv> compress_hextets (map hex_str (hextets v))"
  shows "3 \<le> length ps" "p \<in> set ps \<Longrightarrow> c \<in> set p \<Longrightarrow> hex_val c \<noteq> None" "ipv6_parts ps = Inr v"
proof -
  note H = hextets_bounds(1) [of v] hextets_bounds(2) [of _ v] hextets_value [OF assms(1)]
  have "3 \<le> length ps \<and> (\<forall>p \<in> set ps. \<forall>c \<in> set p. hex_val c \<noteq> None) \<and> ipv6_parts ps = Inr v"
  proof (rule compress_cases [of "hextets v"])
    assume c: "compress_hextets (map hex_str (hextets v)) = map hex_str (hextets v)"
    have "hextets v \<noteq> []" using H(1) by auto
    then have "hd (map hex_str (hextets v)) \<noteq> []" "last (map hex_str (hextets v)) \<noteq> []"
      by (simp_all add: hd_map last_map)
    moreover have "skip_indices (map hex_str (hextets v)) = []" by (simp add: skip_indices_def H(1))
    moreover have "parse_hextets (map hex_str (hextets v)) 0 = Inr v" using H parse_hextets_str [of "hextets v" 0] by simp
    ultimately show ?thesis using c H(1) by (auto simp: ps_def ipv6_parts_def dest: hex_str_digits)
  next
    fix xs n ys
    assume c: "hextets v = xs @ replicate n 0 @ ys" "2 \<le> n" "compress_hextets (map hex_str (hextets v)) = compressed xs ys"
    have l: "length xs + n + length ys = 8" using H(1) c(1) by simp
    then have n: "8 - (length xs + length ys) = n" by simp
    have "\<forall>v \<in> set (xs @ ys). v < 65536" using H(2) c(1) by auto
    from ipv6_parts_compressed [OF this] l c(2) n have "ipv6_parts ps = Inr (digits (digits 0 xs * 65536 ^ n) ys)"
      by (simp add: ps_def c(3))
    also have "digits (digits 0 xs * 65536 ^ n) ys = v" using H(3) by (simp add: c(1) digits_zeros)
    finally show ?thesis using compressed_chars [of _ xs ys] by (auto simp: ps_def c(3) length_compressed)
  qed
  then show "3 \<le> length ps" "p \<in> set ps \<Longrightarrow> c \<in> set p \<Longrightarrow> hex_val c \<noteq> None" "ipv6_parts ps = Inr v" by auto
qed

lemma not_hex [simp]: "hex_val 58 = None" "hex_val 46 = None" "hex_val 47 = None" "hex_val 37 = None" "hex_val 32 = None" "hex_val 13 = None"
  by (simp_all add: hex_val_def)

lemma join_set: "c \<in> set (join_on d ps) \<Longrightarrow> c = d \<or> (\<exists>p \<in> set ps. c \<in> set p)"
  by (induction d ps rule: join_on.induct) auto

lemma int_str_reads:
  assumes "v < 65536 ^ 8"
  shows "ipv6_of_text (ipv6_int_str v) = Inr v" "c \<in> set (ipv6_int_str v) \<Longrightarrow> c = 58 \<or> hex_val c \<noteq> None"
    "58 \<in> set (ipv6_int_str v)"
proof -
  let ?ps = "compress_hextets (map hex_str (hextets v))"
  note P = printed_parts [OF assms]
  have s: "split_on 58 (ipv6_int_str v) = ?ps"
    unfolding ipv6_int_str_def using P(1) P(2) [of _ 58] by (intro split_join) (auto simp: hex_val_def)
  have "last ?ps \<in> set ?ps" using P(1) by (intro last_in_set) auto
  then have "46 \<notin> set (last ?ps)" using P(2) [of "last ?ps" 46] by auto
  then have "expand_v4_tail ?ps = Inr ?ps" by (simp add: expand_v4_tail_def)
  moreover have "ipv6_int_str v \<noteq> []"
  proof
    assume "ipv6_int_str v = []"
    with s have "?ps = [[]]" by (simp add: ipv6_int_str_def)
    with P(1) show False by simp
  qed
  ultimately show "ipv6_of_text (ipv6_int_str v) = Inr v" using s P(1,3) by (simp add: ipv6_of_text_def)
  show "c \<in> set (ipv6_int_str v) \<Longrightarrow> c = 58 \<or> hex_val c \<noteq> None"
    using join_set [of c 58 ?ps] P(2) [of _ c] by (auto simp: ipv6_int_str_def)
  show "58 \<in> set (ipv6_int_str v)"
  proof (rule ccontr)
    assume "58 \<notin> set (ipv6_int_str v)"
    then have "split_on 58 (ipv6_int_str v) = [ipv6_int_str v]" by (rule split_on_single)
    then have "length (split_on 58 (ipv6_int_str v)) = 1" by simp
    with P(1) show False unfolding s by simp
  qed
qed

lemma ipv4_str_chars: "c \<in> set (ipv4_str v) \<Longrightarrow> c = 46 \<or> is_digit c"
  by (auto simp: ipv4_str_def dest: dec_str_digits)

lemmas print_eval = ipv6_int_str_def hextets_eq compress_hextets_def Let_def hex_str.simps hex_char_def

lemma ffff_str: "ipv6_int_str 0xFFFF = [58, 58, 102, 102, 102, 102]"
  by (simp add: print_eval)

lemma mapped_reads:
  assumes "w < 2 ^ 32"
  shows "ipv6_of_text ([58, 58, 102, 102, 102, 102] @ 58 # ipv4_str w) = Inr (0xFFFF * 2 ^ 32 + w)"
proof -
  let ?hi = "w div 65536" and ?lo = "w mod 65536"
  have f: "hex_str 0xFFFF = [102, 102, 102, 102]" by (simp add: print_eval)
  have c: "58 \<notin> set (ipv4_str w)" using ipv4_str_chars [of 58 w] by (auto simp: is_digit_def)
  have "split_on 58 ([58, 58, 102, 102, 102, 102] @ 58 # ipv4_str w) = [[], [], [102, 102, 102, 102], ipv4_str w]"
    using split_on_single [OF c] by simp
  moreover have "46 \<in> set (ipv4_str w)" by (simp add: ipv4_str_def)
  then have "expand_v4_tail [[], [], [102, 102, 102, 102], ipv4_str w] = Inr (compressed [] [0xFFFF, ?hi, ?lo])"
    using ipv4_of_text_str [of w] assms f by (simp add: expand_v4_tail_def compressed_def)
  moreover have "ipv6_parts (compressed [] [0xFFFF, ?hi, ?lo]) = Inr (0xFFFF * 2 ^ 32 + w)"
    using ipv6_parts_compressed [of "[]" "[0xFFFF, ?hi, ?lo]"] assms by (simp add: algebra_simps)
  ultimately show ?thesis by (simp add: ipv6_of_text_def)
qed

lemma ipv6_str_reads:
  assumes "v < 65536 ^ 8"
  shows "ipv6_of_text (ipv6_str v) = Inr v" "c \<in> set (ipv6_str v) \<Longrightarrow> c = 58 \<or> c = 46 \<or> hex_val c \<noteq> None"
    "58 \<in> set (ipv6_str v)"
proof -
  show "ipv6_of_text (ipv6_str v) = Inr v"
  proof (cases "v div 2 ^ 32 = 0xFFFF")
    case True
    then have "0xFFFF * 2 ^ 32 + v mod 2 ^ 32 = v" by (metis div_mult_mod_eq)
    with True mapped_reads [of "v mod 2 ^ 32"] show ?thesis by (simp add: ipv6_str_def ffff_str)
  next
    case False
    with int_str_reads(1) [OF assms] show ?thesis by (simp add: ipv6_str_def)
  qed
  show "c \<in> set (ipv6_str v) \<Longrightarrow> c = 58 \<or> c = 46 \<or> hex_val c \<noteq> None"
    using int_str_reads(2) [OF assms, of c] ipv4_str_chars [of c "v mod 2 ^ 32"]
    by (auto simp: ipv6_str_def ffff_str hex_val_def is_digit_def split: if_splits)
  show "58 \<in> set (ipv6_str v)" using int_str_reads(3) [OF assms] by (simp add: ipv6_str_def)
qed

lemma split_on_covers: "c \<in> set s \<Longrightarrow> c \<noteq> d \<Longrightarrow> \<exists>p \<in> set (split_on d s). c \<in> set p"
  by (induction s) (auto split: list.splits)

lemma parse_octets_digits: "parse_octets ps acc = Inr v \<Longrightarrow> p \<in> set ps \<Longrightarrow> list_all is_digit p"
  by (induction ps arbitrary: acc) (auto simp: rbind_def parse_octet_def split: sum.splits if_splits)

lemma ipv4_rejects_colon:
  assumes "58 \<in> set s"
  shows "\<exists>e. ipv4_of_text s = Inl e"
proof (cases "ipv4_of_text s")
  case (Inr v)
  then have v: "parse_octets (split_on 46 s) 0 = Inr v" by (simp add: ipv4_of_text_def Let_def split: if_splits)
  obtain p where p: "p \<in> set (split_on 46 s)" "58 \<in> set p" using split_on_covers [OF assms, of 46] by auto
  from parse_octets_digits [OF v p(1)] p(2) show ?thesis by (auto simp: list_all_iff is_digit_def)
qed simp

definition scope_ok :: "ip_address \<Rightarrow> bool" where
  "scope_ok a \<longleftrightarrow> (case a of IPv6Address _ (Some sc) \<Rightarrow> sc \<noteq> [] \<and> 37 \<notin> set sc \<and> 47 \<notin> set sc | _ \<Rightarrow> True)"

lemma partition_at_append: "c \<notin> set xs \<Longrightarrow> partition_at c (xs @ c # ys) = (xs, Some ys)"
  by (induction xs) auto

lemma unat128_hextets: "unat (w :: 128 word) < 65536 ^ 8"
  using unsigned_less [where 'b = 128, of w] by simp

lemma ip_text_reads:
  assumes "scope_ok a"
  shows "ip_address_of_text (ip_str a) = Inr a"
proof (cases a rule: ip_str.cases)
  case (1 w)
  have "47 \<notin> set (ipv4_str (unat w))" using ipv4_str_chars [of 47] by (auto simp: is_digit_def)
  with 1 ipv4_of_text_str [OF unat32_bound [of w]] show ?thesis
    by (simp add: ip_address_of_text_def ipv4_address_of_text_def)
next
  case (2 w)
  let ?s = "ipv6_str (unat w)"
  note R = ipv6_str_reads [OF unat128_hextets [of w]]
  have "47 \<notin> set ?s" "37 \<notin> set ?s" using R(2) [of 47] R(2) [of 37] by auto
  moreover obtain e where "ipv4_of_text ?s = Inl e" using ipv4_rejects_colon [OF R(3)] by blast
  ultimately show ?thesis using 2 R(1)
    by (simp add: ip_address_of_text_def ipv4_address_of_text_def ipv6_address_of_text_def partition_at_none)
next
  case (3 w sc)
  let ?s = "ipv6_str (unat w)"
  note R = ipv6_str_reads [OF unat128_hextets [of w]]
  have "47 \<notin> set ?s" "37 \<notin> set ?s" using R(2) [of 47] R(2) [of 37] by auto
  moreover obtain e where "ipv4_of_text (?s @ 37 # sc) = Inl e"
    using ipv4_rejects_colon [of "?s @ 37 # sc"] R(3) by auto
  ultimately show ?thesis using 3 R(1) assms
    by (simp add: scope_ok_def ip_address_of_text_def ipv4_address_of_text_def ipv6_address_of_text_def partition_at_append)
qed

text \<open>
  C30: A host given as an address object is normalised to a text that denotes the same address: parsing the text
  \<open>normalize_hosts\<close> returns for it gives the address back, IPv4, IPv6 in every compressed form, IPv4-mapped, with a
  scope or without; host names pass unchanged and the order of a sequence is kept.
\<close>
theorem normalized_hosts_denote:
  assumes "\<forall>a. HostAddress a \<in> set hs \<longrightarrow> scope_ok a"
  shows "\<exists>ts. normalize_hosts (HostList hs) = Some ts \<and> length ts = length hs \<and>
    (\<forall>i < length hs. (\<forall>a. hs ! i = HostAddress a \<longrightarrow> ip_address_of_text (ts ! i) = Inr a) \<and>
       (\<forall>n. hs ! i = HostName n \<longrightarrow> ts ! i = n) \<and> normalize_hosts (OneHost (hs ! i)) = Some [ts ! i])"
proof (intro exI [of _ "map host_str hs"] conjI allI impI)
  fix i a assume "i < length hs" "hs ! i = HostAddress a"
  with assms nth_mem [of i hs] have "scope_ok a" by auto
  with \<open>i < length hs\<close> \<open>hs ! i = HostAddress a\<close> show "ip_address_of_text (map host_str hs ! i) = Inr a"
    by (simp add: ip_text_reads)
qed simp_all

theorem normalized_hosts_denote_witness:
  "normalize_hosts (HostList [HostName [97], HostAddress (IPv6Address 1 None)]) = Some [[97], [58, 58, 49]] \<and>
   ip_address_of_text [58, 58, 49] = Inr (IPv6Address 1 None)"
proof -
  let ?hs = "[HostName [97], HostAddress (IPv6Address 1 None)]"
  have "\<forall>a. HostAddress a \<in> set ?hs \<longrightarrow> scope_ok a" by (simp add: scope_ok_def)
  from normalized_hosts_denote [OF this] have "ip_address_of_text (host_str (?hs ! 1)) = Inr (IPv6Address 1 None)" by auto
  moreover have "host_str (?hs ! 1) = [58, 58, 49]" by (simp add: ipv6_str_def print_eval)
  ultimately show ?thesis by simp
qed

end
