(* ===== verification/ProxyProtocol.thy ===== *)
theory ProxyProtocol
  imports AddressText
begin

unbundle bit_operations_syntax

text \<open>
  The PROXY protocol header parser and its reader: \<^verbatim>\<open>snitun/server/proxy_protocol.py\<close>. The locale
  \<open>incremental_parser\<close> states what the reading loops rely on (an answer given on a prefix of the
  stream is the answer on the stream); it is interpreted on the parser.
\<close>

section \<open>The parser\<close>

definition MAX_HEADER_SIZE :: nat where "MAX_HEADER_SIZE = 1500"
definition V1_PREFIX :: bytes where "V1_PREFIX = lit ''PROXY ''"
definition V1_MAX_LEN :: nat where "V1_MAX_LEN = 108"
definition V1_CRLF :: bytes where "V1_CRLF = [13, 10]"
definition V2_SIGNATURE :: bytes where "V2_SIGNATURE = [13, 10, 13, 10, 0, 13, 10] @ lit ''QUIT'' @ [10]"
definition V2_HEADER_LEN :: nat where "V2_HEADER_LEN = 16"
definition V2_VERSION :: byte where "V2_VERSION = 0x20"
definition V2_CMD_LOCAL :: byte where "V2_CMD_LOCAL = 0x00"
definition V2_CMD_PROXY :: byte where "V2_CMD_PROXY = 0x01"
definition V2_FAMILY_INET :: byte where "V2_FAMILY_INET = 0x10"
definition V2_FAMILY_INET6 :: byte where "V2_FAMILY_INET6 = 0x20"
definition V2_INET_ADDR_LEN :: nat where "V2_INET_ADDR_LEN = 12"
definition V2_INET6_ADDR_LEN :: nat where "V2_INET6_ADDR_LEN = 36"

lemmas proxy_consts = V1_MAX_LEN_def V1_CRLF_def V2_HEADER_LEN_def V2_VERSION_def V2_CMD_LOCAL_def
  V2_CMD_PROXY_def V2_FAMILY_INET_def V2_FAMILY_INET6_def V2_INET_ADDR_LEN_def V2_INET6_ADDR_LEN_def

record proxy_header =
  source :: "ip_address option"
  hsize :: nat

definition parse_v1 :: "bytes \<Rightarrow> proxy_header res" where
  "parse_v1 data =
     (case find_sub V1_CRLF data of
        None \<Rightarrow> (if V1_MAX_LEN \<le> length data then Inl ParseProxyProtocolError
                 else Inl ParseProxyProtocolIncompleteError)
      | Some end_ \<Rightarrow>
          (if V1_MAX_LEN < end_ + length V1_CRLF then Inl ParseProxyProtocolError
           else
             let n = end_ + length V1_CRLF;
                 fields = split_on 0x20 (take end_ data);
                 protocol = (if 1 < length fields then fields ! 1 else [])
             in if protocol = lit ''UNKNOWN'' then Inr \<lparr>source = None, hsize = n\<rparr>
                else if protocol \<noteq> lit ''TCP4'' \<and> protocol \<noteq> lit ''TCP6'' then Inl ParseProxyProtocolError
                else if length fields \<noteq> 6 then Inl ParseProxyProtocolError
                else (case rbind (decode_ascii (fields ! 2)) ip_address_of_text of
                        Inl _ \<Rightarrow> Inl ParseProxyProtocolError
                      | Inr src \<Rightarrow>
                          (if (protocol = lit ''TCP4'') \<noteq> (\<not> is_v6 src) then Inl ParseProxyProtocolError
                           else Inr \<lparr>source = Some src, hsize = n\<rparr>))))"

text \<open>
  In \<open>parse_v2\<close> the two length bytes are combined with \<^verbatim>\<open>|\<close> in the source; their bits are disjoint, so
  the value is the sum.
\<close>

definition parse_v2 :: "bytes \<Rightarrow> proxy_header res" where
  "parse_v2 data =
     (if length data < V2_HEADER_LEN then Inl ParseProxyProtocolIncompleteError
      else
        let version_command = data ! 12 in
        if version_command AND 0xF0 \<noteq> V2_VERSION then Inl ParseProxyProtocolError
        else
          let family_protocol = data ! 13;
              address_len = unat (data ! 14) * 256 + unat (data ! 15);
              n = V2_HEADER_LEN + address_len
          in if length data < n then Inl ParseProxyProtocolIncompleteError
             else
               let command = version_command AND 0x0F in
               if command = V2_CMD_LOCAL then Inr \<lparr>source = None, hsize = n\<rparr>
               else if command \<noteq> V2_CMD_PROXY then Inl ParseProxyProtocolError
               else
                 let family = family_protocol AND 0xF0; block = slice V2_HEADER_LEN n data in
                 if family = V2_FAMILY_INET then
                   (if address_len < V2_INET_ADDR_LEN then Inl ParseProxyProtocolError
                    else Inr \<lparr>source = Some (IPv4Address (word_of_nat (from_bytes_be (take 4 block)))),
                               hsize = n\<rparr>)
                 else if family = V2_FAMILY_INET6 then
                   (if address_len < V2_INET6_ADDR_LEN then Inl ParseProxyProtocolError
                    else Inr \<lparr>source = Some (IPv6Address (word_of_nat (from_bytes_be (take 16 block))) None),
                               hsize = n\<rparr>)
                 else Inr \<lparr>source = None, hsize = n\<rparr>)"

definition parse_proxy_protocol_header :: "bytes \<Rightarrow> proxy_header option res" where
  "parse_proxy_protocol_header data =
     (if startswith data V2_SIGNATURE then rbind (parse_v2 data) (\<lambda>h. Inr (Some h))
      else if startswith data V1_PREFIX then rbind (parse_v1 data) (\<lambda>h. Inr (Some h))
      else if startswith V2_SIGNATURE data \<or> startswith V1_PREFIX data
        then Inl ParseProxyProtocolIncompleteError
      else Inr None)"

section \<open>The reader\<close>

function (sequential) read_proxy_loop ::
    "reader \<Rightarrow> bytes \<Rightarrow> (proxy_header option \<times> bytes) res \<times> reader" where
  "read_proxy_loop r buffer =
     (case parse_proxy_protocol_header buffer of
        Inr None \<Rightarrow> (Inr (None, buffer), r)
      | Inr (Some h) \<Rightarrow> (Inr (Some h, drop (hsize h) buffer), r)
      | Inl e \<Rightarrow>
          (if e \<noteq> ParseProxyProtocolIncompleteError then (Inl e, r)
           else if MAX_HEADER_SIZE \<le> length buffer then (Inl ParseProxyProtocolError, r)
           else (case read (MAX_HEADER_SIZE - length buffer) r of
                   (Inl e, r') \<Rightarrow> (Inl e, r')
                 | (Inr chunk, r') \<Rightarrow>
                     (if chunk = [] then (Inl ParseProxyProtocolError, r')
                      else read_proxy_loop r' (buffer @ chunk)))))"
  by pat_completeness auto
termination
  by (relation "measure (\<lambda>(r, buffer). length (pending r))") (auto, metis read_shrinks)

declare read_proxy_loop.simps [simp del]

definition read_proxy_protocol_header ::
    "reader \<Rightarrow> (proxy_header option \<times> bytes) res \<times> reader" where
  "read_proxy_protocol_header r = read_proxy_loop r []"

section \<open>Incremental parsing\<close>

text \<open>
  The contract between a parser that may ask for more data and a loop that feeds it: once it does not
  ask for more, further data does not change the answer.
\<close>

locale incremental_parser =
  fixes parse :: "bytes \<Rightarrow> 'a res" and incomplete :: exn
  assumes stable: "parse d \<noteq> Inl incomplete \<Longrightarrow> parse (d @ e) = parse d"
begin

lemma decided_prefix: "whole = d @ rest \<Longrightarrow> parse d \<noteq> Inl incomplete \<Longrightarrow> parse whole = parse d"
  using stable by simp

text \<open>Two readers that stop at different points of one stream agree.\<close>

lemma decided_unique:
  assumes "d1 @ r1 = d2 @ r2" and "parse d1 \<noteq> Inl incomplete" and "parse d2 \<noteq> Inl incomplete"
  shows "parse d1 = parse d2"
  using stable [OF assms(2), of r1] stable [OF assms(3), of r2] assms(1) by simp

lemma undecided_prefix: "parse (d @ e) = Inl incomplete \<Longrightarrow> parse d = Inl incomplete"
  using stable by metis

text \<open>A decided prefix of the stream is reached before the stream is longer than it.\<close>

lemma decided_take:
  assumes "parse (take n whole) \<noteq> Inl incomplete" and "whole = d @ rest" and "parse d = Inl incomplete"
  shows "length d < n \<and> length d < length whole"
proof (rule ccontr)
  assume "\<not> ?thesis"
  then have "take n whole = take n d" using assms(2) by auto
  with assms(1) have "parse (take n d) \<noteq> Inl incomplete" by simp
  then have "parse (take n d @ drop n d) \<noteq> Inl incomplete" using stable by metis
  with assms(3) show False by simp
qed

end

text \<open>The two signatures differ from the first byte on, so a mismatch is final.\<close>

lemma startswith_decided:
  "\<not> startswith p d \<Longrightarrow> \<not> startswith d p \<Longrightarrow> \<not> startswith (d @ e) p \<and> \<not> startswith p (d @ e)"
  by (auto simp: startswith_iff append_eq_append_conv2)

lemma parse_v1_extend:
  assumes "parse_v1 d \<noteq> Inl ParseProxyProtocolIncompleteError"
  shows "parse_v1 (d @ e) = parse_v1 d"
proof (cases "find_sub V1_CRLF d")
  case (Some i)
  then have "i \<le> length d" using find_sub_bound by fastforce
  then have t: "take i (d @ e) = take i d" by simp
  show ?thesis unfolding parse_v1_def find_sub_extend [OF Some] Some by (simp only: option.case t)
next
  case None
  with assms have long: "108 \<le> length d" by (simp add: parse_v1_def proxy_consts split: if_splits)
  have "107 \<le> j" if j: "find_sub V1_CRLF (d @ e) = Some j" for j
  proof (rule ccontr)
    assume "\<not> 107 \<le> j"
    with long have le: "j + 2 \<le> length d" by simp
    from find_sub_Some [OF j] have "startswith (drop j (d @ e)) V1_CRLF" .
    with le have "startswith (drop j d) V1_CRLF" by (simp add: startswith_append_long V1_CRLF_def)
    with None show False using find_sub_None by metis
  qed
  then show ?thesis using long None
    by (force simp: parse_v1_def proxy_consts split: option.split)
qed

lemma parse_v2_extend:
  assumes "parse_v2 d \<noteq> Inl ParseProxyProtocolIncompleteError"
  shows "parse_v2 (d @ e) = parse_v2 d"
proof -
  from assms have l: "16 \<le> length d"
    by (rule contrapos_np) (simp add: parse_v2_def V2_HEADER_LEN_def)
  then have n: "(d @ e) ! 12 = d ! 12" "(d @ e) ! 13 = d ! 13" "(d @ e) ! 14 = d ! 14" "(d @ e) ! 15 = d ! 15"
    by (simp_all add: nth_append)
  let ?a = "unat (d ! 14) * 256 + unat (d ! 15)"
  show ?thesis
  proof (cases "length d < 16 + ?a")
    case True
    with assms l have "d ! 12 AND 0xF0 \<noteq> V2_VERSION"
      by (auto simp: parse_v2_def V2_HEADER_LEN_def Let_def split: if_splits)
    with l n show ?thesis by (simp add: parse_v2_def V2_HEADER_LEN_def)
  next
    case False
    then have "slice 16 (16 + ?a) (d @ e) = slice 16 (16 + ?a) d"
      by (auto simp: slice_def)
    with False l n show ?thesis by (simp add: parse_v2_def V2_HEADER_LEN_def Let_def add.assoc)
  qed
qed

lemma parse_proxy_stable:
  assumes "parse_proxy_protocol_header d \<noteq> Inl ParseProxyProtocolIncompleteError"
  shows "parse_proxy_protocol_header (d @ e) = parse_proxy_protocol_header d"
proof -
  consider (v2) "startswith d V2_SIGNATURE" | (v1) "\<not> startswith d V2_SIGNATURE" "startswith d V1_PREFIX"
    | (neither) "\<not> startswith d V2_SIGNATURE" "\<not> startswith d V1_PREFIX" by blast
  then show ?thesis
  proof cases
    case v2
    with assms have "parse_v2 d \<noteq> Inl ParseProxyProtocolIncompleteError"
      by (auto simp: parse_proxy_protocol_header_def)
    with v2 show ?thesis
      by (simp add: parse_proxy_protocol_header_def startswith_extend parse_v2_extend)
  next
    case v1
    with assms have "parse_v1 d \<noteq> Inl ParseProxyProtocolIncompleteError"
      by (auto simp: parse_proxy_protocol_header_def)
    moreover from v1(2) have "\<not> startswith (d @ e) V2_SIGNATURE"
      by (auto simp: startswith_iff V1_PREFIX_def V2_SIGNATURE_def lit_def)
    ultimately show ?thesis using v1
      by (simp add: parse_proxy_protocol_header_def startswith_extend parse_v1_extend)
  next
    case neither
    with assms have "\<not> startswith V2_SIGNATURE d" "\<not> startswith V1_PREFIX d"
      by (auto simp: parse_proxy_protocol_header_def split: if_splits)
    with neither startswith_decided [of V2_SIGNATURE d e] startswith_decided [of V1_PREFIX d e]
    show ?thesis by (simp add: parse_proxy_protocol_header_def)
  qed
qed

interpretation pp: incremental_parser parse_proxy_protocol_header ParseProxyProtocolIncompleteError
  by unfold_locales (rule parse_proxy_stable)

text \<open>The parser raises the two PROXY errors only, and asks for more only while a header is short.\<close>

lemma parse_proxy_raises:
  "parse_proxy_protocol_header d = Inl e \<Longrightarrow>
   e = ParseProxyProtocolError \<or> e = ParseProxyProtocolIncompleteError"
  by (auto simp: parse_proxy_protocol_header_def parse_v1_def parse_v2_def Let_def rbind_eq_Inl
      split: if_splits option.splits sum.splits)

lemma parse_proxy_incomplete_length:
  assumes "parse_proxy_protocol_header d = Inl ParseProxyProtocolIncompleteError"
  shows "length d < 65551"
proof -
  have "parse_v2 d = Inl ParseProxyProtocolIncompleteError \<Longrightarrow> length d < 65551"
    using byte_bound [of "d ! 14"] byte_bound [of "d ! 15"]
    by (auto simp: parse_v2_def proxy_consts Let_def split: if_splits)
  moreover have "parse_v1 d = Inl ParseProxyProtocolIncompleteError \<Longrightarrow> length d < 65551"
    by (auto simp: parse_v1_def proxy_consts Let_def split: if_splits option.splits sum.splits)
  moreover have "startswith p d \<Longrightarrow> length d \<le> length p" for p :: bytes
    by (rule startswith_length)
  from this [of V2_SIGNATURE] this [of V1_PREFIX]
  have "startswith V2_SIGNATURE d \<or> startswith V1_PREFIX d \<Longrightarrow> length d < 65551"
    by (auto simp: V2_SIGNATURE_def V1_PREFIX_def)
  ultimately show ?thesis using assms
    by (auto simp: parse_proxy_protocol_header_def rbind_eq_Inl split: if_splits)
qed

lemma parse_v1_size: "parse_v1 d = Inr h \<Longrightarrow> hsize h \<le> length d \<and> 0 < hsize h"
  using find_sub_bound [of V1_CRLF d]
  by (auto simp: parse_v1_def V1_CRLF_def Let_def split: if_splits option.splits sum.splits)

lemma parse_v2_size: "parse_v2 d = Inr h \<Longrightarrow> hsize h \<le> length d \<and> 0 < hsize h"
  by (auto simp: parse_v2_def proxy_consts Let_def split: if_splits)

lemma parse_proxy_size:
  "parse_proxy_protocol_header d = Inr (Some h) \<Longrightarrow> hsize h \<le> length d \<and> 0 < hsize h"
  by (auto simp: parse_proxy_protocol_header_def rbind_eq_Inr split: if_splits
      dest: parse_v1_size parse_v2_size)

section \<open>The reading loop\<close>

text \<open>What a parsed header leaves of the stream.\<close>

definition strip_header :: "proxy_header option \<Rightarrow> bytes \<Rightarrow> bytes" where
  "strip_header h d = (case h of None \<Rightarrow> d | Some x \<Rightarrow> drop (hsize x) d)"

lemma strip_header_append:
  "parse_proxy_protocol_header d = Inr h \<Longrightarrow> strip_header h (d @ e) = strip_header h d @ e"
  by (cases h) (auto simp: strip_header_def dest: parse_proxy_size)

lemma read_proxy_loop_decided:
  "parse_proxy_protocol_header b = Inr h \<Longrightarrow> read_proxy_loop r b = (Inr (h, strip_header h b), r)"
  by (cases h) (simp_all add: read_proxy_loop.simps [of r b] strip_header_def)

text \<open>
  If the first 1500 bytes of the stream decide the header, the loop reaches a buffer on which the
  parser answers, without losing a byte.
\<close>

lemma read_proxy_loop_reaches:
  assumes "reader_ok r"
    and "parse_proxy_protocol_header (take MAX_HEADER_SIZE (b @ pending r))
           \<noteq> Inl ParseProxyProtocolIncompleteError"
  shows "\<exists>b' r'. read_proxy_loop r b = read_proxy_loop r' b' \<and> b' @ pending r' = b @ pending r \<and>
           reader_ok r' \<and> parse_proxy_protocol_header b' \<noteq> Inl ParseProxyProtocolIncompleteError"
  using assms
proof (induction "length (pending r)" arbitrary: r b rule: less_induct)
  case less
  show ?case
  proof (cases "parse_proxy_protocol_header b = Inl ParseProxyProtocolIncompleteError")
    case False
    with less.prems(1) show ?thesis by blast
  next
    case True
    from pp.decided_take [OF less.prems(2) refl True]
    have lt: "length b < MAX_HEADER_SIZE" and "pending r \<noteq> []" by auto
    then have ne: "chunks r \<noteq> []" by (auto simp: pending_def)
    then obtain c r1 where c: "read (MAX_HEADER_SIZE - length b) r = (Inr c, r1)"
      by (auto simp: read_def neq_Nil_conv)
    have cn: "c \<noteq> []"
      using read_empty_chunk [of "MAX_HEADER_SIZE - length b" r r1] c less.prems(1) lt ne by auto
    have p: "(b @ c) @ pending r1 = b @ pending r" using read_pending [OF c] by simp
    have "read_proxy_loop r b = read_proxy_loop r1 (b @ c)"
      using True lt c cn by (simp add: read_proxy_loop.simps [of r b])
    with less.hyps [OF read_shrinks [OF c cn] read_ok [OF c less.prems(1)], of "b @ c", unfolded p,
        OF less.prems(2)]
    show ?thesis by simp
  qed
qed

lemma read_proxy_answer:
  assumes "reader_ok r" and "parse_proxy_protocol_header (take MAX_HEADER_SIZE (pending r)) = Inr h"
  shows "\<exists>left r'. read_proxy_protocol_header r = (Inr (h, left), r') \<and> reader_ok r' \<and>
           left @ pending r' = strip_header h (pending r)"
proof -
  have whole: "parse_proxy_protocol_header (pending r) = Inr h"
    using pp.decided_prefix [OF append_take_drop_id [symmetric, of "pending r" MAX_HEADER_SIZE]] assms(2)
    by simp
  obtain b r' where l: "read_proxy_loop r [] = read_proxy_loop r' b" and b: "b @ pending r' = pending r"
      and ok: "reader_ok r'" and dec: "parse_proxy_protocol_header b \<noteq> Inl ParseProxyProtocolIncompleteError"
    using read_proxy_loop_reaches [of r "[]"] assms by auto
  from pp.decided_prefix [OF b [symmetric] dec] whole have "parse_proxy_protocol_header b = Inr h" by simp
  with l ok b strip_header_append [of b h "pending r'"] show ?thesis
    by (simp add: read_proxy_protocol_header_def read_proxy_loop_decided)
qed

lemma read_proxy_malformed:
  assumes "reader_ok r"
    and "parse_proxy_protocol_header (take MAX_HEADER_SIZE (pending r)) = Inl ParseProxyProtocolError"
  shows "fst (read_proxy_protocol_header r) = Inl ParseProxyProtocolError"
proof -
  have whole: "parse_proxy_protocol_header (pending r) = Inl ParseProxyProtocolError"
    using pp.decided_prefix [OF append_take_drop_id [symmetric, of "pending r" MAX_HEADER_SIZE]] assms(2)
    by simp
  obtain b r' where l: "read_proxy_loop r [] = read_proxy_loop r' b" and b: "b @ pending r' = pending r"
      and dec: "parse_proxy_protocol_header b \<noteq> Inl ParseProxyProtocolIncompleteError"
    using read_proxy_loop_reaches [of r "[]"] assms by auto
  from pp.decided_prefix [OF b [symmetric] dec] whole
  have "parse_proxy_protocol_header b = Inl ParseProxyProtocolError" by simp
  with l show ?thesis by (simp add: read_proxy_protocol_header_def read_proxy_loop.simps [of r' b])
qed

section \<open>The header formats\<close>

text \<open>A v2 header with the PROXY command: family, address, then whatever else the block holds.\<close>

definition encode_v2 :: "ip_address \<Rightarrow> bytes \<Rightarrow> bytes" where
  "encode_v2 ip tail =
     V2_SIGNATURE @ [0x21, if is_v6 ip then 0x21 else 0x11]
     @ to_bytes_be 2 (length (packed ip) + length tail) @ packed ip @ tail"

definition v2_ok :: "ip_address \<Rightarrow> bytes \<Rightarrow> bool" where
  "v2_ok ip tail \<longleftrightarrow> unscoped ip \<and> length (packed ip) + length tail < 65536 \<and>
     (if is_v6 ip then 20 \<le> length tail else 8 \<le> length tail)"

lemma length_V1_CRLF: "length V1_CRLF = 2"
  by (simp add: V1_CRLF_def)

lemma length_V2_SIGNATURE [simp]: "length V2_SIGNATURE = 12"
  by (simp add: V2_SIGNATURE_def)

lemma parse_encode_v2:
  assumes "v2_ok ip tail"
  shows "parse_proxy_protocol_header (encode_v2 ip tail @ rest)
         = Inr (Some \<lparr>source = Some ip, hsize = length (encode_v2 ip tail)\<rparr>)"
proof -
  let ?d = "encode_v2 ip tail @ rest" and ?n = "length (packed ip) + length tail"
  have len: "length (encode_v2 ip tail) = 16 + ?n" by (simp add: encode_v2_def)
  have n: "?n < 65536" using assms by (simp add: v2_ok_def)
  have bytes: "?d ! 12 = 0x21" "?d ! 13 = (if is_v6 ip then 0x21 else 0x11)"
      "?d ! 14 = word_of_nat (?n div 256)" "?d ! 15 = word_of_nat ?n"
    by (simp_all add: encode_v2_def nth_append numeral_2_eq_2)
  have al: "unat (?d ! 14) * 256 + unat (?d ! 15) = ?n"
    using n unfolding bytes by (simp only: unat_byte_of_nat) simp
  have block: "slice 16 (16 + ?n) ?d = packed ip @ tail"
    by (simp add: encode_v2_def slice_def)
  have "parse_v2 ?d = Inr \<lparr>source = Some ip, hsize = 16 + ?n\<rparr>"
  proof (cases ip)
    case (IPv4Address w)
    with assms al block bytes len from_packed [of ip] show ?thesis
      by (simp add: parse_v2_def proxy_consts v2_ok_def Let_def)
  next
    case (IPv6Address w sc)
    with assms al block bytes len from_packed [of ip] show ?thesis
      by (simp add: parse_v2_def proxy_consts v2_ok_def unscoped_def Let_def)
  qed
  moreover have "startswith ?d V2_SIGNATURE" by (simp add: encode_v2_def)
  ultimately show ?thesis by (simp add: parse_proxy_protocol_header_def len)
qed

text \<open>The v1 line: five fields after \<^verbatim>\<open>PROXY\<close>, separated by single spaces, closed by CRLF.\<close>

definition v1_line :: "bytes \<Rightarrow> bytes \<Rightarrow> bytes \<Rightarrow> bytes \<Rightarrow> bytes \<Rightarrow> bytes" where
  "v1_line proto src dst sport dport =
     lit ''PROXY'' @ [0x20] @ proto @ [0x20] @ src @ [0x20] @ dst @ [0x20] @ sport @ [0x20] @ dport"

definition v1_field :: "bytes \<Rightarrow> bool" where
  "v1_field f \<longleftrightarrow> 0x20 \<notin> set f \<and> 13 \<notin> set f"

lemma split_v1_line:
  assumes "v1_field proto" "v1_field src" "v1_field dst" "v1_field sport" "v1_field dport"
  shows "split_on 0x20 (v1_line proto src dst sport dport) = [lit ''PROXY'', proto, src, dst, sport, dport]"
proof -
  have "(0x20 :: byte) \<notin> set (lit ''PROXY'')" by (simp add: lit_def)
  with assms show ?thesis
    by (simp add: v1_line_def v1_field_def split_on_append split_on_single del: One_nat_def)
qed

lemma parse_v1_line:
  assumes f: "v1_field src" "v1_field dst" "v1_field sport" "v1_field dport"
    and tcp: "proto = lit (if is_v6 ip then ''TCP6'' else ''TCP4'')"
    and addr: "rbind (decode_ascii src) ip_address_of_text = Inr ip"
    and len: "length (v1_line proto src dst sport dport) + 2 \<le> 108"
  shows "parse_proxy_protocol_header (v1_line proto src dst sport dport @ V1_CRLF @ rest)
         = Inr (Some \<lparr>source = Some ip, hsize = length (v1_line proto src dst sport dport) + 2\<rparr>)"
proof -
  let ?l = "v1_line proto src dst sport dport"
  have pf: "v1_field proto" and tcp4: "proto = lit ''TCP4'' \<longleftrightarrow> \<not> is_v6 ip"
    and known: "proto \<noteq> lit ''UNKNOWN''" "proto = lit ''TCP4'' \<or> proto = lit ''TCP6''"
    by (simp_all add: tcp v1_field_def lit_def)
  have "13 \<notin> set (lit ''PROXY'' :: bytes)" by (simp add: lit_def)
  then have "13 \<notin> set ?l" using f pf by (simp add: v1_line_def v1_field_def)
  then have found: "find_sub V1_CRLF (?l @ V1_CRLF @ rest) = Some (length ?l)"
    using find_sub_first [of 13 ?l "[10]" rest] by (simp add: V1_CRLF_def)
  have "parse_v1 (?l @ V1_CRLF @ rest) = Inr \<lparr>source = Some ip, hsize = length ?l + 2\<rparr>"
    using found split_v1_line [OF pf f] known addr len tcp4
    by (simp add: parse_v1_def proxy_consts Let_def)
  moreover have "startswith (?l @ V1_CRLF @ rest) V1_PREFIX"
    by (simp add: v1_line_def V1_PREFIX_def startswith_def lit_def)
  moreover have "\<not> startswith (?l @ V1_CRLF @ rest) V2_SIGNATURE"
    by (simp add: v1_line_def V2_SIGNATURE_def startswith_def lit_def)
  ultimately show ?thesis by (simp add: parse_proxy_protocol_header_def)
qed

lemma take_header: "length h \<le> n \<Longrightarrow> take n (h @ rest) = h @ take (n - length h) rest"
  by simp

text \<open>The loop never leaks \<open>ParseProxyProtocolIncompleteError\<close> and holds at most 1500 bytes.\<close>

lemma read_proxy_loop_bounds:
  "length b \<le> MAX_HEADER_SIZE \<Longrightarrow> read_proxy_loop r b = (x, r') \<Longrightarrow>
   length (b @ pending r) \<le> MAX_HEADER_SIZE + length (pending r') \<and>
   (case x of Inl e \<Rightarrow> e = ParseProxyProtocolError \<or> e = OSError \<or> e = TimeoutError
    | Inr (h, left) \<Rightarrow> length left \<le> MAX_HEADER_SIZE)"
proof (induction r b rule: read_proxy_loop.induct)
  case (1 r b)
  show ?case
  proof (cases "parse_proxy_protocol_header b = Inl ParseProxyProtocolIncompleteError \<and> length b < MAX_HEADER_SIZE")
    case False
    with "1.prems" show ?thesis
      by (auto simp: read_proxy_loop.simps [of r b] split: sum.splits option.splits if_splits
          dest: parse_proxy_raises)
  next
    case True
    obtain y r1 where y: "read (MAX_HEADER_SIZE - length b) r = (y, r1)" by fastforce
    show ?thesis
    proof (cases y)
      case (Inl e)
      with y True "1.prems" read_error_end [of _ r e r1] show ?thesis
        by (auto simp: read_proxy_loop.simps [of r b] pending_def)
    next
      case (Inr c)
      note c = y [unfolded Inr]
      have l: "length (b @ c) \<le> MAX_HEADER_SIZE" using read_length [OF c] True by auto
      have p: "length (b @ pending r) = length ((b @ c) @ pending r1)" using read_pending [OF c] by simp
      show ?thesis
      proof (cases "c = []")
        case True': True
        with c True "1.prems" read_pending [OF c] show ?thesis
          by (auto simp: read_proxy_loop.simps [of r b])
      next
        case False
        with c True "1.prems" have "read_proxy_loop r1 (b @ c) = (x, r')"
          by (simp add: read_proxy_loop.simps [of r b])
        from "1.IH" [OF _ _ _ c [symmetric] refl False l this] True p show ?thesis by auto
      qed
    qed
  qed
qed

section \<open>Properties\<close>

text \<open>
  C26: A trusted v2 header carries the source address. When the stream starts with a v2 PROXY header
  for an IPv4 or IPv6 address (at most 1500 bytes long), \<open>read_proxy_protocol_header\<close> returns that
  address however the stream is chunked, and what it has read beyond the header followed by what is
  still in the stream is exactly the payload.
\<close>

theorem read_proxy_v2:
  assumes "reader_ok r" and "v2_ok ip tail" and "length (encode_v2 ip tail) \<le> MAX_HEADER_SIZE"
    and "pending r = encode_v2 ip tail @ payload"
  shows "\<exists>h left r'. read_proxy_protocol_header r = (Inr (Some h, left), r') \<and>
           source h = Some ip \<and> left @ pending r' = payload"
  using read_proxy_answer [OF assms(1), unfolded assms(4) take_header [OF assms(3)]]
    parse_encode_v2 [OF assms(2)] by (fastforce simp: strip_header_def)

theorem read_proxy_v2_witness:
  "\<exists>h left r'. read_proxy_protocol_header
       \<lparr>chunks = [V2_SIGNATURE, [0x21, 0x11, 0, 12, 192, 0], [2, 1, 0, 0, 0, 0, 1, 2, 3, 4, 22]], ending = Stall\<rparr>
       = (Inr (Some h, left), r') \<and> source h = Some (IPv4Address 3221225985) \<and> left @ pending r' = [22]"
proof -
  have e: "encode_v2 (IPv4Address 3221225985) [0, 0, 0, 0, 1, 2, 3, 4]
           = V2_SIGNATURE @ [0x21, 0x11, 0, 12, 192, 0, 2, 1, 0, 0, 0, 0, 1, 2, 3, 4]"
    by (simp add: encode_v2_def to_bytes_be_2 to_bytes_be_4)
  show ?thesis
  proof (rule read_proxy_v2)
    show "v2_ok (IPv4Address 3221225985) [0, 0, 0, 0, 1, 2, 3, 4]"
      by (simp add: v2_ok_def unscoped_def)
  qed (simp_all add: e reader_ok_def pending_def V2_SIGNATURE_def MAX_HEADER_SIZE_def)
qed

text \<open>The text of an address without scope has no space and no end of line, and is ASCII.\<close>

lemma ip_str_chars: "unscoped a \<Longrightarrow> c \<in> set (ip_str a) \<Longrightarrow> 37 < c \<and> c < 128"
  using ipv4_str_chars [of c] ipv6_str_reads(2) [OF unat128_hextets, of c]
  by (cases a rule: ip_str.cases) (fastforce simp: unscoped_def is_digit_def hex_val_def split: if_splits)+

lemma ip_str_field: "unscoped a \<Longrightarrow> v1_field (encode_ascii (ip_str a))"
  using ip_str_chars [of a] unat_byte_of_nat
  by (fastforce simp: v1_field_def encode_ascii_def dest!: arg_cong [where f = unat])

lemma ip_str_decodes: "unscoped a \<Longrightarrow> rbind (decode_ascii (encode_ascii (ip_str a))) ip_address_of_text = Inr a"
  using ip_str_chars [of a] ip_text_reads [of a]
  by (cases a) (auto simp: decode_encode_ascii scope_ok_def unscoped_def)

text \<open>
  C27: A v1 line carries the source address: with an IPv4 or IPv6 address in its text form, fields free of spaces and carriage
  returns, and at most 108 bytes including the CRLF, arriving in whatever pieces, the address is recovered and exactly the
  line is stripped.
\<close>
theorem read_proxy_v1:
  assumes "reader_ok r" and "unscoped a" and "v1_field dst" and "v1_field sport" and "v1_field dport"
    and "l = v1_line (lit (if is_v6 a then ''TCP6'' else ''TCP4'')) (encode_ascii (ip_str a)) dst sport dport"
    and "length l + 2 \<le> 108" and "pending r = l @ V1_CRLF @ payload"
  shows "\<exists>h left r'. read_proxy_protocol_header r = (Inr (Some h, left), r') \<and>
           source h = Some a \<and> left @ pending r' = payload"
proof -
  note parsed = parse_v1_line [OF ip_str_field [OF assms(2)] assms(3-5) refl ip_str_decodes [OF assms(2)], folded assms(6)]
  have t: "take MAX_HEADER_SIZE (pending r) = l @ V1_CRLF @ take (1500 - (length l + 2)) payload"
    using assms(7,8) take_header [of "l @ V1_CRLF" 1500 payload]
    by (simp add: MAX_HEADER_SIZE_def length_V1_CRLF)
  show ?thesis
    using read_proxy_answer [OF assms(1), unfolded t] parsed assms(7,8)
    by (fastforce simp: strip_header_def V1_CRLF_def)
qed

theorem read_proxy_v1_witness:
  "\<exists>h left r'. read_proxy_protocol_header
       \<lparr>chunks = [v1_line (lit ''TCP6'') (lit ''::1'') (lit ''::2'') (lit ''5'') (lit ''443'') @ [13], [10, 22]], ending = Eof\<rparr>
       = (Inr (Some h, left), r') \<and> source h = Some (IPv6Address 1 None) \<and> left @ pending r' = [22]"
proof (rule read_proxy_v1)
  have str: "encode_ascii (ip_str (IPv6Address 1 None)) = lit ''::1''"
    by (simp add: ipv6_str_def print_eval encode_ascii_def lit_def)
  show "v1_line (lit ''TCP6'') (lit ''::1'') (lit ''::2'') (lit ''5'') (lit ''443'') =
      v1_line (lit (if is_v6 (IPv6Address 1 None) then ''TCP6'' else ''TCP4'')) (encode_ascii (ip_str (IPv6Address 1 None)))
        (lit ''::2'') (lit ''5'') (lit ''443'')"
    unfolding str by simp
  show "v1_field (lit ''::2'')" "v1_field (lit ''5'')" "v1_field (lit ''443'')"
    by (simp_all add: v1_field_def lit_def)
qed (simp_all add: reader_ok_def pending_def V1_CRLF_def v1_line_def unscoped_def)

text \<open>
  The v1 limit is 108 bytes including the CRLF: a line of 107 or more bytes before its CRLF is
  refused, whatever it says.
\<close>

theorem v1_line_too_long:
  assumes "startswith l V1_PREFIX" and "13 \<notin> set l" and "107 \<le> length l"
  shows "parse_proxy_protocol_header (l @ V1_CRLF @ rest) = Inl ParseProxyProtocolError"
proof -
  have "find_sub V1_CRLF (l @ V1_CRLF @ rest) = Some (length l)"
    using find_sub_first [of 13 l "[10]" rest] assms(2) by (simp add: V1_CRLF_def)
  moreover have "\<not> startswith (l @ V1_CRLF @ rest) V2_SIGNATURE"
    using assms(1) by (auto simp: startswith_iff V1_PREFIX_def V2_SIGNATURE_def lit_def)
  ultimately show ?thesis using assms startswith_extend [OF assms(1)]
    by (simp add: parse_proxy_protocol_header_def parse_v1_def proxy_consts)
qed

theorem v1_line_too_long_witness:
  "parse_proxy_protocol_header ((V1_PREFIX @ replicate 101 65) @ V1_CRLF @ [22]) = Inl ParseProxyProtocolError"
proof (rule v1_line_too_long)
  show "startswith (V1_PREFIX @ replicate 101 65) V1_PREFIX" by (rule startswith_append)
qed (simp_all add: V1_PREFIX_def lit_def)

text \<open>
  C28: The header parser is incremental: as soon as it answers on a prefix of the stream (a header, no
  header, or malformed), no further data changes the answer; and it never asks for more than 65550
  bytes.
\<close>

theorem proxy_parser_incremental:
  "parse_proxy_protocol_header d = Inl ParseProxyProtocolIncompleteError \<and> length d < 65551 \<or>
   parse_proxy_protocol_header (d @ e) = parse_proxy_protocol_header d"
  using parse_proxy_incomplete_length pp.stable by blast

text \<open>
  Reading a PROXY header takes at most 1500 bytes from the stream, and fails only with
  \<open>ParseProxyProtocolError\<close>, a broken connection or the timeout: the internal
  \<open>ParseProxyProtocolIncompleteError\<close> never escapes, which is what \<open>SNIProxy.handle_connection\<close>
  relies on.
\<close>

theorem read_proxy_bounds:
  "length (pending r) \<le> 1500 + length (pending (snd (read_proxy_protocol_header r))) \<and>
   (case fst (read_proxy_protocol_header r) of
      Inl e \<Rightarrow> e = ParseProxyProtocolError \<or> e = OSError \<or> e = TimeoutError
    | Inr (h, left) \<Rightarrow> length left \<le> 1500)"
  using read_proxy_loop_bounds [of "[]" r "fst (read_proxy_loop r [])" "snd (read_proxy_loop r [])"]
  unfolding read_proxy_protocol_header_def MAX_HEADER_SIZE_def by simp

end
