(* ===== verification/Server.thy ===== *)
theory Server
  imports Worker Sni ProxyProtocol
begin

text \<open>
  The accepting side of the server, \<^verbatim>\<open>snitun/server/run.py\<close>: the listening sockets, the single-process
  server's handler, and the accept loop that reads the first bytes of every connection and hands it to a
  worker process. What the operating system does (resolution, \<open>accept\<close>, \<open>recv\<close>, the events of
  \<open>epoll\<close>) are arguments; sockets are their file numbers with the effects on them recorded.
\<close>

definition WORKER_STALE_MAX :: nat where "WORKER_STALE_MAX = 30"
definition LISTEN_BACKLOG :: nat where "LISTEN_BACKLOG = 80 * 1000"

section \<open>Listening sockets\<close>

datatype address_family = AF_INET | AF_INET6

type_synonym addrinfo = "address_family \<times> pystr"

record listen_socket =
  ls_family :: address_family
  ls_address :: pystr
  ls_v6only :: bool

text \<open>
  \<open>bind\<close> is the outcome of creating, binding and listening. The result is the list of sockets, or the
  exception with the sockets that were closed before it is raised again.
\<close>

fun bind_all :: "(addrinfo \<Rightarrow> unit res) \<Rightarrow> addrinfo list \<Rightarrow> pystr list \<Rightarrow> listen_socket list \<Rightarrow>
    exn option \<times> pystr list \<times> listen_socket list" where
  "bind_all bind [] seen socks = (None, seen, socks)"
| "bind_all bind ((family, sockaddr) # infos) seen socks =
     (if sockaddr \<in> set seen then bind_all bind infos seen socks
      else let seen = sockaddr # seen in
        case bind (family, sockaddr) of
          Inl e \<Rightarrow> (Some e, seen, socks)
        | Inr _ \<Rightarrow> bind_all bind infos seen
            (socks @ [\<lparr>ls_family = family, ls_address = sockaddr, ls_v6only = (family = AF_INET6)\<rparr>]))"

fun bind_targets :: "(pystr option \<Rightarrow> addrinfo list res) \<Rightarrow> (addrinfo \<Rightarrow> unit res) \<Rightarrow> pystr option list \<Rightarrow>
    pystr list \<Rightarrow> listen_socket list \<Rightarrow> exn option \<times> listen_socket list" where
  "bind_targets getaddrinfo bind [] seen socks = (None, socks)"
| "bind_targets getaddrinfo bind (host # hosts) seen socks =
     (case getaddrinfo host of
        Inl e \<Rightarrow> (Some e, socks)
      | Inr infos \<Rightarrow>
          (case bind_all bind infos seen socks of
             (Some e, seen, socks) \<Rightarrow> (Some e, socks)
           | (None, seen, socks) \<Rightarrow> bind_targets getaddrinfo bind hosts seen socks))"

definition create_listen_sockets ::
    "(pystr option \<Rightarrow> addrinfo list res) \<Rightarrow> (addrinfo \<Rightarrow> unit res) \<Rightarrow> pystr list option \<Rightarrow>
     listen_socket list res \<times> listen_socket list" where
  "create_listen_sockets getaddrinfo bind hosts =
     (let targets = (case hosts of None \<Rightarrow> [None] | Some hs \<Rightarrow> map Some hs) in
      case bind_targets getaddrinfo bind targets [] [] of
        (Some e, socks) \<Rightarrow> (Inl e, if catches OSError e then socks else [])
      | (None, socks) \<Rightarrow> (if socks = [] then (Inl RuntimeError, []) else (Inr socks, [])))"

section \<open>The single-process server\<close>

text \<open>The header of the PROXY protocol, read without the bound of \<open>read_proxy_protocol_header\<close>.\<close>

function (sequential) single_proxy_loop :: "reader \<Rightarrow> bytes \<Rightarrow> (proxy_header option \<times> bytes) res \<times> reader" where
  "single_proxy_loop r data =
     (case parse_proxy_protocol_header data of
        Inr header \<Rightarrow> (Inr (header, data), r)
      | Inl e \<Rightarrow>
          (if \<not> catches ParseProxyProtocolIncompleteError e then (Inl e, r)
           else (case read 2048 r of
                   (Inl e, r') \<Rightarrow> (Inl e, r')
                 | (Inr chunk, r') \<Rightarrow>
                     (if chunk = [] then (Inl ParseProxyProtocolError, r') else single_proxy_loop r' (data @ chunk)))))"
  by pat_completeness auto
termination
  by (relation "measure (\<lambda>(r, data). length (pending r))") (auto, metis read_shrinks)

declare single_proxy_loop.simps [simp del]

definition single_strip_proxy_protocol :: "reader \<Rightarrow> bytes \<Rightarrow> (bytes \<times> ip_address option) res \<times> reader" where
  "single_strip_proxy_protocol r data =
     (case single_proxy_loop r data of
        (Inl e, r1) \<Rightarrow> (Inl e, r1)
      | (Inr (None, data), r1) \<Rightarrow> (Inr (data, None), r1)
      | (Inr (Some header, data), r1) \<Rightarrow>
          (let data = drop (hsize header) data in
           if data \<noteq> [] then (Inr (data, source header), r1)
           else case read 2048 r1 of
                  (Inl e, r2) \<Rightarrow> (Inl e, r2)
                | (Inr data, r2) \<Rightarrow> (Inr (data, source header), r2)))"

text \<open>What becomes of a connection: closed, forgotten, given to one of the listeners, or an exception escapes.\<close>

datatype single_outcome =
  SingleClosed
| SingleDropped
| SingleSni bytes "ip_address option"
| SinglePeer bytes
| SingleRaised exn

definition single_read :: "bool \<Rightarrow> reader \<Rightarrow> (bytes \<times> ip_address option) res \<times> reader" where
  "single_read proxy_protocol r =
     (case read 2048 r of
        (Inl e, r1) \<Rightarrow> (Inl e, r1)
      | (Inr data, r1) \<Rightarrow> (if proxy_protocol then single_strip_proxy_protocol r1 data else (Inr (data, None), r1)))"

definition single_handler :: "bool \<Rightarrow> reader \<Rightarrow> single_outcome \<times> reader" where
  "single_handler proxy_protocol r =
     (case single_read proxy_protocol r of
        (Inl e, r1) \<Rightarrow>
          (if catches TimeoutError e then SingleClosed
           else if catches ParseProxyProtocolError e then SingleClosed
           else if catches OSError e then SingleDropped
           else SingleRaised e, r1)
      | (Inr (data, peer_address), r1) \<Rightarrow>
          (if data = [] then SingleClosed
           else if hd data = 0x16 then SingleSni data peer_address
           else if startswith data (lit ''gA'') then SinglePeer data
           else SingleClosed, r1))"

section \<open>Connections of the accept loop\<close>

record connection =
  c_fd :: nat
  c_buffer :: bytes
  c_stale :: nat
  c_close :: bool
  c_proxy_done :: bool
  c_address :: "ip_address option"
  c_registered :: bool
  c_shut :: bool
  c_sock_closed :: bool

text \<open>The last three fields record the effects on \<open>epoll\<close> and on the socket.\<close>

definition new_connection :: "nat \<Rightarrow> connection" where
  "new_connection fd = \<lparr>c_fd = fd, c_buffer = [], c_stale = 0, c_close = False, c_proxy_done = False, c_address = None,
     c_registered = True, c_shut = False, c_sock_closed = False\<rparr>"

definition soft_close :: "connection \<Rightarrow> connection" where
  "soft_close c = c\<lparr>c_close := True, c_registered := False\<rparr>"

definition close_socket :: "bool \<Rightarrow> connection \<Rightarrow> connection" where
  "close_socket shut c = (soft_close c)\<lparr>c_shut := shut, c_sock_closed := True\<rparr>"

definition strip_proxy_protocol :: "bool \<Rightarrow> connection \<Rightarrow> bool res \<times> connection" where
  "strip_proxy_protocol proxy_protocol c =
     (if \<not> proxy_protocol \<or> c_proxy_done c then (Inr True, c)
      else case parse_proxy_protocol_header (c_buffer c) of
        Inl e \<Rightarrow>
          (if catches ParseProxyProtocolIncompleteError e
           then (Inr False, if MAX_BUFFER_SIZE \<le> length (c_buffer c) then close_socket True c else c)
           else if catches ParseProxyProtocolError e then (Inr False, close_socket True c)
           else (Inl e, c))
      | Inr header \<Rightarrow>
          (let c = c\<lparr>c_proxy_done := True\<rparr>;
               c = (case header of None \<Rightarrow> c
                    | Some h \<Rightarrow> c\<lparr>c_buffer := drop (hsize h) (c_buffer c), c_address := source h\<rparr>)
           in (Inr (c_buffer c \<noteq> []), c)))"

text \<open>
  The workers of the server and the position of \<^verbatim>\<open>cycle(self._workers)\<close>. The connections the loop is
  done with are kept in \<open>finished\<close>, to see what became of them.
\<close>

record server =
  sproxy :: bool
  sworkers :: "worker list"
  worker_lb :: nat
  finished :: "connection list"

definition finish :: "connection \<Rightarrow> server \<Rightarrow> server" where
  "finish c s = s\<lparr>finished := finished s @ [c]\<rparr>"

definition handover_to :: "nat \<Rightarrow> nat \<Rightarrow> bytes \<Rightarrow> pystr option \<Rightarrow> ip_address option \<Rightarrow> server \<Rightarrow> server" where
  "handover_to i con data sni addr s =
     s\<lparr>sworkers := (sworkers s)[i := handover_connection con data sni addr (sworkers s ! i)]\<rparr>"

text \<open>\<^verbatim>\<open>next(workers_lb).handover_connection(...)\<close>; without workers the iterator is exhausted.\<close>

definition next_worker :: "nat \<Rightarrow> bytes \<Rightarrow> server \<Rightarrow> unit res \<times> server" where
  "next_worker con data s =
     (if sworkers s = [] then (Inl StopIteration, s)
      else (Inr (), (handover_to (worker_lb s mod length (sworkers s)) con data None None s)
              \<lparr>worker_lb := worker_lb s + 1\<rparr>))"

text \<open>The first worker in the list that is responsible.\<close>

fun responsible :: "pystr \<Rightarrow> worker list \<Rightarrow> nat option" where
  "responsible hostname [] = None"
| "responsible hostname (W # Ws) =
     (if is_responsible_peer W hostname then Some 0 else map_option Suc (responsible hostname Ws))"

definition process_hello :: "connection \<Rightarrow> server \<Rightarrow> unit res \<times> connection \<times> server" where
  "process_hello c s =
     (case parse_tls_sni (c_buffer c) of
        Inl e \<Rightarrow>
          (if catches ParseSNIIncompleteError e
           then (Inr (), if MAX_BUFFER_SIZE \<le> length (c_buffer c) then close_socket True c else c, s)
           else if catches ParseSNIError e then (Inr (), close_socket True c, s)
           else (Inl e, c, s))
      | Inr hostname \<Rightarrow>
          (case responsible hostname (sworkers s) of
             Some i \<Rightarrow> (Inr (), soft_close c, handover_to i (c_fd c) (c_buffer c) (Some hostname) (c_address c) s)
           | None \<Rightarrow> (Inr (), close_socket True c, s)))"

definition process_buffer :: "connection \<Rightarrow> server \<Rightarrow> unit res \<times> connection \<times> server" where
  "process_buffer c s =
     (if startswith (c_buffer c) (lit ''gA'')
      then (case next_worker (c_fd c) (c_buffer c) s of (x, s1) \<Rightarrow> (x, soft_close c, s1))
      else if hd (c_buffer c) \<noteq> 0x16 then (Inr (), close_socket True c, s)
      else process_hello c s)"

definition process :: "bytes res \<Rightarrow> connection \<Rightarrow> server \<Rightarrow> unit res \<times> connection \<times> server" where
  "process recv c s =
     (case recv of
        Inl e \<Rightarrow> (if catches OSError e then (Inr (), close_socket False c, s) else (Inl e, c, s))
      | Inr data \<Rightarrow>
          (if data = [] then (Inr (), close_socket True c, s)
           else case strip_proxy_protocol (sproxy s) (c\<lparr>c_buffer := c_buffer c @ data\<rparr>) of
             (Inl e, c1) \<Rightarrow> (Inl e, c1, s)
           | (Inr go, c1) \<Rightarrow> (if go then process_buffer c1 s else (Inr (), c1, s))))"

section \<open>The accept loop\<close>

text \<open>
  What \<open>poll\<close> reports: a connection to accept (or the error of \<open>accept\<close>), data to read on a connection
  with what \<open>recv\<close> returns, or a hang-up.
\<close>

datatype event = Accept "nat option" | Readable nat "bytes res" | HangUp nat

type_synonym conns = "(nat \<times> connection) list"

fun run_event :: "event \<Rightarrow> conns \<times> server \<Rightarrow> unit res \<times> conns \<times> server" where
  "run_event (Accept None) (cs, s) = (Inr (), cs, s)"
| "run_event (Accept (Some fd)) (cs, s) = (Inr (), AList.update fd (new_connection fd) cs, s)"
| "run_event (Readable fd recv) (cs, s) =
     (case map_of cs fd of
        None \<Rightarrow> (Inl KeyError, cs, s)
      | Some c \<Rightarrow>
          (case process recv (c\<lparr>c_stale := 0\<rparr>) s of
             (Inl e, c1, s1) \<Rightarrow> (Inl e, AList.update fd c1 cs, s1)
           | (Inr _, c1, s1) \<Rightarrow>
               (Inr (), if c_close c1 then (AList.delete fd cs, finish c1 s1) else (AList.update fd c1 cs, s1))))"
| "run_event (HangUp fd) (cs, s) =
     (case map_of cs fd of
        None \<Rightarrow> (Inl KeyError, cs, s)
      | Some c \<Rightarrow> (Inr (), AList.delete fd cs, finish (close_socket False c) s))"

fun run_events :: "event list \<Rightarrow> conns \<times> server \<Rightarrow> unit res \<times> conns \<times> server" where
  "run_events [] st = (Inr (), st)"
| "run_events (e # es) st =
     (case run_event e st of (Inl x, st1) \<Rightarrow> (Inl x, st1) | (Inr _, st1) \<Rightarrow> run_events es st1)"

text \<open>A connection without data for more than 30 turns of the loop is closed.\<close>

fun cleanup :: "conns \<Rightarrow> server \<Rightarrow> conns \<times> server" where
  "cleanup [] s = ([], s)"
| "cleanup ((fd, c) # cs) s =
     (if WORKER_STALE_MAX \<le> c_stale c then cleanup cs (finish (close_socket True c) s)
      else case cleanup cs s of (cs1, s1) \<Rightarrow> ((fd, c\<lparr>c_stale := c_stale c + 1\<rparr>) # cs1, s1))"

definition run_turn :: "event list \<Rightarrow> conns \<times> server \<Rightarrow> unit res \<times> conns \<times> server" where
  "run_turn events st =
     (case run_events events st of
        (Inl e, st1) \<Rightarrow> (Inl e, st1)
      | (Inr _, (cs, s)) \<Rightarrow> (Inr (), cleanup cs s))"

text \<open>The loop: one list of events for each return of \<open>poll\<close>, until the server is stopped or an exception escapes.\<close>

fun run :: "event list list \<Rightarrow> conns \<times> server \<Rightarrow> unit res \<times> conns \<times> server" where
  "run [] st = (Inr (), st)"
| "run (es # ess) st = (case run_turn es st of (Inl e, st1) \<Rightarrow> (Inl e, st1) | (Inr _, st1) \<Rightarrow> run ess st1)"

definition peer_counter :: "server \<Rightarrow> int" where
  "peer_counter s = sum_list (map peer_size (sworkers s))"

section \<open>Every connection is bounded and accounted for\<close>

text \<open>A connection the loop still reads from.\<close>

definition conn_ok :: "nat \<times> connection \<Rightarrow> bool" where
  "conn_ok x \<longleftrightarrow> (case x of (fd, c) \<Rightarrow> c_fd c = fd \<and> \<not> c_close c \<and> c_registered c \<and> \<not> c_sock_closed c \<and>
     length (c_buffer c) < MAX_BUFFER_SIZE \<and> c_stale c \<le> WORKER_STALE_MAX)"

text \<open>A connection that a worker was handed, with the data read so far.\<close>

definition handed :: "server \<Rightarrow> connection \<Rightarrow> bool" where
  "handed s c \<longleftrightarrow> (\<exists>i < length (sworkers s). \<exists>h. Some h \<in> set (wnew (sworkers s ! i)) \<and>
     ho_con h = c_fd c \<and> ho_data h = c_buffer c)"

definition finished_ok :: "server \<Rightarrow> connection \<Rightarrow> bool" where
  "finished_ok s c \<longleftrightarrow> c_close c \<and> \<not> c_registered c \<and> (c_sock_closed c \<or> handed s c)"

definition loop_inv :: "conns \<times> server \<Rightarrow> bool" where
  "loop_inv st \<longleftrightarrow> (case st of (cs, s) \<Rightarrow> distinct (map fst cs) \<and> (\<forall>x \<in> set cs. conn_ok x) \<and>
     (\<forall>c \<in> set (finished s). finished_ok s c))"

text \<open>What a step of \<open>_process\<close> may do to the workers: their queues only grow.\<close>

definition grows :: "server \<Rightarrow> server \<Rightarrow> bool" where
  "grows s s' \<longleftrightarrow> finished s' = finished s \<and> (\<forall>c. handed s c \<longrightarrow> handed s' c)"

lemma grows_refl [simp]: "grows s s"
  by (simp add: grows_def)

lemma handover_grows:
  assumes "i < length (sworkers s)"
  shows "grows s (handover_to i con data sni addr s)"
    and "c_fd c = con \<Longrightarrow> c_buffer c = data \<Longrightarrow> handed (handover_to i con data sni addr s) c"
proof -
  let ?s = "handover_to i con data sni addr s"
  have len: "length (sworkers ?s) = length (sworkers s)" "finished ?s = finished s" by (simp_all add: handover_to_def)
  have old: "Some h \<in> set (wnew (sworkers ?s ! j))" if "Some h \<in> set (wnew (sworkers s ! j))" "j < length (sworkers s)" for h j
    using that by (cases "j = i") (simp_all add: handover_to_def handover_connection_def)
  then show "grows s ?s" using len by (fastforce simp: grows_def handed_def)
  have "Some \<lparr>ho_con = con, ho_data = data, ho_sni = sni, ho_address = addr\<rparr> \<in> set (wnew (sworkers ?s ! i))"
    using assms by (simp add: handover_to_def handover_connection_def)
  then show "c_fd c = con \<Longrightarrow> c_buffer c = data \<Longrightarrow> handed ?s c" using assms len by (fastforce simp: handed_def)
qed

lemma responsible_bound: "responsible h Ws = Some i \<Longrightarrow> i < length Ws \<and> is_responsible_peer (Ws ! i) h"
  by (induction Ws arbitrary: i) (auto split: if_splits)

lemma responsible_none: "responsible h Ws = None \<longleftrightarrow> (\<forall>W \<in> set Ws. \<not> is_responsible_peer W h)"
  by (induction Ws) auto

text \<open>What one call of \<open>_process\<close> leaves: the connection is still read from, or it is done with.\<close>

definition outcome_ok :: "connection \<Rightarrow> server \<Rightarrow> connection \<times> server \<Rightarrow> bool" where
  "outcome_ok c s x \<longleftrightarrow> (case x of (c', s') \<Rightarrow> grows s s' \<and> c_fd c' = c_fd c \<and>
     (if c_close c' then finished_ok s' c' else conn_ok (c_fd c, c')))"

lemma close_socket_ok [simp]: "outcome_ok c s (close_socket b c, s)"
  by (simp add: outcome_ok_def close_socket_def soft_close_def finished_ok_def)

lemma outcome_kept: "conn_ok (c_fd c, c') \<Longrightarrow> outcome_ok c s (c', s)"
  by (auto simp: outcome_ok_def conn_ok_def)

lemma outcome_handed:
  assumes "i < length (sworkers s)"
  shows "outcome_ok c s (soft_close c, handover_to i (c_fd c) (c_buffer c) sni addr s)"
  using handover_grows(1) [OF assms] handover_grows(2) [OF assms, where c = "soft_close c"]
  by (simp add: outcome_ok_def finished_ok_def soft_close_def)

lemma grows_lb: "grows s (s'\<lparr>worker_lb := n\<rparr>) = grows s s'" "finished_ok (s'\<lparr>worker_lb := n\<rparr>) c = finished_ok s' c"
  by (simp_all add: grows_def handed_def finished_ok_def)

text \<open>Everything of a connection but its buffer is as the loop expects it.\<close>

definition live :: "connection \<Rightarrow> bool" where
  "live c \<longleftrightarrow> \<not> c_close c \<and> c_registered c \<and> \<not> c_sock_closed c \<and> c_stale c \<le> WORKER_STALE_MAX"

lemma conn_ok_live: "conn_ok (fd, c) \<longleftrightarrow> c_fd c = fd \<and> live c \<and> length (c_buffer c) < MAX_BUFFER_SIZE"
  by (auto simp: conn_ok_def live_def)

lemma process_hello_ok:
  assumes "live c" and "process_hello c s = (Inr (), c', s')"
  shows "outcome_ok c s (c', s')"
proof (cases "parse_tls_sni (c_buffer c)")
  case (Inl e)
  with assms show ?thesis
    by (auto simp: process_hello_def conn_ok_live intro: outcome_kept split: if_splits)
next
  case (Inr h)
  with assms(2) show ?thesis
    by (auto simp: process_hello_def outcome_handed dest!: responsible_bound split: option.splits)
qed

lemma process_buffer_ok:
  assumes "live c" and "process_buffer c s = (Inr (), c', s')"
  shows "outcome_ok c s (c', s')"
proof (cases "startswith (c_buffer c) (lit ''gA'')")
  case True
  let ?i = "worker_lb s mod length (sworkers s)"
  from True assms(2) have w: "sworkers s \<noteq> []" and c': "c' = soft_close c"
    and s': "s' = (handover_to ?i (c_fd c) (c_buffer c) None None s)\<lparr>worker_lb := worker_lb s + 1\<rparr>"
    by (auto simp: process_buffer_def next_worker_def split: if_splits)
  from w have "?i < length (sworkers s)" by simp
  from outcome_handed [OF this] show ?thesis by (simp add: outcome_ok_def c' s' grows_lb soft_close_def)
next
  case False
  with assms process_hello_ok show ?thesis
    by (auto simp: process_buffer_def split: if_splits)
qed

lemma strip_proxy_protocol_ok:
  assumes "live c" and "strip_proxy_protocol b c = (Inr go, c')"
  shows "if go then live c' \<and> c_fd c' = c_fd c \<and> c_buffer c' \<noteq> [] \<or> c' = c else outcome_ok c s (c', s)"
  using assms
  by (auto simp: strip_proxy_protocol_def live_def Let_def conn_ok_def MAX_BUFFER_SIZE_def
    intro: outcome_kept split: if_splits sum.splits option.splits)

lemma process_ok:
  assumes "live c" and "process recv c s = (Inr (), c', s')"
  shows "outcome_ok c s (c', s')"
proof (cases recv)
  case (Inl e)
  with assms(2) show ?thesis by (auto simp: process_def split: if_splits)
next
  case (Inr d)
  let ?c = "c\<lparr>c_buffer := c_buffer c @ d\<rparr>"
  show ?thesis
  proof (cases "d = []")
    case True
    with Inr assms(2) show ?thesis by (auto simp: process_def)
  next
    case False
    obtain x c1 where p: "strip_proxy_protocol (sproxy s) ?c = (x, c1)" by fastforce
    with Inr False assms(2) obtain go where go: "x = Inr go" by (cases x) (auto simp: process_def)
    have l: "live ?c" using assms(1) by (simp add: live_def)
    note st = strip_proxy_protocol_ok [OF l p [unfolded go], of s]
    show ?thesis
    proof (cases go)
      case True
      with Inr False assms(2) p go have b: "process_buffer c1 s = (Inr (), c', s')" by (simp add: process_def)
      from st True l have "live c1" "c_fd c1 = c_fd c" by auto
      with process_buffer_ok [OF this(1) b] show ?thesis by (simp add: outcome_ok_def split: if_splits)
    next
      case False
      with Inr \<open>d \<noteq> []\<close> assms(2) p go st show ?thesis by (simp add: process_def outcome_ok_def split: if_splits)
    qed
  qed
qed

lemma finished_ok_grows: "grows s s' \<Longrightarrow> finished_ok s c \<Longrightarrow> finished_ok s' c"
  by (auto simp: grows_def finished_ok_def)

lemma finish_simps [simp]:
  "finished (finish c s) = finished s @ [c]" "handed (finish c s) = handed s" "finished_ok (finish c s) = finished_ok s"
  by (simp_all add: finish_def handed_def finished_ok_def fun_eq_iff)

lemma in_set_update: "x \<in> set (AList.update k v al) \<Longrightarrow> x = (k, v) \<or> x \<in> set al"
  by (induction al) (auto split: if_splits)

lemma in_set_delete: "x \<in> set (AList.delete k al) \<Longrightarrow> x \<in> set al"
  by (auto simp: AList.delete_eq)

lemma loop_inv_event:
  assumes "loop_inv st" and "run_event e st = (Inr (), st')"
  shows "loop_inv st'"
proof (cases e)
  case (Accept a)
  obtain cs s where st: "st = (cs, s)" by fastforce
  have "conn_ok (fd, new_connection fd)" for fd
    by (simp add: conn_ok_def new_connection_def MAX_BUFFER_SIZE_def)
  with assms Accept st show ?thesis
    by (cases a) (auto simp: loop_inv_def distinct_update dest: in_set_update)
next
  case (Readable fd recv)
  obtain cs s where st: "st = (cs, s)" by fastforce
  with assms(2) Readable obtain c c1 s1 where c: "map_of cs fd = Some c" and p: "process recv (c\<lparr>c_stale := 0\<rparr>) s = (Inr (), c1, s1)"
    and st': "st' = (if c_close c1 then (AList.delete fd cs, finish c1 s1) else (AList.update fd c1 cs, s1))"
    by (auto split: option.splits prod.splits sum.splits)
  from c assms(1) st have ok: "conn_ok (fd, c)" by (auto simp: loop_inv_def dest: map_of_SomeD)
  then have "live (c\<lparr>c_stale := 0\<rparr>)" by (simp add: conn_ok_live live_def)
  from process_ok [OF this p] ok have "grows s s1" "if c_close c1 then finished_ok s1 c1 else conn_ok (fd, c1)"
    by (auto simp: outcome_ok_def conn_ok_def)
  with assms(1) st st' show ?thesis
    by (auto simp: loop_inv_def distinct_update distinct_delete grows_def intro: finished_ok_grows
      dest: in_set_update in_set_delete split: if_splits)
next
  case (HangUp fd)
  obtain cs s where st: "st = (cs, s)" by fastforce
  have "finished_ok s (close_socket False c)" for c by (simp add: finished_ok_def close_socket_def soft_close_def)
  with assms HangUp st show ?thesis
    by (auto simp: loop_inv_def distinct_delete dest: in_set_delete split: option.splits)
qed

lemma loop_inv_events: "loop_inv st \<Longrightarrow> run_events es st = (Inr (), st') \<Longrightarrow> loop_inv st'"
proof (induction es arbitrary: st)
  case (Cons e es)
  obtain x st1 where e: "run_event e st = (x, st1)" by (metis surj_pair)
  with Cons.prems(2) have x: "x = Inr ()" by (cases x) auto
  with Cons e loop_inv_event show ?case by fastforce
qed simp

lemma cleanup_ok:
  assumes "cleanup cs s = (cs', s')" and "loop_inv (cs, s)"
  shows "loop_inv (cs', s') \<and> fst ` set cs' \<subseteq> fst ` set cs"
  using assms
proof (induction cs arbitrary: s cs' s')
  case (Cons x cs)
  obtain fd c where x: "x = (fd, c)" by fastforce
  show ?case
  proof (cases "WORKER_STALE_MAX \<le> c_stale c")
    case True
    have "finished_ok s (close_socket True c)" by (simp add: finished_ok_def close_socket_def soft_close_def)
    with Cons.prems(2) x have "loop_inv (cs, finish (close_socket True c) s)" by (auto simp: loop_inv_def)
    with Cons.IH [OF _ this] Cons.prems(1) x True show ?thesis by auto
  next
    case False
    obtain cs1 where c: "cleanup cs s = (cs1, s')" "cs' = (fd, c\<lparr>c_stale := c_stale c + 1\<rparr>) # cs1"
      using Cons.prems(1) x False by (auto split: prod.splits)
    have "loop_inv (cs, s)" using Cons.prems(2) by (simp add: loop_inv_def)
    note IH = Cons.IH [OF c(1) this]
    moreover have "conn_ok (fd, c\<lparr>c_stale := c_stale c + 1\<rparr>)"
      using Cons.prems(2) x False by (auto simp: loop_inv_def conn_ok_def)
    ultimately show ?thesis using Cons.prems(2) x c(2) by (auto simp: loop_inv_def)
  qed
qed simp

lemma loop_inv_turn: "loop_inv st \<Longrightarrow> run_turn es st = (Inr (), st') \<Longrightarrow> loop_inv st'"
  by (auto simp: run_turn_def split: prod.splits sum.splits)
    (metis cleanup_ok loop_inv_events old.unit.exhaust prod.collapse)

lemma loop_inv_run: "loop_inv st \<Longrightarrow> run ess st = (Inr (), st') \<Longrightarrow> loop_inv st'"
proof (induction ess arbitrary: st)
  case (Cons es ess)
  obtain x st1 where e: "run_turn es st = (x, st1)" by (metis surj_pair)
  with Cons.prems(2) have x: "x = Inr ()" by (cases x) auto
  with Cons e loop_inv_turn show ?case by fastforce
qed simp


section \<open>Silent connections\<close>

lemma cleanup_lookup:
  "distinct (map fst cs) \<Longrightarrow> map_of (fst (cleanup cs s)) fd =
     (case map_of cs fd of
        None \<Rightarrow> None
      | Some c \<Rightarrow> if WORKER_STALE_MAX \<le> c_stale c then None else Some (c\<lparr>c_stale := c_stale c + 1\<rparr>))"
proof (induction cs s rule: cleanup.induct)
  case (2 fd' c cs s)
  have "map_of cs fd' = None" using "2.prems" by (simp add: map_of_eq_None_iff)
  with 2 show ?case by (auto split: prod.splits option.splits)
qed simp

text \<open>The events of the turn do not concern the connection.\<close>

fun concerns :: "nat \<Rightarrow> event \<Rightarrow> bool" where
  "concerns fd (Accept a) \<longleftrightarrow> a = Some fd"
| "concerns fd (Readable f _) \<longleftrightarrow> f = fd"
| "concerns fd (HangUp f) \<longleftrightarrow> f = fd"

lemma run_event_other:
  assumes "\<not> concerns fd e" and "run_event e (cs, s) = (x, cs', s')"
  shows "map_of cs' fd = map_of cs fd"
  using assms by (cases e; cases "case e of Accept a \<Rightarrow> a | _ \<Rightarrow> None")
    (auto simp: update_conv' delete_conv' split: option.splits prod.splits sum.splits if_splits)

lemma run_events_other:
  assumes "\<forall>e \<in> set es. \<not> concerns fd e" and "run_events es (cs, s) = (x, cs', s')"
  shows "map_of cs' fd = map_of cs fd"
  using assms
proof (induction es arbitrary: cs s)
  case (Cons e es)
  obtain y cs1 s1 where e: "run_event e (cs, s) = (y, cs1, s1)" by (metis surj_pair)
  with run_event_other [OF _ e] Cons show ?case by (cases y) auto
qed simp

lemma run_turn_other:
  assumes "\<forall>e \<in> set es. \<not> concerns fd e" and "run_turn es (cs, s) = (Inr (), cs', s')" and "loop_inv (cs, s)"
  shows "map_of cs' fd = (case map_of cs fd of None \<Rightarrow> None
     | Some c \<Rightarrow> if WORKER_STALE_MAX \<le> c_stale c then None else Some (c\<lparr>c_stale := c_stale c + 1\<rparr>))"
proof -
  obtain x cs1 s1 where e: "run_events es (cs, s) = (x, cs1, s1)" by (metis surj_pair)
  with assms(2) have x: "x = Inr ()" and c: "(cs', s') = cleanup cs1 s1" by (cases x; simp add: run_turn_def)+
  from loop_inv_events [OF assms(3) e [unfolded x]] have "distinct (map fst cs1)" by (simp add: loop_inv_def)
  from cleanup_lookup [OF this, of s1 fd] run_events_other [OF assms(1) e] c show ?thesis by (metis fst_conv)
qed


section \<open>A ClientHello in pieces\<close>

lemma hello_incomplete:
  assumes "parse_tls_sni (d @ e) = Inr h" and "tls_size (d @ e) = Inr n" and "5 \<le> length d" and "length d < n"
  shows "parse_tls_sni d = Inl ParseSNIIncompleteError"
  using assms tls_size_prefix [OF assms(3), of e]
  by (auto simp: parse_tls_sni_def Let_def tls_consts rbind_eq_Inr byte_at_def nth_append split: if_splits)

lemma hello_starts: "parse_tls_sni d = Inr h \<Longrightarrow> 5 \<le> length d \<and> hd d = 0x16"
proof -
  assume a: "parse_tls_sni d = Inr h"
  then have l: "5 \<le> length d" and "unat (d ! 0) = 0x16"
    by (auto simp: parse_tls_sni_def Let_def tls_consts rbind_eq_Inr byte_at_def split: if_splits)
  then have "d ! 0 = 0x16" by (simp add: word_unat_eq_iff)
  with l show ?thesis by (cases d) auto
qed

lemma startswith_gA: "startswith d (lit ''gA'') \<Longrightarrow> hd d = 0x67"
  by (auto simp: startswith_iff lit_def)

lemma process_waits:
  assumes "\<not> sproxy s" and "d \<noteq> []" and "c_buffer c @ d = b" and "hd b = 0x16"
    and "parse_tls_sni b = Inl ParseSNIIncompleteError" and "length b < MAX_BUFFER_SIZE"
  shows "process (Inr d) c s = (Inr (), c\<lparr>c_buffer := b\<rparr>, s)"
  using assms startswith_gA [of b]
  by (auto simp: process_def strip_proxy_protocol_def process_buffer_def process_hello_def catches_def)

lemma process_hands_over:
  assumes "\<not> sproxy s" and "d \<noteq> []" and "c_buffer c @ d = b" and "parse_tls_sni b = Inr h"
    and "responsible h (sworkers s) = Some i"
  shows "process (Inr d) c s = (Inr (), soft_close (c\<lparr>c_buffer := b\<rparr>), handover_to i (c_fd c) b (Some h) (c_address c) s)"
  using assms startswith_gA [of b] hello_starts [of b h]
  by (auto simp: process_def strip_proxy_protocol_def process_buffer_def process_hello_def)

lemma hello_pieces:
  assumes "map_of cs fd = Some c" and "c_fd c = fd" and "c_address c = None" and "\<not> sproxy s" and "[] \<notin> set ds" and "ds \<noteq> []"
    and "c_buffer c @ concat ds = w" and "parse_tls_sni w = Inr h" and "tls_size w = Inr n"
    and "length (c_buffer c @ concat (butlast ds)) < n" and "5 \<le> length (c_buffer c @ hd ds)"
    and "responsible h (sworkers s) = Some i" and "\<not> c_close c"
  shows "\<exists>cs' c'. run_events (map (\<lambda>d. Readable fd (Inr d)) ds) (cs, s) =
      (Inr (), cs', finish c' (handover_to i fd w (Some h) None s)) \<and> map_of cs' fd = None \<and>
      (\<forall>fd'. fd' \<noteq> fd \<longrightarrow> map_of cs' fd' = map_of cs fd')"
  using assms
proof (induction ds arbitrary: cs c)
  case (Cons d ds)
  let ?c = "c\<lparr>c_stale := 0\<rparr>" and ?b = "c_buffer c @ d"
  show ?case
  proof (cases "ds = []")
    case True
    with Cons.prems process_hands_over [of s d ?c w h i]
    show ?thesis by (auto simp: soft_close_def delete_conv')
  next
    case False
    have w: "w = ?b @ concat ds" and b: "length ?b < n" "5 \<le> length ?b" using Cons.prems False by simp_all
    have inc: "parse_tls_sni ?b = Inl ParseSNIIncompleteError"
      using hello_incomplete [of ?b "concat ds" h n] Cons.prems(8,9) w b by simp
    have "hd ?b = 0x16" using hello_starts [OF Cons.prems(8)] w b(2) by (cases ?b) auto
    moreover have "length ?b < MAX_BUFFER_SIZE" using tls_size_bound [OF Cons.prems(9)] b(1) by (simp add: MAX_BUFFER_SIZE_def)
    ultimately have p: "process (Inr d) ?c s = (Inr (), ?c\<lparr>c_buffer := ?b\<rparr>, s)"
      using process_waits [of s d ?c ?b] Cons.prems(4,5) inc by auto
    let ?cs = "AList.update fd (?c\<lparr>c_buffer := ?b\<rparr>) cs"
    have "run_event (Readable fd (Inr d)) (cs, s) = (Inr (), ?cs, s)" using p Cons.prems(1,13) by simp
    moreover have "map_of ?cs fd = Some (?c\<lparr>c_buffer := ?b\<rparr>)" "\<And>fd'. fd' \<noteq> fd \<Longrightarrow> map_of ?cs fd' = map_of cs fd'"
      by (simp_all add: update_conv')
    moreover have "\<exists>cs' c'. run_events (map (\<lambda>d. Readable fd (Inr d)) ds) (?cs, s) =
      (Inr (), cs', finish c' (handover_to i fd w (Some h) None s)) \<and> map_of cs' fd = None \<and>
      (\<forall>fd'. fd' \<noteq> fd \<longrightarrow> map_of cs' fd' = map_of ?cs fd')"
      using Cons.prems False b(2) w by (intro Cons.IH [of ?cs "?c\<lparr>c_buffer := ?b\<rparr>"]) (auto simp: update_conv')
    ultimately show ?thesis by (auto simp del: run_event.simps)
  qed
qed simp


definition demo_hello_server :: server where
  "demo_hello_server = \<lparr>sproxy = False, sworkers = [new_worker, new_worker\<lparr>wsync := [[97]]\<rparr>], worker_lb = 0, finished = []\<rparr>"

lemma example_hello_sni: "parse_tls_sni (encode_hello example_hello) = Inr [97]"
  using parse_encode_hello [OF example_hello_fields(1,2) _ _ example_hello_fields(3,4), of "[]"] by simp


text \<open>
  C37: One connection can stop the server: a client that sends a TLS record header of length zero makes the parser
  raise \<open>IndexError\<close>, which nothing catches; the thread of the accept loop ends, and with it the handling of
  all other connections.
\<close>
theorem empty_record_stops_server:
  assumes "\<not> sproxy s"
  shows "fst (run ([Accept (Some fd), Readable fd (Inr [0x16, 3, 1, 0, 0])] # ess) (cs, s)) = Inl IndexError"
proof -
  have e: "parse_tls_sni [0x16, 3, 1, 0, 0] = Inl IndexError"
    by (simp add: parse_tls_sni_def tls_size_def tls_consts Let_def byte_at_def be16_at_def)
  have "\<not> startswith [0x16, 3, 1, 0, 0 :: byte] (lit ''gA'')" by (simp add: startswith_def lit_def)
  with assms e show ?thesis
    by (simp add: run_turn_def update_conv' process_def strip_proxy_protocol_def process_buffer_def process_hello_def
      new_connection_def catches_def)
qed

theorem empty_record_stops_server_witness:
  "fst (run [[Accept (Some 5), Readable 5 (Inr [0x16, 3, 1, 0, 0])]] ([], demo_hello_server)) = Inl IndexError"
  by (rule empty_record_stops_server) (simp add: demo_hello_server_def)

definition demo_run :: "event list list" where
  "demo_run = [[Accept (Some 5), Accept (Some 6)], [Readable 5 (Inr [1])], [HangUp 6]]"



section \<open>The single-process server and the listening sockets\<close>

lemma single_proxy_loop_raises:
  "single_proxy_loop r d = (Inl e, r') \<Longrightarrow> e = ParseProxyProtocolError \<or> e = OSError \<or> e = TimeoutError"
proof (induction r d rule: single_proxy_loop.induct)
  case (1 r d)
  from "1.prems" show ?case unfolding single_proxy_loop.simps [of r d]
    using "1.IH" parse_proxy_raises [of d] read_error_end [of 2048 r]
    by (auto simp: catches_def split: sum.splits prod.splits if_splits)
qed

text \<open>Nothing of the stream is lost, and the header is the answer of the parser on the bytes collected.\<close>

lemma single_proxy_loop_keeps:
  "single_proxy_loop r d = (Inr (h, b), r') \<Longrightarrow> parse_proxy_protocol_header b = Inr h \<and> b @ pending r' = d @ pending r"
proof (induction r d rule: single_proxy_loop.induct)
  case (1 r d)
  from "1.prems" show ?case unfolding single_proxy_loop.simps [of r d]
    using "1.IH" read_pending [of 2048 r]
    by (fastforce split: sum.splits prod.splits if_splits)
qed

text \<open>No exception leaves the handler of the single-process server.\<close>

lemma single_handler_total: "fst (single_handler p r) \<noteq> SingleRaised e"
proof -
  have "e' = ParseProxyProtocolError \<or> e' = OSError \<or> e' = TimeoutError" if "fst (single_read p r) = Inl e'" for e'
    using that single_proxy_loop_raises
    by (auto simp: single_read_def single_strip_proxy_protocol_def Let_def
      split: prod.splits sum.splits if_splits option.splits dest: read_error_end)
  then show ?thesis
    by (auto simp: single_handler_def catches_def split: prod.splits sum.splits)
qed

text \<open>
  The payload behind a PROXY header reaches the SNI listener with the source address of the header; without
  the option the header is never interpreted, and the connection is refused.
\<close>

lemma single_handler_source:
  assumes "single_handler True r = (SingleSni d a, r')"
  shows "\<exists>h b rest. pending r = b @ rest \<and> parse_proxy_protocol_header b = Inr h \<and>
     d @ pending r' = strip_header h b @ rest \<and> a = (case h of None \<Rightarrow> None | Some x \<Rightarrow> source x)"
proof -
  obtain d0 r0 where d0: "read 2048 r = (Inr d0, r0)" and s: "single_strip_proxy_protocol r0 d0 = (Inr (d, a), r')"
    using assms by (auto simp: single_handler_def single_read_def split: prod.splits sum.splits if_splits)
  then obtain h b r1 where l: "single_proxy_loop r0 d0 = (Inr (h, b), r1)"
    by (auto simp: single_strip_proxy_protocol_def split: prod.splits sum.splits)
  have p: "parse_proxy_protocol_header b = Inr h" "pending r = b @ pending r1"
    using single_proxy_loop_keeps [OF l] read_pending [OF d0] by auto
  have "d @ pending r' = strip_header h b @ pending r1 \<and> a = (case h of None \<Rightarrow> None | Some x \<Rightarrow> source x)"
    using s l by (auto simp: single_strip_proxy_protocol_def strip_header_def Let_def
      split: option.splits if_splits prod.splits sum.splits dest!: read_pending)
  with p show ?thesis by blast
qed

lemma bind_all_result:
  assumes "bind_all bind infos seen socks = (x, seen', socks')" and "distinct (map ls_address socks)"
    and "set (map ls_address socks) \<subseteq> set seen" and "\<forall>k \<in> set socks. ls_v6only k = (ls_family k = AF_INET6)"
  shows "distinct (map ls_address socks') \<and> set (map ls_address socks') \<subseteq> set seen' \<and>
    (\<forall>k \<in> set socks'. ls_v6only k = (ls_family k = AF_INET6)) \<and> set socks \<subseteq> set socks'"
  using assms
proof (induction bind infos seen socks rule: bind_all.induct)
  case (2 bind family sockaddr infos seen socks)
  show ?case
  proof (cases "sockaddr \<in> set seen")
    case True
    with 2 show ?thesis by simp
  next
    case False
    let ?k = "\<lparr>ls_family = family, ls_address = sockaddr, ls_v6only = (family = AF_INET6)\<rparr>"
    show ?thesis
    proof (cases "bind (family, sockaddr)")
      case (Inl e)
      with False "2.prems" show ?thesis by (auto simp: Let_def)
    next
      case (Inr u)
      have a: "distinct (map ls_address (socks @ [?k]))" "set (map ls_address (socks @ [?k])) \<subseteq> set (sockaddr # seen)"
        "\<forall>k \<in> set (socks @ [?k]). ls_v6only k = (ls_family k = AF_INET6)"
        using False "2.prems"(2-4) by auto
      have b: "bind_all bind infos (sockaddr # seen) (socks @ [?k]) = (x, seen', socks')"
        using False Inr "2.prems"(1) by (simp add: Let_def)
      have "set socks \<subseteq> set (socks @ [?k])" by auto
      with "2.IH"(2) [OF False refl Inr b a] show ?thesis by (meson subset_trans)
    qed
  qed
qed auto

lemma bind_targets_result:
  assumes "bind_targets gai bind hosts seen socks = (x, socks')" and "distinct (map ls_address socks)"
    and "set (map ls_address socks) \<subseteq> set seen" and "\<forall>k \<in> set socks. ls_v6only k = (ls_family k = AF_INET6)"
  shows "distinct (map ls_address socks') \<and> (\<forall>k \<in> set socks'. ls_v6only k = (ls_family k = AF_INET6))"
  using assms
proof (induction gai bind hosts seen socks rule: bind_targets.induct)
  case (2 gai bind host hosts seen socks)
  show ?case
  proof (cases "gai host")
    case (Inl e)
    with 2 show ?thesis by auto
  next
    case (Inr infos)
    obtain y seen1 socks1 where b: "bind_all bind infos seen socks = (y, seen1, socks1)" by (metis surj_pair)
    from bind_all_result [OF b "2.prems"(2-4)] "2.IH" [OF Inr b [symmetric]] "2.prems"(1) Inr b show ?thesis
      by (cases y) auto
  qed
qed auto

text \<open>The sockets that listen have distinct addresses, and the IPv6 ones do not take IPv4 connections.\<close>

lemma create_listen_sockets_result:
  assumes "create_listen_sockets gai bind hosts = (Inr socks, closed)"
  shows "socks \<noteq> [] \<and> distinct (map ls_address socks) \<and> (\<forall>k \<in> set socks. ls_v6only k = (ls_family k = AF_INET6)) \<and> closed = []"
proof -
  let ?targets = "case hosts of None \<Rightarrow> [None] | Some hs \<Rightarrow> map Some hs"
  obtain x ks where t: "bind_targets gai bind ?targets [] [] = (x, ks)" by fastforce
  with assms have "socks \<noteq> []" "ks = socks" "closed = []"
    unfolding create_listen_sockets_def Let_def t by (auto split: option.splits if_splits)
  with bind_targets_result [OF t] show ?thesis by simp
qed

end
