(* ===== verification/SniListener.thy ===== *)
theory SniListener
  imports PeerManager Sni ProxyProtocol Timeout
begin

text \<open>
  The public side of the server, \<^verbatim>\<open>snitun/server/listener_sni.py\<close>: from a TLS connection to the peer its
  ClientHello names, and the session that copies data between the two. The two loops of a session are
  phases with a step for every resumption; what the network does and the passing of time are arguments.
\<close>

section \<open>From a connection to a peer\<close>

definition PEER_TCP_SESSION_MIN_TIMEOUT :: int where "PEER_TCP_SESSION_MIN_TIMEOUT = 90"
definition PEER_TCP_SESSION_MAX_TIMEOUT :: int where "PEER_TCP_SESSION_MAX_TIMEOUT = 120"

text \<open>The PROXY header, when there is no data yet and the option is set, and the ClientHello.\<close>

definition sni_read ::
    "bool \<Rightarrow> bytes option \<Rightarrow> ip_address option \<Rightarrow> reader \<Rightarrow> (bytes option \<times> ip_address option) res \<times> reader" where
  "sni_read proxy_protocol data peer_address r =
     (case (if data = None \<and> proxy_protocol
            then (case read_proxy_protocol_header r of
                    (Inl e, r1) \<Rightarrow> (Inl e, r1)
                  | (Inr (header, leftover), r1) \<Rightarrow>
                      (Inr (Some leftover,
                         case header of None \<Rightarrow> peer_address
                         | Some h \<Rightarrow> (case source h of None \<Rightarrow> peer_address | Some a \<Rightarrow> Some a)), r1))
            else (Inr (data, peer_address), r)) of
        (Inl e, r1) \<Rightarrow> (Inl e, r1)
      | (Inr (data, peer_address), r1) \<Rightarrow>
          (case payload_reader r1 (case data of None \<Rightarrow> [] | Some d \<Rightarrow> d) of
             (Inl e, r2) \<Rightarrow> (Inl e, r2)
           | (Inr hello, r2) \<Rightarrow> (Inr (hello, peer_address), r2)))"

text \<open>
  The connection was closed, was forgotten without closing, goes to a peer, or an exception left the handler
  after it was closed. \<open>peername\<close> is the address of the socket, if it can be read.
\<close>

datatype sni_outcome = SniClosed | SniForgotten | SniProxied nat bytes ip_address | SniRaised exn

definition proxy_peer :: "nat \<Rightarrow> bytes \<Rightarrow> ip_address option \<Rightarrow> ip_address option \<Rightarrow> sni_outcome" where
  "proxy_peer p client_hello peer_address peername =
     (case peer_address of
        Some a \<Rightarrow> SniProxied p client_hello a
      | None \<Rightarrow> (case peername of Some a \<Rightarrow> SniProxied p client_hello a | None \<Rightarrow> SniClosed))"

definition sni_hostname :: "pystr option \<Rightarrow> bytes \<Rightarrow> pystr res" where
  "sni_hostname sni client_hello = (case sni of None \<Rightarrow> parse_tls_sni client_hello | Some h \<Rightarrow> Inr h)"

definition sni_route :: "manager \<Rightarrow> ip_address option \<Rightarrow> pystr option \<Rightarrow> bytes \<Rightarrow> ip_address option \<Rightarrow> sni_outcome" where
  "sni_route M peername sni client_hello peer_address =
     (case sni_hostname sni client_hello of
        Inl e \<Rightarrow> (if catches ParseSNIError e then SniClosed else SniRaised e)
      | Inr hostname \<Rightarrow>
          (if \<not> peer_available M hostname then SniClosed
           else case get_peer M hostname of
                  None \<Rightarrow> SniRaised AssertionError
                | Some p \<Rightarrow> (if pmux (pobjs M p) = None then SniRaised AssertionError
                             else proxy_peer p client_hello peer_address peername)))"

definition sni_handle_connection ::
    "manager \<Rightarrow> bool \<Rightarrow> ip_address option \<Rightarrow> bytes option \<Rightarrow> pystr option \<Rightarrow> ip_address option \<Rightarrow> reader \<Rightarrow>
     sni_outcome \<times> reader" where
  "sni_handle_connection M proxy_protocol peername data sni peer_address r =
     (case sni_read proxy_protocol data peer_address r of
        (Inl e, r1) \<Rightarrow>
          (if catches TimeoutError e then SniClosed
           else if catches ParseProxyProtocolError e then SniClosed
           else if catches OSError e then SniForgotten else SniRaised e, r1)
      | (Inr (hello, peer_address), r1) \<Rightarrow>
          (case hello of
             None \<Rightarrow> SniClosed
           | Some client_hello \<Rightarrow>
               (if client_hello = [] then SniClosed else sni_route M peername sni client_hello peer_address), r1))"

section \<open>A session\<close>

record session =
  smux :: mux
  sref :: nat
  srd :: reader
  swr :: writer
  swclosed :: bool
  sflow :: flow_control
  stimer :: ranged_timeout

text \<open>
  Opening the channel: \<open>None\<close> when the multiplexer refuses, which is only logged. A fresh channel always has
  room for its first message, so the wait for room, which would end by its timeout, never happens.
\<close>

definition session_start :: "int \<Rightarrow> ip_address \<Rightarrow> reader \<Rightarrow> writer \<Rightarrow> mux \<Rightarrow> session option res \<times> mux" where
  "session_start now ip r w M =
     (case mux_create_channel ip M of
        (Inl e, M1) \<Rightarrow> (if catches MultiplexerTransportError e then Inr None else Inl e, M1)
      | (Inr (CreateWaits c f _), M1) \<Rightarrow> (Inr None, snd (create_timeout c f M1))
      | (Inr (Created c), M1) \<Rightarrow>
          (Inr (Some \<lparr>smux = M1, sref = c, srd = r, swr = w, swclosed = False, sflow = new_flow_control,
             stimer = new_ranged_timeout now PEER_TCP_SESSION_MIN_TIMEOUT PEER_TCP_SESSION_MAX_TIMEOUT\<rparr>), M1))"

text \<open>
  The phases of \<open>_proxy_loop\<close>: the first write, the loop condition, waiting for the pause future, for data from
  the client, for room in the queue (after which the timeout is rescheduled, or not), and the end.
\<close>

datatype proxy_phase =
  SendHello bytes
| Check
| Paused nat
| AwaitData
| Writing bool message nat nat
| ProxyEnded "exn option"

definition proxy_caught :: "exn \<Rightarrow> bool" where
  "proxy_caught e \<longleftrightarrow> catches MultiplexerTransportClose e \<or> catches MultiplexerTransportError e \<or> catches OSError e \<or>
     catches RuntimeError e \<or> catches IncompleteReadError e"

definition proxy_finish :: "exn option \<Rightarrow> session \<Rightarrow> proxy_phase \<times> session" where
  "proxy_finish x s =
     (ProxyEnded (case x of None \<Rightarrow> None | Some e \<Rightarrow> if proxy_caught e then None else Some e),
      s\<lparr>smux := mux_delete_channel (sref s) (smux s)\<rparr>)"

definition after_write :: "int \<Rightarrow> bool \<Rightarrow> write_outcome res \<times> mux \<Rightarrow> session \<Rightarrow> proxy_phase \<times> session" where
  "after_write now again x s =
     (case x of
        (Inl e, M) \<Rightarrow> proxy_finish (Some e) (s\<lparr>smux := M\<rparr>)
      | (Inr WriteDone, M) \<Rightarrow> (Check, s\<lparr>smux := M, stimer := (if again then reschedule now (stimer s) else stimer s)\<rparr>)
      | (Inr (WriteWaits m f q), M) \<Rightarrow> (Writing again m f q, s\<lparr>smux := M\<rparr>))"

fun proxy_loop :: "int \<Rightarrow> proxy_phase \<Rightarrow> session \<Rightarrow> proxy_phase \<times> session" where
  "proxy_loop now (SendHello d) s = after_write now False (with_channel (sref s) (write_start d) (smux s)) s"
| "proxy_loop now Check s =
     (if closing (mobjs (smux s) (sref s)) then proxy_finish None s
      else case pause_future (sflow s) of Some f \<Rightarrow> (Paused f, s) | None \<Rightarrow> (AwaitData, s))"
| "proxy_loop now (Paused f) s = (if ffuts (sflow s) f = FPending then (Paused f, s) else (AwaitData, s))"
| "proxy_loop now AwaitData s =
     (if chunks (srd s) = [] \<and> ending (srd s) = Stall then (AwaitData, s)
      else case read 8192 (srd s) of
             (Inl e, r) \<Rightarrow> proxy_finish (Some e) (s\<lparr>srd := r\<rparr>)
           | (Inr d, r) \<Rightarrow> after_write now True (with_channel (sref s) (write_start d) (smux s)) (s\<lparr>srd := r\<rparr>))"
| "proxy_loop now (Writing again m f q) s = after_write now again (with_channel (sref s) (write_resume m q) (smux s)) s"
| "proxy_loop now (ProxyEnded x) s = (ProxyEnded x, s)"

text \<open>The five seconds of a waiting write are over; or the session timed out and the task is cancelled.\<close>

fun proxy_write_timeout :: "proxy_phase \<Rightarrow> session \<Rightarrow> proxy_phase \<times> session" where
  "proxy_write_timeout (Writing again m f q) s =
     after_write 0 again (with_channel (sref s) (write_timeout f q) (smux s)) s"
| "proxy_write_timeout p s = (p, s)"

fun proxy_cancel :: "proxy_phase \<Rightarrow> session \<Rightarrow> proxy_phase \<times> session" where
  "proxy_cancel (ProxyEnded x) s = (ProxyEnded x, s)"
| "proxy_cancel (Writing again m f q) s =
     proxy_finish (Some CancelledError)
       (s\<lparr>smux := set_queue (put_cancel (mqueue (smux s)) (chid (mobjs (smux s) (sref s))) q f) (smux s)\<rparr>)"
| "proxy_cancel p s = proxy_finish (Some CancelledError) s"

datatype peer_phase = PeerCheck | PeerAwait | PeerEnded "exn option"

definition peer_caught :: "exn \<Rightarrow> bool" where
  "peer_caught e \<longleftrightarrow> catches MultiplexerTransportClose e \<or> catches MultiplexerTransportError e \<or> catches OSError e \<or>
     catches RuntimeError e"

definition peer_finish :: "exn option \<Rightarrow> session \<Rightarrow> peer_phase \<times> session" where
  "peer_finish x s =
     (PeerEnded (case x of None \<Rightarrow> None | Some e \<Rightarrow> if peer_caught e then None else Some e), s\<lparr>swclosed := True\<rparr>)"

text \<open>\<open>drained\<close> is the outcome of \<open>drain\<close>; a closed transport drops what is written to it.\<close>

fun peer_loop :: "int \<Rightarrow> unit res \<Rightarrow> peer_phase \<Rightarrow> session \<Rightarrow> peer_phase \<times> session" where
  "peer_loop now drained PeerCheck s = (if swclosed s then peer_finish None s else (PeerAwait, s))"
| "peer_loop now drained PeerAwait s =
     (case with_channel (sref s) read_chan (smux s) of
        (Inl e, M) \<Rightarrow> peer_finish (Some e) (s\<lparr>smux := M\<rparr>)
      | (Inr ReadWaits, M) \<Rightarrow> (PeerAwait, s)
      | (Inr (ReadData d), M) \<Rightarrow>
          (case (if swclosed s then Inr (swr s) else writer_write d (swr s)) of
             Inl e \<Rightarrow> peer_finish (Some e) (s\<lparr>smux := M\<rparr>)
           | Inr w \<Rightarrow>
               (case drained of
                  Inl e \<Rightarrow> peer_finish (Some e) (s\<lparr>smux := M, swr := w\<rparr>)
                | Inr _ \<Rightarrow> (PeerCheck, s\<lparr>smux := M, swr := w, stimer := reschedule now (stimer s)\<rparr>))))"
| "peer_loop now drained (PeerEnded x) s = (PeerEnded x, s)"

text \<open>\<^verbatim>\<open>except CancelledError\<close> of \<open>_peer_loop\<close>, then its \<^verbatim>\<open>finally\<close> block.\<close>

fun peer_cancel :: "peer_phase \<Rightarrow> session \<Rightarrow> peer_phase \<times> session" where
  "peer_cancel (PeerEnded x) s = (PeerEnded x, s)"
| "peer_cancel p s = peer_finish (Some CancelledError) (s\<lparr>swr := (swr s)\<lparr>at_eof := True\<rparr>\<rparr>)"

text \<open>The \<^verbatim>\<open>finally\<close> block of \<open>start\<close>, when the proxy task is done.\<close>

definition session_end :: "peer_phase \<Rightarrow> session \<Rightarrow> peer_phase \<times> session" where
  "session_end p s = peer_cancel p (s\<lparr>stimer := cancel_timeout (stimer s)\<rparr>)"

section \<open>Visitors reach the device they name\<close>

text \<open>The address a session is opened for: the PROXY header's if it has one, then the given one, then the socket's.\<close>

definition shown_source :: "proxy_header option \<Rightarrow> ip_address option \<Rightarrow> ip_address option \<Rightarrow> ip_address option" where
  "shown_source hdr given peername =
     (case hdr of Some h \<Rightarrow> (case source h of Some a \<Rightarrow> Some a | None \<Rightarrow> (case given of Some a \<Rightarrow> Some a | None \<Rightarrow> peername))
      | None \<Rightarrow> (case given of Some a \<Rightarrow> Some a | None \<Rightarrow> peername))"

lemma proxy_peer_source:
  "proxy_peer p d (case hdr of None \<Rightarrow> a | Some h \<Rightarrow> (case source h of None \<Rightarrow> a | Some x \<Rightarrow> Some x)) pn =
     (case shown_source hdr a pn of None \<Rightarrow> SniClosed | Some x \<Rightarrow> SniProxied p d x)"
  by (simp add: proxy_peer_def shown_source_def split: option.split)

lemma available_iff: "peer_available M h \<longleftrightarrow> (\<exists>p. get_peer M h = Some p \<and> is_ready (pobjs M p))"
  by (simp add: peer_available_def get_peer_def split: option.split)

lemma ready_mux: "is_ready p \<Longrightarrow> pmux p \<noteq> None"
  by (auto simp: is_ready_def split: option.splits)

lemma visitor_session:
  assumes "reader_ok r" and "if pp then parse_proxy_protocol_header (take MAX_HEADER_SIZE (pending r)) = Inr hdr else hdr = None"
    and "strip_header hdr (pending r) = encode_hello ch @ rest" and "hello_ok ch"
    and "extensions ch = xs @ (0, sni_body (ns @ (0, host) # ms)) # ys"
    and "\<forall>x \<in> set xs. fst x \<noteq> 0" and "\<forall>x \<in> set ns. fst x \<noteq> 0"
    and "list_all name_ok (ns @ [(0, host)])" and "decode_utf8 host = Inr h"
    and "get_peer M h = Some p" and "is_ready (pobjs M p)" and "shown_source hdr None peername = Some a"
  shows "\<exists>hello r'. sni_handle_connection M pp peername None None None r = (SniProxied p hello a, r') \<and>
    parse_tls_sni hello = Inr h \<and> hello @ pending r' = encode_hello ch @ rest"
proof -
  let ?w = "encode_hello ch @ rest"
  obtain left r1 where l: "reader_ok r1" "left @ pending r1 = ?w"
    and rd: "sni_read pp None None r = (case payload_reader r1 left of (Inl e, r2) \<Rightarrow> (Inl e, r2)
      | (Inr d, r2) \<Rightarrow> (Inr (d, case hdr of None \<Rightarrow> None | Some h \<Rightarrow> (case source h of None \<Rightarrow> None | Some x \<Rightarrow> Some x)), r2))"
  proof (cases pp)
    case True
    with read_proxy_answer [OF assms(1), of hdr] assms(2,3) obtain left r1 where
      "read_proxy_protocol_header r = (Inr (hdr, left), r1)" "reader_ok r1" "left @ pending r1 = ?w" by auto
    with True that [of r1 left] show ?thesis by (simp add: sni_read_def cong: option.case_cong)
  next
    case False
    with assms(2,3) have "hdr = None" "pending r = ?w" by (simp_all add: strip_header_def)
    with False assms(1) show ?thesis
      by (intro that [of r "[]"]) (auto simp: sni_read_def split: prod.split sum.split)
  qed
  have "5 < length ?w" and "unat (?w ! 0) = 0x16" and "unat (?w ! 5) = 1"
    using assms(4) by (simp_all add: encode_hello_def encode_hello_body_def to_bytes_be_2)
  then obtain d r2 where d: "payload_reader r1 left = (Inr (Some d), r2)"
      and len: "length (encode_hello ch) \<le> length d" and whole: "d @ pending r2 = ?w"
    using payload_reader_whole [OF l(1) l(2) [symmetric]] tls_size_encode [OF assms(4), of rest]
    by (fastforce simp: tls_consts)
  from prefix_longer [OF whole len] obtain rest' where "d = encode_hello ch @ rest'" by blast
  with parse_encode_hello [OF assms(4-9)] have sni: "parse_tls_sni d = Inr h" by simp
  then have "d \<noteq> []" by (auto simp: parse_tls_sni_def tls_consts)
  with rd d sni assms(10-12) ready_mux [OF assms(11)] whole show ?thesis
    by (auto simp: sni_handle_connection_def sni_route_def sni_hostname_def available_iff proxy_peer_source)
qed

text \<open>
  C5: A visitor reaches the device it names: when a TLS client connects, directly or behind a trusted proxy that
  prepends its header, and its ClientHello arrives in whatever pieces, the handler reads the whole hello,
  opens a session with the device that is registered and ready for the SNI host name, under the source
  address of the proxy header or of the socket, and loses no byte of the client's stream.
\<close>
theorem visitor_reaches_device:
  assumes "reader_ok r" and "if pp then parse_proxy_protocol_header (take MAX_HEADER_SIZE (pending r)) = Inr hdr else hdr = None"
    and "strip_header hdr (pending r) = encode_hello ch @ rest" and "hello_ok ch"
    and "extensions ch = xs @ (0, sni_body (ns @ (0, host) # ms)) # ys"
    and "\<forall>x \<in> set xs. fst x \<noteq> 0" and "\<forall>x \<in> set ns. fst x \<noteq> 0"
    and "list_all name_ok (ns @ [(0, host)])" and "decode_utf8 host = Inr h"
    and "get_peer M h = Some p" and "is_ready (pobjs M p)" and "shown_source hdr None peername = Some a"
  shows "\<exists>hello r'. sni_handle_connection M pp peername None None None r = (SniProxied p hello a, r') \<and>
    parse_tls_sni hello = Inr h \<and> hello @ pending r' = encode_hello ch @ rest"
  using visitor_session [OF assms] .

text \<open>
  C8: No visitor reaches another device: whatever a client sends, the session is opened with a ready peer that the registry
  routes the host name to; the host name is the one the parser finds in the bytes that are
  then forwarded, unless the accepting process has already read it, and it is one of the names in the token of that peer.
\<close>
theorem visitor_reaches_only_its_device:
  assumes "man_step\<^sup>*\<^sup>* (new_manager cb) M"
    and "sni_handle_connection M pp peername data sni given r = (SniProxied p hello a, r')"
  shows "\<exists>h. (sni = None \<longrightarrow> parse_tls_sni hello = Inr h) \<and> (\<forall>h'. sni = Some h' \<longrightarrow> h = h') \<and>
    get_peer M h = Some p \<and> is_ready (pobjs M p) \<and> h \<in> set (all_hostnames (pobjs M p)) \<and>
    (data \<noteq> None \<or> \<not> pp \<longrightarrow> hello @ pending r' = (case data of None \<Rightarrow> [] | Some d \<Rightarrow> d) @ pending r)"
proof -
  have "route_ok M" using assms(1) by (induction rule: rtranclp_induct) (auto intro: route_ok_step)
  obtain adr where rd: "sni_read pp data given r = (Inr (Some hello, adr), r')" and rt: "sni_route M peername sni hello adr = SniProxied p hello a"
    using assms(2) by (auto simp: sni_handle_connection_def sni_route_def proxy_peer_def
      split: prod.splits sum.splits option.splits if_splits)
  then obtain h where h: "sni_hostname sni hello = Inr h" "get_peer M h = Some p" "is_ready (pobjs M p)"
    by (auto simp: sni_route_def available_iff proxy_peer_def split: sum.splits option.splits if_splits)
  moreover have "hello @ pending r' = (case data of None \<Rightarrow> [] | Some d \<Rightarrow> d) @ pending r" if "data \<noteq> None \<or> \<not> pp"
    using rd that payload_reader_result [of r "case data of None \<Rightarrow> [] | Some d \<Rightarrow> d" hello r']
    by (auto simp: sni_read_def split: prod.splits sum.splits)
  ultimately show ?thesis using \<open>route_ok M\<close> by (auto simp: sni_hostname_def route_ok_def split: option.splits)
qed

section \<open>The session forwards the stream\<close>

text \<open>What the proxy loop still holds or has to read.\<close>

fun todo :: "proxy_phase \<Rightarrow> session \<Rightarrow> bytes" where
  "todo (SendHello d) s = d @ pending (srd s)"
| "todo (Writing _ m _ _) s = mdata m @ pending (srd s)"
| "todo _ s = pending (srd s)"

abbreviation chan_of :: "session \<Rightarrow> channel_id" where
  "chan_of s \<equiv> chid (mobjs (smux s) (sref s))"

text \<open>The channel of the session is registered; a suspended write holds the message of its data and the channel's queue object.\<close>

definition linked :: "session \<Rightarrow> bool" where
  "linked s \<longleftrightarrow> mcq_inv (mqueue (smux s)) \<and> channels (mqueue (smux s)) (chan_of s) = Some (sref s)"

definition write_ok :: "proxy_phase \<Rightarrow> session \<Rightarrow> bool" where
  "write_ok p s \<longleftrightarrow> (case p of Writing _ m f q \<Rightarrow> q = sref s \<and> mdata m \<noteq> [] \<and> m = data_message (chan_of s) (mdata m) | _ \<Rightarrow> True)"

definition ended :: "proxy_phase \<Rightarrow> bool" where
  "ended p \<longleftrightarrow> (case p of ProxyEnded _ \<Rightarrow> True | _ \<Rightarrow> False)"

lemma ended_finish [simp]: "ended (fst (proxy_finish x s))"
  by (simp add: ended_def proxy_finish_def)

text \<open>What a turn takes from the stream it puts into the queue of its channel, in order, as one DATA message.\<close>

definition moves :: "bytes \<Rightarrow> session \<Rightarrow> proxy_phase \<times> session \<Rightarrow> bytes list \<Rightarrow> bool" where
  "moves before s x es \<longleftrightarrow> (case x of (p', s') \<Rightarrow>
     before = concat es @ todo p' s' \<and> [] \<notin> set es \<and> chan_of s' = chan_of s \<and> write_ok p' s' \<and>
     contents (mqueue (smux s')) (chan_of s) =
       contents (mqueue (smux s)) (chan_of s) @ map (\<lambda>d. Some (data_message (chan_of s) d)) es)"

lemma after_write_moves:
  assumes "after_write now again (with_channel (sref s) f (smux s)) s = (p', s')" and "\<not> ended p'"
    and w: "\<And>x q' c'. f (mqueue (smux s), mobjs (smux s) (sref s)) = (Inr x, (q', c')) \<Longrightarrow>
      d \<noteq> [] \<and> contents q' (chan_of s) = contents (mqueue (smux s)) (chan_of s) @
        (case x of WriteDone \<Rightarrow> [Some (data_message (chan_of s) d)] | _ \<Rightarrow> []) \<and>
      (\<forall>m f k. x = WriteWaits m f k \<longrightarrow> m = data_message (chan_of s) d \<and> k = sref s) \<and> chid c' = chan_of s"
  shows "\<exists>es. moves (d @ pending (srd s)) s (p', s') es"
proof -
  obtain x M where x: "with_channel (sref s) f (smux s) = (x, M)" by fastforce
  with assms(1,2) obtain y where y: "x = Inr y" by (cases x) (auto simp: after_write_def ended_def proxy_finish_def)
  from w [OF with_channel_fields [OF x [unfolded y]]] have c: "d \<noteq> []" "chid (mobjs M (sref s)) = chan_of s"
    "contents (mqueue M) (chan_of s) = contents (mqueue (smux s)) (chan_of s) @
        (case y of WriteDone \<Rightarrow> [Some (data_message (chan_of s) d)] | _ \<Rightarrow> [])"
    "\<And>m f k. y = WriteWaits m f k \<Longrightarrow> m = data_message (chan_of s) d \<and> k = sref s" by blast+
  show ?thesis
  proof (cases y)
    case WriteDone
    with assms(1) x y c show ?thesis by (intro exI [of _ "[d]"]) (auto simp: after_write_def moves_def write_ok_def)
  next
    case (WriteWaits m f k)
    with assms(1) x y c show ?thesis by (intro exI [of _ "[]"]) (auto simp: after_write_def moves_def write_ok_def)
  qed
qed

lemma proxy_turn_moves:
  assumes l: "linked s" and w: "write_ok p s" and t: "proxy_loop now p s = (p', s')" and e: "\<not> ended p'"
  shows "\<exists>es. moves (todo p s) s (p', s') es"
proof (cases p)
  case (SendHello d)
  have "\<exists>es. moves (d @ pending (srd s)) s (p', s') es"
    using t e l SendHello
    by (intro after_write_moves [where now = now and again = False and f = "write_start d"])
      (auto simp: linked_def dest: write_start_contents)
  with SendHello show ?thesis by simp
next
  case Check
  with t e show ?thesis by (intro exI [of _ "[]"]) (auto simp: moves_def write_ok_def proxy_finish_def ended_def split: if_splits option.splits)
next
  case (Paused f)
  with t show ?thesis by (intro exI [of _ "[]"]) (auto simp: moves_def write_ok_def split: if_splits)
next
  case AwaitData
  show ?thesis
  proof (cases "chunks (srd s) = [] \<and> ending (srd s) = Stall")
    case True
    with AwaitData t show ?thesis by (intro exI [of _ "[]"]) (auto simp: moves_def write_ok_def)
  next
    case False
    obtain x r where r: "read 8192 (srd s) = (x, r)" by fastforce
    with AwaitData t e False obtain d where d: "x = Inr d"
      and a: "after_write now True (with_channel (sref s) (write_start d) (smux s)) (s\<lparr>srd := r\<rparr>) = (p', s')"
      by (cases x) (auto simp: proxy_finish_def ended_def)
    have "\<exists>es. moves (d @ pending (srd (s\<lparr>srd := r\<rparr>))) (s\<lparr>srd := r\<rparr>) (p', s') es"
      using a e l by (intro after_write_moves [where now = now and again = True and f = "write_start d"])
        (auto simp: linked_def dest: write_start_contents split: write_outcome.splits)
    with AwaitData read_pending [of 8192 "srd s" d r] r d show ?thesis by (simp add: moves_def)
  qed
next
  case (Writing again m f q)
  with w have w: "q = sref s" "mdata m \<noteq> []" "m = data_message (chan_of s) (mdata m)" by (auto simp: write_ok_def)
  from t Writing have "after_write now again (with_channel (sref s) (write_resume m q) (smux s)) s = (p', s')" by simp
  then have "\<exists>es. moves (mdata m @ pending (srd s)) s (p', s') es" using e
  proof (rule after_write_moves)
    fix x q' c' assume "write_resume m q (mqueue (smux s), mobjs (smux s) (sref s)) = (Inr x, (q', c'))"
    from write_resume_contents [OF _ _ this [unfolded w(1)]] l w(2)
    show "mdata m \<noteq> [] \<and> contents q' (chan_of s) = contents (mqueue (smux s)) (chan_of s) @
        (case x of WriteDone \<Rightarrow> [Some (data_message (chan_of s) (mdata m))] | _ \<Rightarrow> []) \<and>
      (\<forall>m' f k. x = WriteWaits m' f k \<longrightarrow> m' = data_message (chan_of s) (mdata m) \<and> k = sref s) \<and> chid c' = chan_of s"
      unfolding w(3) [symmetric] by (simp add: linked_def)
  qed
  with Writing show ?thesis by simp
next
  case (ProxyEnded x)
  with t e show ?thesis by (auto simp: ended_def)
qed

text \<open>
  A session as it runs: turns of its loop, between which everything else (the writer of the multiplexer,
  other channels, the pause callback, the timeout) may happen.
\<close>

inductive forwards :: "proxy_phase \<times> session \<Rightarrow> bytes list \<Rightarrow> proxy_phase \<times> session \<Rightarrow> bool" for start where
  fwd_start: "forwards start [] start"
| fwd_turn: "forwards start ds (p, s) \<Longrightarrow> linked s \<Longrightarrow> proxy_loop now p s = (p', s') \<Longrightarrow> \<not> ended p' \<Longrightarrow>
    contents (mqueue (smux s')) (chan_of s) =
      contents (mqueue (smux s)) (chan_of s) @ map (\<lambda>d. Some (data_message (chan_of s) d)) es \<Longrightarrow>
    forwards start (ds @ es) (p', s')"
| fwd_others: "forwards start ds (p, s) \<Longrightarrow> chan_of (s\<lparr>smux := M\<rparr>) = chan_of s \<Longrightarrow>
    forwards start ds (p, s\<lparr>smux := M, sflow := fl, stimer := t, swr := w, swclosed := b\<rparr>)"

lemma todo_others: "todo p (s\<lparr>smux := M, sflow := fl, stimer := t, swr := w, swclosed := b\<rparr>) = todo p s"
  by (cases p) simp_all

definition forward_inv :: "proxy_phase \<times> session \<Rightarrow> bytes list \<Rightarrow> proxy_phase \<times> session \<Rightarrow> bool" where
  "forward_inv x ds y \<longleftrightarrow> todo (fst x) (snd x) = concat ds @ todo (fst y) (snd y) \<and> [] \<notin> set ds \<and> write_ok (fst y) (snd y)"

lemma forwards_inv: "forwards x ds y \<Longrightarrow> write_ok (fst x) (snd x) \<Longrightarrow> forward_inv x ds y"
proof (induction rule: forwards.induct)
  case fwd_start
  then show ?case by (simp add: forward_inv_def)
next
  case (fwd_turn ds p s now p' s' es)
  then have i: "forward_inv x ds (p, s)" by blast
  with proxy_turn_moves [OF fwd_turn.hyps(2) _ fwd_turn.hyps(3,4)] obtain es' where m: "moves (todo p s) s (p', s') es'"
    by (auto simp: forward_inv_def)
  then have "es' = es" using fwd_turn.hyps(5) by (auto simp: moves_def dest: data_messages_inj)
  with m i show ?case by (simp add: moves_def forward_inv_def)
next
  case (fwd_others ds p s M)
  have "write_ok p (s\<lparr>smux := M, sflow := fl, stimer := t, swr := w, swclosed := b\<rparr>) = write_ok p s" for fl t w b
    unfolding write_ok_def using fwd_others.hyps(2) by (simp split: proxy_phase.split)
  with fwd_others show ?case using todo_others by (simp add: forward_inv_def)
qed


text \<open>A turn that goes on always has such an account, so that the relation follows every run of the loop.\<close>

lemma forwards_progress:
  assumes "forwards x ds (p, s)" and "write_ok (fst x) (snd x)" and "linked s" and "proxy_loop now p s = (p', s')" and "\<not> ended p'"
  shows "\<exists>es. forwards x (ds @ es) (p', s')"
proof -
  have "write_ok p s" using forwards_inv [OF assms(1,2)] by (simp add: forward_inv_def)
  from proxy_turn_moves [OF assms(3) this assms(4,5)] fwd_turn [OF assms(1,3-5)] show ?thesis by (auto simp: moves_def)
qed

section \<open>The end of a session\<close>

lemma proxy_finish_unregisters:
  "map_of (mchannels (smux (snd (proxy_finish x s)))) (chan_of s) = None"
  by (auto simp: proxy_finish_def mux_delete_channel_def delete_channel_and_queue_def set_queue_def Let_def delete_conv'
    split: sum.split)

lemma session_end_result:
  "session_end p s = (p', s') \<Longrightarrow> rtimer (stimer s') = None \<and> (swclosed s' \<or> (\<exists>x. p = PeerEnded x \<and> s' = s\<lparr>stimer := cancel_timeout (stimer s)\<rparr>))"
  by (cases p) (auto simp: session_end_def cancel_timeout_def peer_finish_def)

section \<open>Witnesses\<close>

text \<open>A registry with one connected device, whose host name the example hello asks for.\<close>

definition sni_manager :: manager where
  "sni_manager = (let M1 = snd (alloc_peer (demo_peer 97 []) (new_manager True));
      M2 = M1\<lparr>pobjs := (pobjs M1)(0 := (pobjs M1 0)\<lparr>pmux := Some demo_server\<rparr>)\<rparr> in snd (add_peer 0 M2))"

lemma sni_manager_reached: "man_step\<^sup>*\<^sup>* (new_manager True) sni_manager"
proof -
  let ?M1 = "snd (alloc_peer (demo_peer 97 []) (new_manager True))"
  let ?M2 = "?M1\<lparr>pobjs := (pobjs ?M1)(0 := (pobjs ?M1 0)\<lparr>pmux := Some demo_server\<rparr>)\<rparr>"
  have "man_step\<^sup>*\<^sup>* (new_manager True) ?M1" by (intro reach_create rtranclp.rtrancl_refl)
  then have "man_step\<^sup>*\<^sup>* (new_manager True) ?M2" using man_mux by (rule rtranclp.rtrancl_into_rtrancl)
  moreover have "0 < pnext ?M2" by (simp add: alloc_peer_def new_manager_def)
  ultimately have "man_step\<^sup>*\<^sup>* (new_manager True) (snd (add_peer 0 ?M2))" by (rule reach_add)
  then show ?thesis by (simp add: sni_manager_def Let_def)
qed

lemma sni_manager_ready: "get_peer sni_manager [97] = Some 0" "is_ready (pobjs sni_manager 0)"
  by (simp_all add: sni_manager_def Let_def manager_eval demo_server_def new_mux_def is_connected_def)

definition demo_visitor :: reader where
  "demo_visitor = \<lparr>chunks = [take 3 (encode_hello example_hello), drop 3 (encode_hello example_hello), [1, 2]], ending = Eof\<rparr>"

lemma demo_visitor_ok: "reader_ok demo_visitor" "pending demo_visitor = encode_hello example_hello @ [1, 2]"
  by (simp_all add: demo_visitor_def reader_ok_def pending_def encode_hello_def encode_hello_body_def)

theorem visitor_reaches_device_witness:
  "\<exists>hello r'. sni_handle_connection sni_manager False (Some (IPv4Address 5)) None None None demo_visitor =
     (SniProxied 0 hello (IPv4Address 5), r') \<and> hello @ pending r' = encode_hello example_hello @ [1, 2]"
proof -
  have "strip_header None (pending demo_visitor) = encode_hello example_hello @ [1, 2]"
    by (simp add: strip_header_def demo_visitor_ok(2))
  from visitor_reaches_device [OF demo_visitor_ok(1) _ this example_hello_fields(1,2) _ _ example_hello_fields(3,4)
      sni_manager_ready, of False "Some (IPv4Address 5)" "IPv4Address 5"]
  show ?thesis by (auto simp: shown_source_def)
qed

theorem visitor_reaches_only_its_device_witness:
  "[97] \<in> set (all_hostnames (pobjs sni_manager 0)) \<and>
   (\<exists>hello a r'. sni_handle_connection sni_manager False (Some (IPv4Address 5)) None None None demo_visitor = (SniProxied 0 hello a, r') \<and>
      parse_tls_sni hello = Inr [97])"
proof -
  have "strip_header None (pending demo_visitor) = encode_hello example_hello @ [1, 2]"
    by (simp add: strip_header_def demo_visitor_ok(2))
  from visitor_session [OF demo_visitor_ok(1) _ this example_hello_fields(1,2) _ _ example_hello_fields(3,4)
      sni_manager_ready, of False "Some (IPv4Address 5)" "IPv4Address 5"]
  obtain hello r' where v: "sni_handle_connection sni_manager False (Some (IPv4Address 5)) None None None demo_visitor =
     (SniProxied 0 hello (IPv4Address 5), r')" "parse_tls_sni hello = Inr [97]" by (auto simp: shown_source_def)
  from visitor_reaches_only_its_device [OF sni_manager_reached v(1)] v show ?thesis by auto
qed

definition demo_session :: session where
  "demo_session = \<lparr>smux = demo_open_mux, sref = 0, srd = \<lparr>chunks = [[3]], ending = Stall\<rparr>, swr = \<lparr>sent = [], at_eof = False\<rparr>,
     swclosed = False, sflow = new_flow_control, stimer = new_ranged_timeout 1 90 120\<rparr>"

lemma demo_session_linked: "linked demo_session"
  using registered_facts [OF demo_open_inv demo_open_channel(1)] by (simp add: linked_def demo_session_def)


end
