(* ===== verification/Lifecycle.thy ===== *)
theory Lifecycle
  imports Server SniListener AddressText
begin

text \<open>
  Starting and stopping: the asyncio listeners of \<^verbatim>\<open>snitun/server/listener_sni.py\<close>,
  \<^verbatim>\<open>listener_peer.py\<close> and \<^verbatim>\<open>run.py\<close>, the child process of \<^verbatim>\<open>worker.py\<close>, and the server with worker processes of
  \<^verbatim>\<open>run.py\<close>, its thread, sockets and workers. What the operating system does (binding, whether a process ends
  in time) is an argument.
\<close>

section \<open>Listeners\<close>

text \<open>An asyncio server: where it listens, and whether it was started and is still open.\<close>

record listener =
  l_host :: "pystr list option"
  l_port :: nat
  l_server :: "bool option"

text \<open>\<^verbatim>\<open>port or 443\<close>: zero and \<open>None\<close> give the default.\<close>

definition port_or :: "nat \<Rightarrow> nat option \<Rightarrow> nat" where
  "port_or d p = (case p of None \<Rightarrow> d | Some n \<Rightarrow> if n = 0 then d else n)"

definition new_sni_proxy :: "hosts \<Rightarrow> nat option \<Rightarrow> listener" where
  "new_sni_proxy h p = \<lparr>l_host = normalize_hosts h, l_port = port_or 443 p, l_server = None\<rparr>"

definition new_peer_listener :: "hosts \<Rightarrow> nat option \<Rightarrow> listener" where
  "new_peer_listener h p = \<lparr>l_host = normalize_hosts h, l_port = port_or 8080 p, l_server = None\<rparr>"

definition new_single_server :: "hosts \<Rightarrow> nat option \<Rightarrow> listener" where
  "new_single_server h p = \<lparr>l_host = normalize_hosts h, l_port = port_or 443 p, l_server = None\<rparr>"

text \<open>\<open>bound\<close> is the outcome of \<open>start_server\<close>.\<close>

definition listener_start :: "unit res \<Rightarrow> listener \<Rightarrow> unit res \<times> listener" where
  "listener_start bound l = (case bound of Inl e \<Rightarrow> (Inl e, l) | Inr _ \<Rightarrow> (Inr (), l\<lparr>l_server := Some True\<rparr>))"

definition listener_stop :: "listener \<Rightarrow> unit res \<times> listener" where
  "listener_stop l = (case l_server l of None \<Rightarrow> (Inl AssertionError, l) | Some _ \<Rightarrow> (Inr (), l\<lparr>l_server := Some False\<rparr>))"

text \<open>The peer listener and the single-port server start and stop their asyncio server in the same way.\<close>

definition peer_listener_start :: "unit res \<Rightarrow> listener \<Rightarrow> unit res \<times> listener" where
  "peer_listener_start = listener_start"

definition peer_listener_stop :: "listener \<Rightarrow> unit res \<times> listener" where "peer_listener_stop = listener_stop"

definition single_server_start :: "unit res \<Rightarrow> listener \<Rightarrow> unit res \<times> listener" where
  "single_server_start = listener_start"

definition single_server_stop :: "listener \<Rightarrow> unit res \<times> listener" where "single_server_stop = listener_stop"

text \<open>
  \<open>SniTunServer\<close>: both listeners. \<^verbatim>\<open>asyncio.wait\<close> waits for the two tasks and raises nothing; their outcomes
  are in the tasks it returns.
\<close>

record dual_server =
  ds_sni :: listener
  ds_peer :: listener

definition new_dual_server :: "hosts \<Rightarrow> nat option \<Rightarrow> hosts \<Rightarrow> nat option \<Rightarrow> dual_server" where
  "new_dual_server sni_host sni_port peer_host peer_port =
     \<lparr>ds_sni = new_sni_proxy sni_host sni_port, ds_peer = new_peer_listener peer_host peer_port\<rparr>"

definition dual_start :: "unit res \<Rightarrow> unit res \<Rightarrow> dual_server \<Rightarrow> (unit res \<times> unit res) res \<times> dual_server" where
  "dual_start peer_bound sni_bound s =
     (case (peer_listener_start peer_bound (ds_peer s), listener_start sni_bound (ds_sni s)) of
        ((x, p), (y, n)) \<Rightarrow> (Inr (x, y), \<lparr>ds_sni = n, ds_peer = p\<rparr>))"

definition dual_stop :: "dual_server \<Rightarrow> (unit res \<times> unit res) res \<times> dual_server" where
  "dual_stop s =
     (case (peer_listener_stop (ds_peer s), listener_stop (ds_sni s)) of
        ((x, p), (y, n)) \<Rightarrow> (Inr (x, y), \<lparr>ds_sni = n, ds_peer = p\<rparr>))"

section \<open>The child process of a worker\<close>

text \<open>Its peer manager, the metrics task (and whether it is done) and its event loop.\<close>

record child =
  ch_peers :: "manager option"
  ch_metrics :: "bool option"
  ch_loop :: bool

definition new_child :: child where "new_child = \<lparr>ch_peers = None, ch_metrics = None, ch_loop = False\<rparr>"

definition child_init :: "child \<Rightarrow> child" where
  "child_init c = c\<lparr>ch_loop := True, ch_peers := Some (new_manager True), ch_metrics := Some False\<rparr>"

text \<open>After the request to stop: the metrics task is cancelled and awaited, the peers are closed, the loop ends.\<close>

definition child_stop :: "child \<Rightarrow> unit res \<times> child" where
  "child_stop c =
     (let c1 = (if ch_metrics c = Some False then c\<lparr>ch_metrics := Some True\<rparr> else c) in
      case ch_peers c1 of
        None \<Rightarrow> (Inl AssertionError, c1)
      | Some M \<Rightarrow>
          (case close_connections M of
             (Inl e, M1) \<Rightarrow> (Inl e, c1\<lparr>ch_peers := Some M1\<rparr>)
           | (Inr _, M1) \<Rightarrow> (Inr (), c1\<lparr>ch_peers := Some M1, ch_loop := False\<rparr>)))"

text \<open>\<open>run\<close> as a whole, on all that was put into its queue: what it started, and how it ended, if it did.\<close>

definition child_run :: "(nat \<Rightarrow> bool) \<Rightarrow> handover option list \<Rightarrow> child \<Rightarrow> started list \<times> unit res option \<times> child" where
  "child_run can_open queue c =
     (worker_run can_open queue,
      if None \<in> set queue then (case child_stop c of (x, c1) \<Rightarrow> (Some x, c1)) else (None, c))"

section \<open>The server with worker processes\<close>

datatype process_state = ProcessAlive | ProcessEnded | ProcessClosed

record process =
  pr_worker :: worker
  pr_state :: process_state

datatype thread_state = ThreadNew | ThreadRuns | ThreadEnded

text \<open>\<open>w_finished\<close> keeps the workers the list was cleared of, \<open>w_poller\<close> the sockets the poller watches while it is open.\<close>

record worker_server =
  w_hosts :: "pystr list option"
  w_port :: nat
  w_size :: nat
  w_workers :: "process list"
  w_finished :: "process list"
  w_running :: bool
  w_thread :: thread_state
  w_servers :: "(listen_socket \<times> bool) list"
  w_poller :: "listen_socket list option"

definition new_worker_server :: "nat \<Rightarrow> hosts \<Rightarrow> nat option \<Rightarrow> nat option \<Rightarrow> worker_server" where
  "new_worker_server cpu_count h p sz =
     \<lparr>w_hosts = normalize_hosts h, w_port = port_or 443 p, w_size = port_or (cpu_count * 2) sz, w_workers = [], w_finished = [],
      w_running = False, w_thread = ThreadNew, w_servers = [], w_poller = None\<rparr>"

definition start_process :: process where "start_process = \<lparr>pr_worker = new_worker, pr_state = ProcessAlive\<rparr>"

text \<open>A thread can be started only once.\<close>

definition server_start ::
    "(pystr option \<Rightarrow> addrinfo list res) \<Rightarrow> (addrinfo \<Rightarrow> unit res) \<Rightarrow> worker_server \<Rightarrow> unit res \<times> worker_server" where
  "server_start getaddrinfo bind s =
     (let s1 = s\<lparr>w_workers := w_workers s @ replicate (w_size s) start_process\<rparr> in
      case create_listen_sockets getaddrinfo bind (w_hosts s1) of
        (Inl e, _) \<Rightarrow> (Inl e, s1)
      | (Inr socks, _) \<Rightarrow>
          (let s2 = s1\<lparr>w_servers := map (\<lambda>x. (x, True)) socks, w_running := True, w_poller := Some socks\<rparr> in
           if w_thread s2 \<noteq> ThreadNew then (Inl RuntimeError, s2) else (Inr (), s2\<lparr>w_thread := ThreadRuns\<rparr>)))"

text \<open>
  \<open>shutdown\<close> of a worker waits ten seconds for its process; \<open>ends\<close> says whether it is enough. \<open>close\<close> refuses a
  process that still runs.
\<close>

definition process_shutdown :: "bool \<Rightarrow> process \<Rightarrow> process" where
  "process_shutdown ends p =
     p\<lparr>pr_worker := worker_shutdown (pr_worker p),
       pr_state := (if pr_state p = ProcessAlive \<and> ends then ProcessEnded else pr_state p)\<rparr>"

definition process_close :: "process \<Rightarrow> unit res \<times> process" where
  "process_close p = (if pr_state p = ProcessAlive then (Inl ValueError, p) else (Inr (), p\<lparr>pr_state := ProcessClosed\<rparr>))"

fun stop_workers :: "bool list \<Rightarrow> process list \<Rightarrow> unit res \<times> process list" where
  "stop_workers ends [] = (Inr (), [])"
| "stop_workers ends (p # ps) =
     (case process_close (process_shutdown (hd ends) p) of
        (Inl e, p1) \<Rightarrow> (Inl e, p1 # ps)
      | (Inr _, p1) \<Rightarrow> (case stop_workers (tl ends) ps of (x, ps1) \<Rightarrow> (x, p1 # ps1)))"

text \<open>The accept loop ends when \<open>_running\<close> is false; a thread that was not started cannot be joined.\<close>

definition server_stop :: "bool list \<Rightarrow> worker_server \<Rightarrow> unit res \<times> worker_server" where
  "server_stop ends s =
     (let s1 = s\<lparr>w_running := False\<rparr> in
      if w_thread s1 = ThreadNew then (Inl RuntimeError, s1)
      else let s2 = s1\<lparr>w_thread := ThreadEnded\<rparr> in
        case stop_workers ends (w_workers s2) of
          (Inl e, ps) \<Rightarrow> (Inl e, s2\<lparr>w_workers := ps\<rparr>)
        | (Inr _, ps) \<Rightarrow>
            (let s3 = s2\<lparr>w_workers := [], w_finished := w_finished s2 @ ps\<rparr> in
             if w_servers s3 = [] then (Inl AssertionError, s3)
             else let s4 = s3\<lparr>w_servers := map (\<lambda>(x, _). (x, False)) (w_servers s3)\<rparr> in
               if w_poller s4 = None then (Inl AssertionError, s4) else (Inr (), s4\<lparr>w_poller := None\<rparr>)))"

text \<open>Every turn of the accept loop sends itself a signal for each worker that has crashed.\<close>

definition crash_signals :: "worker_server \<Rightarrow> nat" where
  "crash_signals s = length (filter (\<lambda>p. pr_state p \<noteq> ProcessAlive) (w_workers s))"

text \<open>The thread: the accept loop on the workers' queues. An exception ends the thread.\<close>

definition loop_state :: "bool \<Rightarrow> worker_server \<Rightarrow> server" where
  "loop_state proxy s = \<lparr>sproxy = proxy, sworkers = map pr_worker (w_workers s), worker_lb = 0, finished = []\<rparr>"

definition server_run :: "bool \<Rightarrow> event list list \<Rightarrow> worker_server \<Rightarrow> unit res \<times> conns \<times> worker_server" where
  "server_run proxy turns s =
     (if w_servers s = [] \<or> w_poller s = None then (Inl AssertionError, [], s\<lparr>w_thread := ThreadEnded\<rparr>)
      else case run turns ([], loop_state proxy s) of
        (x, cs, sv) \<Rightarrow>
          (x, cs, s\<lparr>w_workers := map2 (\<lambda>p w. p\<lparr>pr_worker := w\<rparr>) (w_workers s) (sworkers sv),
                    w_thread := (case x of Inl _ \<Rightarrow> ThreadEnded | Inr _ \<Rightarrow> w_thread s)\<rparr>))"

section \<open>The accept loop only appends connections\<close>

definition hands :: "server \<Rightarrow> server \<Rightarrow> bool" where
  "hands s s' \<longleftrightarrow> list_all2 (\<lambda>W W'. \<exists>hs. wnew W' = wnew W @ map Some hs) (sworkers s) (sworkers s')"

lemma hands_refl [simp]: "hands s s"
  by (auto simp: hands_def intro!: list_all2_refl exI [of _ "[]"])

lemma hands_trans: "hands a b \<Longrightarrow> hands b c \<Longrightarrow> hands a c"
  unfolding hands_def by (rule list_all2_trans) (auto, metis append.assoc map_append)

lemma hands_fields [simp]: "hands s (s'\<lparr>worker_lb := n\<rparr>) = hands s s'" "hands s (s'\<lparr>finished := cs\<rparr>) = hands s s'"
  "hands (s\<lparr>finished := cs\<rparr>) s' = hands s s'"
  by (simp_all add: hands_def)

lemma hands_handover: "hands s (handover_to i con data sni addr s)"
proof -
  have "\<exists>hs. wnew (sworkers (handover_to i con data sni addr s) ! j) = wnew (sworkers s ! j) @ map Some hs"
    if "j < length (sworkers s)" for j
    using that by (cases "j = i") (auto simp: handover_to_def handover_connection_def intro: exI [of _ "[]"] exI [of _ "[h]" for h])
  then show ?thesis by (simp add: hands_def list_all2_conv_all_nth handover_to_def)
qed

lemma hands_process: "hands s (snd (snd (process recv c s)))"
proof -
  have h: "hands s (snd (snd (process_hello c s)))" for c
    by (auto simp: process_hello_def hands_handover split: sum.split option.split)
  have b: "hands s (snd (snd (process_buffer c s)))" for c
    using h by (auto simp: process_buffer_def next_worker_def hands_handover)
  show ?thesis using b by (auto simp: process_def split: sum.split prod.split)
qed

lemma hands_event: "hands s (snd (snd (run_event e (cs, s))))"
proof (cases "(e, (cs, s))" rule: run_event.cases)
  case (3 fd recv cs' s')
  then show ?thesis
    using hands_process [of s recv "(the (map_of cs fd))\<lparr>c_stale := 0\<rparr>"]
    by (auto simp: finish_def split: option.split prod.split sum.split)
qed (auto simp: finish_def split: option.split)

lemma hands_events: "run_events es (cs, s) = (x, cs', s') \<Longrightarrow> hands s s'"
proof (induction es arbitrary: cs s)
  case (Cons e es)
  obtain y cs1 s1 where e: "run_event e (cs, s) = (y, cs1, s1)" by (metis prod_cases3)
  have "hands s s1" using hands_event [of s e cs] e by simp
  with Cons e show ?case by (cases y) (auto intro: hands_trans)
qed simp

lemma hands_cleanup: "hands s (snd (cleanup cs s))"
proof (induction cs s rule: cleanup.induct)
  case (2 fd c cs s)
  then show ?case by (auto simp: finish_def split: prod.split)
qed simp

lemma hands_turn: "run_turn es (cs, s) = (x, cs', s') \<Longrightarrow> hands s s'"
proof -
  assume t: "run_turn es (cs, s) = (x, cs', s')"
  obtain y cs1 s1 where e: "run_events es (cs, s) = (y, cs1, s1)" by (metis prod_cases3)
  from hands_events [OF e] hands_cleanup [of s1 cs1] t e show ?thesis
    by (cases y) (auto simp: run_turn_def intro: hands_trans)
qed

lemma hands_run: "run ts (cs, s) = (x, cs', s') \<Longrightarrow> hands s s'"
proof (induction ts arbitrary: cs s)
  case (Cons t ts)
  obtain y cs1 s1 where e: "run_turn t (cs, s) = (y, cs1, s1)" by (metis prod_cases3)
  with Cons hands_turn [OF e] show ?case by (cases y) (auto intro: hands_trans)
qed simp

section \<open>Stopping the server\<close>

text \<open>What \<open>start\<close> leaves: the workers alive, with empty queues, and the listening sockets open and watched.\<close>

lemma server_started:
  assumes "server_start gai bind (new_worker_server cpu h p sz) = (Inr (), s)"
  shows "w_workers s = replicate (w_size s) start_process" "w_finished s = []" "w_thread s = ThreadRuns" "w_servers s \<noteq> []"
    "w_poller s \<noteq> None" "w_running s" "\<forall>(k, open) \<in> set (w_servers s). open"
proof -
  obtain socks closed where k: "create_listen_sockets gai bind (normalize_hosts h) = (Inr socks, closed)"
    using assms by (auto simp: server_start_def new_worker_server_def Let_def split: prod.splits sum.splits)
  with assms create_listen_sockets_result [OF k]
  show "w_workers s = replicate (w_size s) start_process" "w_finished s = []" "w_thread s = ThreadRuns" "w_servers s \<noteq> []"
    "w_poller s \<noteq> None" "w_running s" "\<forall>(k, open) \<in> set (w_servers s). open"
    by (auto simp: server_start_def new_worker_server_def Let_def)
qed

text \<open>A worker while the server runs: alive, and its queue holds connections only.\<close>

definition serving :: "process \<Rightarrow> bool" where
  "serving p \<longleftrightarrow> pr_state p = ProcessAlive \<and> (\<exists>hs. wnew (pr_worker p) = map Some hs)"

lemma server_run_serving:
  assumes "\<forall>p \<in> set (w_workers s). serving p" and "server_run proxy turns s = (x, cs, s')"
  shows "(\<forall>p \<in> set (w_workers s'). serving p) \<and> length (w_workers s') = length (w_workers s) \<and>
    w_servers s' = w_servers s \<and> w_poller s' = w_poller s \<and> w_finished s' = w_finished s \<and>
    (w_thread s \<noteq> ThreadNew \<longrightarrow> w_thread s' \<noteq> ThreadNew)"
proof (cases "w_servers s = [] \<or> w_poller s = None")
  case True
  with assms show ?thesis by (auto simp: server_run_def)
next
  case False
  obtain y cs1 sv where r: "run turns ([], loop_state proxy s) = (y, cs1, sv)" by (metis prod_cases3)
  then have h: "list_all2 (\<lambda>W W'. \<exists>hs. wnew W' = wnew W @ map Some hs) (map pr_worker (w_workers s)) (sworkers sv)"
    using hands_run by (fastforce simp: hands_def loop_state_def)
  have "serving (p\<lparr>pr_worker := w\<rparr>)" if "(p, w) \<in> set (zip (w_workers s) (sworkers sv))" for p w
  proof -
    from that obtain i where i: "i < length (w_workers s)" "p = w_workers s ! i" "w = sworkers sv ! i"
      using list_all2_lengthD [OF h] by (auto simp: in_set_zip)
    with h obtain hs where "wnew w = wnew (pr_worker p) @ map Some hs" by (auto simp: list_all2_conv_all_nth)
    moreover have "serving p" using assms(1) i by simp
    ultimately show ?thesis by (auto simp: serving_def map_append [symmetric] simp del: map_append)
  qed
  with False r assms(2) list_all2_lengthD [OF h] show ?thesis
    by (cases x) (auto simp: server_run_def)
qed

lemma stop_workers_all:
  assumes "\<forall>p \<in> set ps. serving p" and "length ends = length ps" and "\<forall>b \<in> set ends. b"
  shows "\<exists>qs. stop_workers ends ps = (Inr (), qs) \<and> length qs = length ps \<and>
    (\<forall>q \<in> set qs. pr_state q = ProcessClosed \<and> (\<exists>hs. wnew (pr_worker q) = map Some hs @ [None]))"
  using assms
proof (induction ps arbitrary: ends)
  case (Cons p ps)
  then obtain b bs where e: "ends = b # bs" by (cases ends) auto
  with Cons.IH [of bs] Cons.prems obtain qs where "stop_workers bs ps = (Inr (), qs)" "length qs = length ps"
    "\<forall>q \<in> set qs. pr_state q = ProcessClosed \<and> (\<exists>hs. wnew (pr_worker q) = map Some hs @ [None])" by auto
  with e Cons.prems show ?case by (auto simp: process_close_def process_shutdown_def serving_def worker_shutdown_def)
qed simp


text \<open>
  C31: A failed start is not undone: when a listening socket cannot be bound, \<open>start\<close> raises with all worker processes already running, and
  \<open>stop\<close> cannot end them, because it first joins a thread that was never started and raises \<open>RuntimeError\<close>.
\<close>
theorem failed_start_leaves_workers:
  assumes "create_listen_sockets gai bind (normalize_hosts h) = (Inl e, closed)"
  shows "\<exists>s1. server_start gai bind (new_worker_server cpu h p sz) = (Inl e, s1) \<and> length (w_workers s1) = w_size s1 \<and>
    (\<forall>q \<in> set (w_workers s1). pr_state q = ProcessAlive) \<and>
    server_stop ends s1 = (Inl RuntimeError, s1)"
  using assms by (simp add: server_start_def new_worker_server_def start_process_def server_stop_def Let_def)

text \<open>
  A worker that does not end in time leaves the server listening: \<open>close\<close> of its process raises, the sockets stay open and the workers
  after it are not asked to stop.
\<close>

lemma slow_worker_stops_shutdown:
  assumes "w_thread s \<noteq> ThreadNew" and "w_workers s = q # qs" and "pr_state q = ProcessAlive" and "ends = False # es"
  shows "\<exists>s'. server_stop ends s = (Inl ValueError, s') \<and> w_servers s' = w_servers s \<and> tl (w_workers s') = qs"
  using assms by (simp add: server_stop_def process_close_def process_shutdown_def)

text \<open>A child that is asked to stop before any peer has connected stops its metrics task and its loop.\<close>

lemma child_ends:
  "None \<in> set queue \<Longrightarrow> \<exists>c. child_run can_open queue (child_init new_child) = (worker_run can_open queue, Some (Inr ()), c) \<and>
     \<not> ch_loop c \<and> ch_metrics c = Some True"
  by (simp add: child_run_def child_stop_def child_init_def close_connections_def iter_peers_def new_manager_def)

text \<open>\<open>SniTunServer.start\<close> returns even when neither listener could be bound.\<close>

lemma dual_start_hides_errors:
  "dual_start (Inl OSError) (Inl OSError) s = (Inr (Inl OSError, Inl OSError), s)"
  by (simp add: dual_start_def peer_listener_start_def listener_start_def)

section \<open>Witnesses\<close>

definition demo_resolve :: "pystr option \<Rightarrow> addrinfo list res" where "demo_resolve h = Inr [(AF_INET, [48]), (AF_INET6, [58])]"


theorem failed_start_leaves_workers_witness:
  "\<exists>s1. server_start demo_resolve (\<lambda>_. Inl OSError) (new_worker_server 1 NoHosts None None) = (Inl OSError, s1) \<and>
     server_stop [True, True] s1 = (Inl RuntimeError, s1)"
proof -
  have "create_listen_sockets demo_resolve (\<lambda>_. Inl OSError) (normalize_hosts NoHosts) = (Inl OSError, [])"
    by (simp add: create_listen_sockets_def demo_resolve_def Let_def)
  from failed_start_leaves_workers [OF this] show ?thesis by blast
qed

end
